(* ===== verification/Prelude.thy ===== *)
theory Prelude
  imports Main "HOL-Library.Word" "HOL-Library.AList" "HOL-Library.Multiset"
    "HOL-Library.While_Combinator"
begin

text \<open>
  Vocabulary shared by every component: machine integers, the error type of
  \<open>include/uaii/core/error.hpp\<close> and the result type built on it, the few string
  operations of the C++ library the sources use (\<open>std::to_string\<close>, \<open>std::tolower\<close>,
  \<open>std::isspace\<close>, \<open>std::string::find\<close>), and generic lemmas on lists, maps and words.

  Conventions.  A \<open>std::string\<close> is a HOL \<open>string\<close>, a list of bytes.  A \<open>std::uint64_t\<close> or
  \<open>std::size_t\<close> is a \<open>64 word\<close>; a \<open>std::int64_t\<close> is the same word read with \<open>sint\<close>; a \<open>double\<close>
  is its 64-bit pattern.  A fallible operation returns \<open>error + 'a\<close>: \<open>Inl\<close> is the early return
  with an \<open>Error\<close>, \<open>Inr\<close> the success value.
\<close>

type_synonym u8 = "8 word"
type_synonym u16 = "16 word"
type_synonym u32 = "32 word"
type_synonym u64 = "64 word"
type_synonym i64 = "64 word"
type_synonym f64 = "64 word"
type_synonym bytes = "u8 list"

section \<open>Errors and results\<close>

datatype error_code =
    Ok | InvalidArgument | NotFound | IoError | ConfigError | PluginError | AbiMismatch
  | NotImplemented | Internal

datatype error = Error (err_code: error_code) (err_message: string)

fun error_code_to_string :: "error_code \<Rightarrow> string" where
  "error_code_to_string Ok = ''ok''"
| "error_code_to_string InvalidArgument = ''invalid_argument''"
| "error_code_to_string NotFound = ''not_found''"
| "error_code_to_string IoError = ''io_error''"
| "error_code_to_string ConfigError = ''config_error''"
| "error_code_to_string PluginError = ''plugin_error''"
| "error_code_to_string AbiMismatch = ''abi_mismatch''"
| "error_code_to_string NotImplemented = ''not_implemented''"
| "error_code_to_string Internal = ''internal''"

definition error_ok :: "error \<Rightarrow> bool" where
  "error_ok e \<longleftrightarrow> err_code e = Ok"

definition error_to_string :: "error \<Rightarrow> string" where
  "error_to_string e =
     (if error_ok e then ''ok''
      else error_code_to_string (err_code e) @
        (if err_message e \<noteq> [] then '': '' @ err_message e else []))"

text \<open>The sequencing of calls that every source function writes as
  \<open>if (!err.ok()) return err;\<close>.\<close>

definition rbind :: "'e + 'a \<Rightarrow> ('a \<Rightarrow> 'e + 'b) \<Rightarrow> 'e + 'b" where
  "rbind r f = (case r of Inl e \<Rightarrow> Inl e | Inr x \<Rightarrow> f x)"

lemma rbind_simps [simp]:
  "rbind (Inl e) f = Inl e"
  "rbind (Inr x) f = f x"
  by (simp_all add: rbind_def)

lemma rbind_cong [fundef_cong]:
  "r = r' \<Longrightarrow> (\<And>x. r' = Inr x \<Longrightarrow> f x = f' x) \<Longrightarrow> rbind r f = rbind r' f'"
  by (auto simp: rbind_def split: sum.splits)

lemma rbind_Inr_conv: "rbind r f = Inr y \<longleftrightarrow> (\<exists>x. r = Inr x \<and> f x = Inr y)"
  by (cases r) auto

lemma rbind_Inl_conv: "rbind r f = Inl e \<longleftrightarrow> r = Inl e \<or> (\<exists>x. r = Inr x \<and> f x = Inl e)"
  by (cases r) auto

lemma rbind_assoc: "rbind (rbind r f) g = rbind r (\<lambda>x. rbind (f x) g)"
  by (cases r) auto

definition is_ok :: "'e + 'a \<Rightarrow> bool" where
  "is_ok r \<longleftrightarrow> (case r of Inl _ \<Rightarrow> False | Inr _ \<Rightarrow> True)"

lemma is_ok_simps [simp]: "\<not> is_ok (Inl e)" "is_ok (Inr x)"
  by (simp_all add: is_ok_def)

lemma is_ok_conv: "is_ok r \<longleftrightarrow> (\<exists>x. r = Inr x)"
  by (cases r) auto

section \<open>Strings\<close>

definition digit_char :: "nat \<Rightarrow> char" where
  "digit_char d = char_of (48 + d)"

text \<open>\<open>std::to_string\<close> on an unsigned and on a signed integer.\<close>

fun nat_dec :: "nat \<Rightarrow> string" where
  "nat_dec n = (if n < 10 then [digit_char n] else nat_dec (n div 10) @ [digit_char (n mod 10)])"

declare nat_dec.simps [simp del]

definition u64_dec :: "'a::len word \<Rightarrow> string" where
  "u64_dec w = nat_dec (unat w)"

definition int_dec :: "int \<Rightarrow> string" where
  "int_dec i = (if i < 0 then ''-'' @ nat_dec (nat (- i)) else nat_dec (nat i))"

definition i64_dec :: "i64 \<Rightarrow> string" where
  "i64_dec w = int_dec (sint w)"

text \<open>\<open>std::tolower\<close> and \<open>std::isspace\<close> in the "C" locale.\<close>

definition to_lower_char :: "char \<Rightarrow> char" where
  "to_lower_char c = (let n = (of_char c :: nat) in
     if 65 \<le> n \<and> n \<le> 90 then char_of (n + 32) else c)"

definition lower :: "string \<Rightarrow> string" where
  "lower s = map to_lower_char s"

definition is_space :: "char \<Rightarrow> bool" where
  "is_space c \<longleftrightarrow> (let n = (of_char c :: nat) in n = 32 \<or> (9 \<le> n \<and> n \<le> 13))"

definition is_digit :: "char \<Rightarrow> bool" where
  "is_digit c \<longleftrightarrow> (let n = (of_char c :: nat) in 48 \<le> n \<and> n \<le> 57)"

text \<open>\<open>hay.find(needle) != npos\<close>; the empty needle is found in every string.\<close>

fun starts_with :: "'a list \<Rightarrow> 'a list \<Rightarrow> bool" where
  "starts_with [] ys = True"
| "starts_with (x # xs) [] = False"
| "starts_with (x # xs) (y # ys) = (x = y \<and> starts_with xs ys)"

fun contains :: "'a list \<Rightarrow> 'a list \<Rightarrow> bool" where
  "contains needle [] = (needle = [])"
| "contains needle (c # cs) = (starts_with needle (c # cs) \<or> contains needle cs)"

definition ends_with :: "'a list \<Rightarrow> 'a list \<Rightarrow> bool" where
  "ends_with suf s = starts_with (rev suf) (rev s)"

lemma starts_with_iff: "starts_with p s \<longleftrightarrow> (\<exists>t. s = p @ t)"
  by (induction p s rule: starts_with.induct) auto

lemma contains_iff: "contains needle hay \<longleftrightarrow> (\<exists>a b. hay = a @ needle @ b)"
proof (induction needle hay rule: contains.induct)
  case (1 needle)
  then show ?case by auto
next
  case (2 needle c cs)
  have "(\<exists>a b. c # cs = a @ needle @ b) \<longleftrightarrow>
      (\<exists>b. c # cs = needle @ b) \<or> (\<exists>a b. cs = a @ needle @ b)"
    by (metis (no_types, opaque_lifting) append_Cons append_Nil list.exhaust list.inject)
  with 2 show ?case by (simp add: starts_with_iff)
qed

lemma ends_with_iff: "ends_with suf s \<longleftrightarrow> (\<exists>t. s = t @ suf)"
  by (metis ends_with_def rev_append rev_rev_ident starts_with_iff)

lemma contains_self [simp]: "contains s s"
  by (metis append_Nil append_Nil2 contains_iff)

lemma to_lower_char_idem [simp]: "to_lower_char (to_lower_char c) = to_lower_char c"
  by (simp add: to_lower_char_def Let_def of_char_of)

lemma lower_idem [simp]: "lower (lower s) = lower s"
  by (simp add: lower_def)

lemma length_lower [simp]: "length (lower s) = length s"
  by (simp add: lower_def)

lemma nat_dec_nonempty [simp]: "nat_dec n \<noteq> []"
  by (subst nat_dec.simps) simp

lemma is_digit_digit_char: "d < 10 \<Longrightarrow> is_digit (digit_char d)"
  by (simp add: is_digit_def digit_char_def of_char_of Let_def)

lemma nat_dec_digits: "c \<in> set (nat_dec n) \<Longrightarrow> is_digit c"
proof (induction n rule: nat_dec.induct)
  case (1 n)
  then show ?case
    by (cases "n < 10") (auto simp: nat_dec.simps [of n] is_digit_digit_char)
qed

text \<open>Leading white space, as \<open>std::isspace\<close> sees it, dropped.\<close>

definition skip_ws :: "string \<Rightarrow> string" where
  "skip_ws r = dropWhile is_space r"

lemma is_space_not: "is_digit c \<Longrightarrow> \<not> is_space c"
  by (auto simp: is_digit_def is_space_def Let_def)

lemma skip_ws_simps [simp]:
  "skip_ws [] = []" "is_space c \<Longrightarrow> skip_ws (c # r) = skip_ws r"
  "\<not> is_space c \<Longrightarrow> skip_ws (c # r) = c # r"
  by (simp_all add: skip_ws_def)

lemma skip_ws_append [simp]: "\<forall>c \<in> set w. is_space c \<Longrightarrow> skip_ws (w @ r) = skip_ws r"
  by (induction w) auto

lemma skip_ws_idem [simp]: "skip_ws (skip_ws r) = skip_ws r"
  by (simp add: skip_ws_def)

lemma length_skip_ws: "length (skip_ws r) \<le> length r"
  by (simp add: skip_ws_def length_dropWhile_le)

section \<open>Association lists and sums\<close>

text \<open>\<open>m[k] = v\<close> on an \<open>unordered_map\<close> kept as the association list of its iteration order.\<close>

definition map_put :: "'k \<Rightarrow> 'v \<Rightarrow> ('k \<times> 'v) list \<Rightarrow> ('k \<times> 'v) list" where
  "map_put k v m = AList.update k v m"

lemma map_of_map_put [simp]: "map_of (map_put k v m) = (map_of m)(k \<mapsto> v)"
  by (simp add: map_put_def update_conv')

lemma distinct_map_put [simp]: "distinct (map fst m) \<Longrightarrow> distinct (map fst (map_put k v m))"
  by (simp add: map_put_def distinct_update)

lemma map_put_new: "k \<notin> fst ` set m \<Longrightarrow> map_put k v m = m @ [(k, v)]"
  unfolding map_put_def by (induction m) auto

lemma map_put_split:
  obtains (old) a b v0 where "m = a @ (k, v0) # b" "map_put k v m = a @ (k, v) # b"
      "map_of m k = Some v0"
    | (new) "k \<notin> fst ` set m" "map_put k v m = m @ [(k, v)]" "map_of m k = None"
proof (cases "k \<in> fst ` set m")
  case False
  then show thesis using new by (metis map_put_new map_of_eq_None_iff)
next
  case True
  then have "\<exists>a b v0. m = a @ (k, v0) # b \<and> map_put k v m = a @ (k, v) # b \<and> map_of m k = Some v0"
  proof (induction m)
    case (Cons kv m)
    obtain k' v' where kv: "kv = (k', v')" by (cases kv)
    show ?case
    proof (cases "k' = k")
      case True
      then show ?thesis
        using kv by (intro exI [of _ "[]"] exI [of _ m] exI [of _ v']) (simp add: map_put_def)
    next
      case False
      with Cons kv obtain a b v0 where "m = a @ (k, v0) # b" "map_put k v m = a @ (k, v) # b"
        "map_of m k = Some v0"
        by auto
      with False kv show ?thesis
        by (intro exI [of _ "kv # a"] exI [of _ b] exI [of _ v0]) (simp add: map_put_def)
    qed
  qed simp
  then show thesis using old by blast
qed

lemma delete_split:
  assumes "distinct (map fst m)" and "map_of m k = Some v"
  obtains a b where "m = a @ (k, v) # b" and "AList.delete k m = a @ b"
proof -
  from assms(2) obtain a b where m: "m = a @ (k, v) # b"
    by (meson map_of_SomeD split_list)
  have app: "AList.delete k (xs @ ys) = AList.delete k xs @ AList.delete k ys" for xs ys :: "('a \<times> 'b) list"
    by (induction xs) auto
  have "AList.delete k a = a" "AList.delete k b = b"
    using assms(1) m by (auto intro: delete_id)
  then have "AList.delete k m = a @ b"
    using m by (simp add: app)
  with m that show thesis by blast
qed

definition sum_u64 :: "u64 list \<Rightarrow> u64" where
  "sum_u64 xs = foldl (+) 0 xs"

lemma sum_u64_simps [simp]: "sum_u64 [] = 0" "sum_u64 (x # xs) = x + sum_u64 xs"
  "sum_u64 (xs @ ys) = sum_u64 xs + sum_u64 ys"
proof -
  have shift: "foldl (+) a xs = a + foldl (+) (0::u64) xs" for a xs
    by (induction xs arbitrary: a) (simp, metis (no_types, lifting) add.assoc add.left_neutral foldl_Cons)
  show "sum_u64 [] = 0" by (simp add: sum_u64_def)
  show "sum_u64 (x # xs) = x + sum_u64 xs"
    using shift [of x xs] by (simp add: sum_u64_def)
  show "sum_u64 (xs @ ys) = sum_u64 xs + sum_u64 ys"
    using shift [of "foldl (+) 0 xs" ys] by (simp add: sum_u64_def)
qed

text \<open>Additions that stay below the width are exact.\<close>

lemma unat_add_exact:
  "unat (a :: 'a::len word) + unat b < 2 ^ LENGTH('a) \<Longrightarrow> unat (a + b) = unat a + unat b"
  by (simp add: unat_add_lem)

lemma unat_u64_less: "unat (w :: u64) < 2 ^ 64"
  using unsigned_less [of w, where 'a = nat] by simp

lemma unat_sum_u64:
  "sum_list (map unat xs) < 2 ^ 64 \<Longrightarrow> unat (sum_u64 xs) = sum_list (map unat xs)"
  by (induction xs) (auto simp: unat_add_exact)

text \<open>
  Iteration over an \<open>unordered_set\<close> or the keys of an \<open>unordered_map\<close>: each key once, in an
  order the standard leaves open.  \<open>hash_iter h ks\<close> is that order for the keys inserted by the
  history \<open>ks\<close>; the rank \<open>h\<close> is arbitrary, so a theorem for every \<open>h\<close> holds for every order.
\<close>

definition hash_iter :: "('k list \<Rightarrow> 'k \<Rightarrow> nat) \<Rightarrow> 'k list \<Rightarrow> 'k list" where
  "hash_iter h ks = sort_key (h ks) (remdups ks)"

lemma set_hash_iter [simp]: "set (hash_iter h ks) = set ks"
  by (simp add: hash_iter_def)

lemma distinct_hash_iter [simp]: "distinct (hash_iter h ks)"
  by (simp add: hash_iter_def)

lemma length_hash_iter: "distinct ks \<Longrightarrow> length (hash_iter h ks) = length ks"
  by (simp add: hash_iter_def distinct_remdups_id)

lemma length_hash_iter_le: "length (hash_iter h ks) \<le> length ks"
  by (simp add: hash_iter_def)

section \<open>Rule collections\<close>

text \<open>\<open>wf_intros\<close>: introduction rules for the well-formedness of the components' states;
  \<open>codec_simps\<close>: how a reader consumes what the matching writer produced.\<close>

named_theorems wf_intros
named_theorems codec_simps

end
