(* ===== verification/Ir_Types.thy ===== *)
theory Ir_Types
  imports Prelude
begin

text \<open>
  The value types of the intermediate representation: element types, devices, storage hints,
  quantisation formats, shapes, tensors and IR versions (\<open>interfaces/types.hpp\<close>,
  \<open>ir/tensor.hpp\<close>, \<open>ir/dtype.cpp\<close>, \<open>quant/formats.hpp\<close>, \<open>ir/version.cpp\<close>).

  A C++ \<open>enum class\<close> read from a byte by \<open>static_cast\<close> can hold a number that no enumerator
  names; the constructors \<open>DT_Raw\<close> and \<open>SH_Raw\<close> stand for those values.
\<close>

section \<open>Element types\<close>

datatype dtype =
    DT_Unknown | DT_F32 | DT_F16 | DT_BF16 | DT_I8 | DT_I32 | DT_I64 | DT_U8 | DT_U32 | DT_Bool
  | DT_Raw u8

fun dtype_to_string :: "dtype \<Rightarrow> string" where
  "dtype_to_string DT_F32 = ''f32''"
| "dtype_to_string DT_F16 = ''f16''"
| "dtype_to_string DT_BF16 = ''bf16''"
| "dtype_to_string DT_I8 = ''i8''"
| "dtype_to_string DT_I32 = ''i32''"
| "dtype_to_string DT_I64 = ''i64''"
| "dtype_to_string DT_U8 = ''u8''"
| "dtype_to_string DT_U32 = ''u32''"
| "dtype_to_string DT_Bool = ''bool''"
| "dtype_to_string _ = ''unknown''"

definition parse_dtype :: "string \<Rightarrow> dtype option" where
  "parse_dtype text = (let t = lower text in
     if t = ''f32'' \<or> t = ''float32'' \<or> t = ''float'' then Some DT_F32
     else if t = ''f16'' \<or> t = ''float16'' \<or> t = ''half'' then Some DT_F16
     else if t = ''bf16'' \<or> t = ''bfloat16'' then Some DT_BF16
     else if t = ''i8'' \<or> t = ''int8'' then Some DT_I8
     else if t = ''i32'' \<or> t = ''int32'' then Some DT_I32
     else if t = ''i64'' \<or> t = ''int64'' then Some DT_I64
     else if t = ''u8'' \<or> t = ''uint8'' then Some DT_U8
     else if t = ''u32'' \<or> t = ''uint32'' then Some DT_U32
     else if t = ''bool'' \<or> t = ''boolean'' then Some DT_Bool
     else if t = ''unknown'' then Some DT_Unknown
     else None)"

text \<open>\<open>static_cast<uint8_t>(dtype)\<close> and its converse \<open>static_cast<DType>(byte)\<close>.\<close>

fun dtype_code :: "dtype \<Rightarrow> u8" where
  "dtype_code DT_Unknown = 0"
| "dtype_code DT_F32 = 1"
| "dtype_code DT_F16 = 2"
| "dtype_code DT_BF16 = 3"
| "dtype_code DT_I8 = 4"
| "dtype_code DT_I32 = 5"
| "dtype_code DT_I64 = 6"
| "dtype_code DT_U8 = 7"
| "dtype_code DT_U32 = 8"
| "dtype_code DT_Bool = 9"
| "dtype_code (DT_Raw b) = b"

definition dtype_of_code :: "u8 \<Rightarrow> dtype" where
  "dtype_of_code b =
     (if b = 0 then DT_Unknown else if b = 1 then DT_F32 else if b = 2 then DT_F16
      else if b = 3 then DT_BF16 else if b = 4 then DT_I8 else if b = 5 then DT_I32
      else if b = 6 then DT_I64 else if b = 7 then DT_U8 else if b = 8 then DT_U32
      else if b = 9 then DT_Bool else DT_Raw b)"

text \<open>A value of the C++ type: a raw value is never one of the named ones.\<close>

definition dtype_ok :: "dtype \<Rightarrow> bool" where
  "dtype_ok d \<longleftrightarrow> (case d of DT_Raw b \<Rightarrow> 9 < b | _ \<Rightarrow> True)"

fun dtype_size_bytes :: "dtype \<Rightarrow> u64" where
  "dtype_size_bytes DT_F32 = 4"
| "dtype_size_bytes DT_F16 = 2"
| "dtype_size_bytes DT_BF16 = 2"
| "dtype_size_bytes DT_I8 = 1"
| "dtype_size_bytes DT_I32 = 4"
| "dtype_size_bytes DT_I64 = 8"
| "dtype_size_bytes DT_U8 = 1"
| "dtype_size_bytes DT_U32 = 4"
| "dtype_size_bytes DT_Bool = 1"
| "dtype_size_bytes _ = 0"

lemma dtype_code_inverse [simp]: "dtype_ok d \<Longrightarrow> dtype_of_code (dtype_code d) = d"
  by (cases d) (auto simp: dtype_of_code_def dtype_ok_def)

lemma dtype_of_code_ok [simp, wf_intros]: "dtype_ok (dtype_of_code b)"
proof (cases "9 < b")
  case True
  then show ?thesis by (simp add: dtype_of_code_def dtype_ok_def)
next
  case False
  then have "unat b < 10" by (simp add: word_less_nat_alt)
  then have "unat b \<in> {0, 1, 2, 3, 4, 5, 6, 7, 8, 9}" by auto
  then show ?thesis
    by (auto simp: dtype_of_code_def dtype_ok_def word_unat_eq_iff)
qed

section \<open>Devices\<close>

datatype device_type =
    DevUnknown | DevCpu | DevCuda | DevMetal | DevVulkan | DevWebGpu | DevRocm | DevNpu | DevCustom
  | DevRaw "32 word"

fun device_to_string :: "device_type \<Rightarrow> string" where
  "device_to_string DevCpu = ''cpu''"
| "device_to_string DevCuda = ''cuda''"
| "device_to_string DevMetal = ''metal''"
| "device_to_string DevVulkan = ''vulkan''"
| "device_to_string DevWebGpu = ''webgpu''"
| "device_to_string DevRocm = ''rocm''"
| "device_to_string DevNpu = ''npu''"
| "device_to_string DevCustom = ''custom''"
| "device_to_string _ = ''unknown''"

section \<open>Storage hints\<close>

datatype storage_hint = SH_Unspecified | SH_Ram | SH_Mmap | SH_External | SH_Raw u8

fun hint_to_string :: "storage_hint \<Rightarrow> string" where
  "hint_to_string SH_Ram = ''ram''"
| "hint_to_string SH_Mmap = ''mmap''"
| "hint_to_string SH_External = ''external''"
| "hint_to_string _ = ''unspecified''"

definition parse_storage_hint :: "string \<Rightarrow> storage_hint option" where
  "parse_storage_hint text = (let t = lower text in
     if t = ''unspecified'' \<or> t = ''default'' \<or> t = [] then Some SH_Unspecified
     else if t = ''ram'' then Some SH_Ram
     else if t = ''mmap'' then Some SH_Mmap
     else if t = ''external'' then Some SH_External
     else None)"

fun hint_code :: "storage_hint \<Rightarrow> u8" where
  "hint_code SH_Unspecified = 0"
| "hint_code SH_Ram = 1"
| "hint_code SH_Mmap = 2"
| "hint_code SH_External = 3"
| "hint_code (SH_Raw b) = b"

definition hint_of_code :: "u8 \<Rightarrow> storage_hint" where
  "hint_of_code b =
     (if b = 0 then SH_Unspecified else if b = 1 then SH_Ram else if b = 2 then SH_Mmap
      else if b = 3 then SH_External else SH_Raw b)"

definition hint_ok :: "storage_hint \<Rightarrow> bool" where
  "hint_ok h \<longleftrightarrow> (case h of SH_Raw b \<Rightarrow> 3 < b | _ \<Rightarrow> True)"

lemma hint_code_inverse [simp]: "hint_ok h \<Longrightarrow> hint_of_code (hint_code h) = h"
  by (cases h) (auto simp: hint_of_code_def hint_ok_def)

section \<open>Quantisation formats\<close>

datatype quant_format =
    QF_F32 | QF_F16 | QF_BF16 | QF_INT8 | QF_INT4 | QF_NF4 | QF_MXFP4
  | QF_Q4_0 | QF_Q4_1 | QF_Q5_0 | QF_Q5_1 | QF_Q8_0
  | QF_Q2_K | QF_Q3_K | QF_Q4_K | QF_Q5_K | QF_Q6_K | QF_IQ4_NL

text \<open>The enumerators' numbers: the order that \<open>is_gguf_block_quant\<close> compares with.\<close>

fun quant_num :: "quant_format \<Rightarrow> nat" where
  "quant_num QF_F32 = 0" | "quant_num QF_F16 = 1" | "quant_num QF_BF16 = 2"
| "quant_num QF_INT8 = 3" | "quant_num QF_INT4 = 4" | "quant_num QF_NF4 = 5"
| "quant_num QF_MXFP4 = 6" | "quant_num QF_Q4_0 = 7" | "quant_num QF_Q4_1 = 8"
| "quant_num QF_Q5_0 = 9" | "quant_num QF_Q5_1 = 10" | "quant_num QF_Q8_0 = 11"
| "quant_num QF_Q2_K = 12" | "quant_num QF_Q3_K = 13" | "quant_num QF_Q4_K = 14"
| "quant_num QF_Q5_K = 15" | "quant_num QF_Q6_K = 16" | "quant_num QF_IQ4_NL = 17"

lemma quant_num_inj: "quant_num a = quant_num b \<Longrightarrow> a = b"
  by (cases a; cases b) simp_all

instantiation quant_format :: linorder
begin

definition less_eq_quant_format :: "quant_format \<Rightarrow> quant_format \<Rightarrow> bool" where
  "less_eq_quant_format a b = (quant_num a \<le> quant_num b)"

definition less_quant_format :: "quant_format \<Rightarrow> quant_format \<Rightarrow> bool" where
  "less_quant_format a b = (quant_num a < quant_num b)"

instance
  by standard (auto simp: less_eq_quant_format_def less_quant_format_def intro: quant_num_inj)

end

fun quant_to_string :: "quant_format \<Rightarrow> string" where
  "quant_to_string QF_F32 = ''f32''" | "quant_to_string QF_F16 = ''f16''"
| "quant_to_string QF_BF16 = ''bf16''" | "quant_to_string QF_INT8 = ''int8''"
| "quant_to_string QF_INT4 = ''int4''" | "quant_to_string QF_NF4 = ''nf4''"
| "quant_to_string QF_MXFP4 = ''mxfp4''" | "quant_to_string QF_Q4_0 = ''q4_0''"
| "quant_to_string QF_Q4_1 = ''q4_1''" | "quant_to_string QF_Q5_0 = ''q5_0''"
| "quant_to_string QF_Q5_1 = ''q5_1''" | "quant_to_string QF_Q8_0 = ''q8_0''"
| "quant_to_string QF_Q2_K = ''q2_k''" | "quant_to_string QF_Q3_K = ''q3_k''"
| "quant_to_string QF_Q4_K = ''q4_k''" | "quant_to_string QF_Q5_K = ''q5_k''"
| "quant_to_string QF_Q6_K = ''q6_k''" | "quant_to_string QF_IQ4_NL = ''iq4_nl''"

definition parse_quant_format :: "string \<Rightarrow> quant_format option" where
  "parse_quant_format text =
     (if text = ''f32'' \<or> text = ''fp32'' then Some QF_F32
      else if text = ''f16'' \<or> text = ''fp16'' then Some QF_F16
      else if text = ''bf16'' then Some QF_BF16
      else if text = ''int8'' \<or> text = ''i8'' then Some QF_INT8
      else if text = ''int4'' \<or> text = ''i4'' then Some QF_INT4
      else if text = ''nf4'' then Some QF_NF4
      else if text = ''mxfp4'' then Some QF_MXFP4
      else if text = ''q4_0'' then Some QF_Q4_0
      else if text = ''q4_1'' then Some QF_Q4_1
      else if text = ''q5_0'' then Some QF_Q5_0
      else if text = ''q5_1'' then Some QF_Q5_1
      else if text = ''q8_0'' then Some QF_Q8_0
      else if text = ''q2_k'' then Some QF_Q2_K
      else if text = ''q3_k'' then Some QF_Q3_K
      else if text = ''q4_k'' then Some QF_Q4_K
      else if text = ''q5_k'' then Some QF_Q5_K
      else if text = ''q6_k'' then Some QF_Q6_K
      else if text = ''iq4_nl'' then Some QF_IQ4_NL
      else None)"

definition is_gguf_block_quant :: "quant_format \<Rightarrow> bool" where
  "is_gguf_block_quant f \<longleftrightarrow> (QF_Q4_0 \<le> f \<and> f \<le> QF_Q6_K) \<or> f = QF_IQ4_NL"

fun packed_nbytes :: "quant_format \<Rightarrow> u64 \<Rightarrow> u64" where
  "packed_nbytes QF_F32 n = n * 4"
| "packed_nbytes QF_F16 n = n * 2"
| "packed_nbytes QF_BF16 n = n * 2"
| "packed_nbytes QF_INT8 n = n"
| "packed_nbytes QF_INT4 n = (n + 1) div 2"
| "packed_nbytes QF_NF4 n = (n + 1) div 2"
| "packed_nbytes QF_MXFP4 n = (n + 1) div 2"
| "packed_nbytes QF_Q4_0 n = (n div 32) * 18"
| "packed_nbytes QF_Q4_1 n = (n div 32) * 20"
| "packed_nbytes QF_Q5_0 n = (n div 32) * 22"
| "packed_nbytes QF_Q5_1 n = (n div 32) * 24"
| "packed_nbytes QF_Q8_0 n = (n div 32) * 34"
| "packed_nbytes QF_Q2_K n = (n div 256) * 84"
| "packed_nbytes QF_Q3_K n = (n div 256) * 110"
| "packed_nbytes QF_Q4_K n = (n div 256) * 144"
| "packed_nbytes QF_Q5_K n = (n div 256) * 176"
| "packed_nbytes QF_Q6_K n = (n div 256) * 210"
| "packed_nbytes QF_IQ4_NL n = (n div 32) * 18"

section \<open>Shapes and tensors\<close>

type_synonym shape = "i64 list"

fun numel_loop :: "u64 \<Rightarrow> i64 list \<Rightarrow> u64" where
  "numel_loop n [] = n"
| "numel_loop n (d # ds) = (if sint d < 0 then 0 else numel_loop (n * d) ds)"

definition shape_numel :: "shape \<Rightarrow> u64" where
  "shape_numel dims = (if dims = [] then 0 else numel_loop 1 dims)"

record tensor =
  t_id :: u64
  t_name :: string
  t_dtype :: dtype
  t_shape :: shape
  t_storage_hint :: storage_hint
  t_is_weight :: bool
  t_weight_ref :: string
  t_quant_format :: quant_format

definition tensor_default :: tensor where
  "tensor_default = \<lparr>t_id = 0, t_name = [], t_dtype = DT_Unknown, t_shape = [],
     t_storage_hint = SH_Unspecified, t_is_weight = False, t_weight_ref = [],
     t_quant_format = QF_F32\<rparr>"

definition estimate_tensor_bytes :: "tensor \<Rightarrow> u64" where
  "estimate_tensor_bytes t =
     (let elem = dtype_size_bytes (t_dtype t); n = shape_numel (t_shape t)
      in if elem = 0 \<or> n = 0 then 0 else elem * n)"

section \<open>IR versions\<close>

datatype ir_version = IrVersion (ver_major: u32) (ver_minor: u32)

instantiation ir_version :: linorder
begin

definition less_ir_version :: "ir_version \<Rightarrow> ir_version \<Rightarrow> bool" where
  "less_ir_version a b \<longleftrightarrow>
     ver_major a < ver_major b \<or> (ver_major a = ver_major b \<and> ver_minor a < ver_minor b)"

definition less_eq_ir_version :: "ir_version \<Rightarrow> ir_version \<Rightarrow> bool" where
  "less_eq_ir_version a b \<longleftrightarrow> a = b \<or> a < b"

instance
  by standard
    (auto simp: less_ir_version_def less_eq_ir_version_def ir_version.expand dest: less_trans,
     (metis ir_version.expand linorder_neqE)+)

end

definition current_ir_version :: ir_version where
  "current_ir_version = IrVersion 1 0"

definition version_to_string :: "ir_version \<Rightarrow> string" where
  "version_to_string v = u64_dec (ver_major v) @ ''.'' @ u64_dec (ver_minor v)"

definition is_compatible :: "ir_version \<Rightarrow> bool" where
  "is_compatible v =
     (if ver_major v \<noteq> ver_major current_ir_version then False
      else ver_minor v \<le> ver_minor current_ir_version)"

definition check_compatible :: "ir_version \<Rightarrow> error + unit" where
  "check_compatible v =
     (if is_compatible v then Inr ()
      else Inl (Error InvalidArgument
        (''unsupported UAII IR version '' @ version_to_string v @ '' (supported major='' @
         u64_dec (ver_major current_ir_version) @ '', minor<= '' @
         u64_dec (ver_minor current_ir_version) @ '')'')))"

section \<open>Lemmas\<close>

lemma parse_dtype_to_string:
  "parse_dtype (dtype_to_string d) = Some (case d of DT_Raw _ \<Rightarrow> DT_Unknown | _ \<Rightarrow> d)"
  by (cases d) (simp_all add: parse_dtype_def lower_def to_lower_char_def Let_def)

lemma parse_dtype_lower: "parse_dtype (lower s) = parse_dtype s"
  by (simp add: parse_dtype_def)

lemma parse_hint_to_string:
  "parse_storage_hint (hint_to_string h) = Some (case h of SH_Raw _ \<Rightarrow> SH_Unspecified | _ \<Rightarrow> h)"
  by (cases h) (simp_all add: parse_storage_hint_def lower_def to_lower_char_def Let_def)

lemma parse_quant_to_string: "parse_quant_format (quant_to_string f) = Some f"
  by (cases f) (simp_all add: parse_quant_format_def)

lemma is_gguf_block_quant_iff:
  "is_gguf_block_quant f \<longleftrightarrow> f \<notin> {QF_F32, QF_F16, QF_BF16, QF_INT8, QF_INT4, QF_NF4, QF_MXFP4}"
  by (cases f) (simp_all add: is_gguf_block_quant_def less_eq_quant_format_def)

text \<open>The element count is exact as long as the true product fits the word.\<close>

lemma numel_loop_exact:
  assumes "\<forall>d \<in> set ds. 0 \<le> sint d" and "unat n * prod_list (map unat ds) < 2 ^ 64"
    and "\<forall>d \<in> set ds. d \<noteq> 0"
  shows "unat (numel_loop n ds) = unat n * prod_list (map unat ds)"
  using assms
proof (induction n ds rule: numel_loop.induct)
  case (1 n)
  then show ?case by simp
next
  case (2 n d ds)
  have pos: "1 \<le> prod_list (map unat ds)"
    using "2.prems"(3) by (induction ds) (auto simp: unat_gt_0 Suc_le_eq word_neq_0_conv)
  have "unat n * unat d \<le> unat n * unat d * prod_list (map unat ds)"
    using pos by simp
  also have "\<dots> < 2 ^ 64" using "2.prems"(2) by (simp add: mult.assoc)
  finally have nd: "unat (n * d) = unat n * unat d"
    using unat_mult_lem [of n d] by simp
  have "\<not> sint d < 0" using "2.prems"(1) by auto
  with 2 nd show ?case by (auto simp: mult.assoc)
qed

lemma shape_numel_dynamic: "d \<in> set dims \<Longrightarrow> sint d < 0 \<Longrightarrow> shape_numel dims = 0"
proof -
  have "numel_loop n ds = 0" if "d \<in> set ds" "sint d < 0" for n ds
    using that by (induction n ds rule: numel_loop.induct) auto
  then show "d \<in> set dims \<Longrightarrow> sint d < 0 \<Longrightarrow> shape_numel dims = 0"
    by (auto simp: shape_numel_def)
qed

lemma check_compatible_iff: "is_ok (check_compatible v) \<longleftrightarrow> v \<le> current_ir_version \<and> ver_major v = 1"
  by (auto simp: check_compatible_def is_compatible_def current_ir_version_def
      less_eq_ir_version_def less_ir_version_def ir_version.expand order_le_less)

end
