(* ===== verification/Ir_Graph.thy ===== *)
theory Ir_Graph
  imports Ir_Types
begin

text \<open>
  The graph itself: attributes, nodes, the \<open>Graph\<close> struct with its lookups, and the
  \<open>GraphBuilder\<close> (\<open>ir/attribute.hpp\<close>, \<open>ir/node.hpp\<close>, \<open>ir/graph.hpp\<close>, \<open>ir/graph.cpp\<close>).

  \<open>Attribute\<close> carries a type tag beside a \<open>std::variant\<close>; every constructor of the source
  keeps the two equal, so the model has one tagged value and \<open>attribute_type\<close> reads the tag.
  \<open>Graph::metadata\<close> is an \<open>unordered_map\<close>, kept as the association list of its iteration order.
\<close>

section \<open>Attributes\<close>

datatype attr_value =
    AString string | AInt i64 | AFloat f64 | ABool bool | AIntArray "i64 list"
  | AFloatArray "f64 list"

datatype attr_type = TString | TInt | TFloat | TBool | TIntArray | TFloatArray

datatype attribute = Attribute (a_key: string) (a_value: attr_value)

fun value_type :: "attr_value \<Rightarrow> attr_type" where
  "value_type (AString _) = TString"
| "value_type (AInt _) = TInt"
| "value_type (AFloat _) = TFloat"
| "value_type (ABool _) = TBool"
| "value_type (AIntArray _) = TIntArray"
| "value_type (AFloatArray _) = TFloatArray"

definition attribute_type :: "attribute \<Rightarrow> attr_type" where
  "attribute_type a = value_type (a_value a)"

definition make_string_attr :: "string \<Rightarrow> string \<Rightarrow> attribute" where
  "make_string_attr k v = Attribute k (AString v)"

definition make_int_attr :: "string \<Rightarrow> i64 \<Rightarrow> attribute" where
  "make_int_attr k v = Attribute k (AInt v)"

definition make_float_attr :: "string \<Rightarrow> f64 \<Rightarrow> attribute" where
  "make_float_attr k v = Attribute k (AFloat v)"

definition make_bool_attr :: "string \<Rightarrow> bool \<Rightarrow> attribute" where
  "make_bool_attr k v = Attribute k (ABool v)"

definition make_int_array_attr :: "string \<Rightarrow> i64 list \<Rightarrow> attribute" where
  "make_int_array_attr k v = Attribute k (AIntArray v)"

definition make_float_array_attr :: "string \<Rightarrow> f64 list \<Rightarrow> attribute" where
  "make_float_array_attr k v = Attribute k (AFloatArray v)"

fun attr_type_to_string :: "attr_type \<Rightarrow> string" where
  "attr_type_to_string TString = ''string''"
| "attr_type_to_string TInt = ''int''"
| "attr_type_to_string TFloat = ''float''"
| "attr_type_to_string TBool = ''bool''"
| "attr_type_to_string TIntArray = ''int_array''"
| "attr_type_to_string TFloatArray = ''float_array''"

section \<open>Nodes and graphs\<close>

record node =
  n_id :: u64
  n_name :: string
  n_op_name :: string
  n_op_version :: string
  n_inputs :: "u64 list"
  n_outputs :: "u64 list"
  n_attributes :: "attribute list"

record graph =
  g_version :: ir_version
  g_name :: string
  g_producer :: string
  g_domain :: string
  g_tensors :: "tensor list"
  g_nodes :: "node list"
  g_inputs :: "u64 list"
  g_outputs :: "u64 list"
  g_metadata :: "(string \<times> string) list"

definition graph_default :: graph where
  "graph_default = \<lparr>g_version = current_ir_version, g_name = [], g_producer = [],
     g_domain = ''uaii'', g_tensors = [], g_nodes = [], g_inputs = [], g_outputs = [],
     g_metadata = []\<rparr>"

definition find_tensor :: "graph \<Rightarrow> u64 \<Rightarrow> tensor option" where
  "find_tensor g i = find (\<lambda>t. t_id t = i) (g_tensors g)"

definition find_node :: "graph \<Rightarrow> u64 \<Rightarrow> node option" where
  "find_node g i = find (\<lambda>n. n_id n = i) (g_nodes g)"

definition has_tensor :: "graph \<Rightarrow> u64 \<Rightarrow> bool" where
  "has_tensor g i \<longleftrightarrow> find_tensor g i \<noteq> None"

definition has_node :: "graph \<Rightarrow> u64 \<Rightarrow> bool" where
  "has_node g i \<longleftrightarrow> find_node g i \<noteq> None"

definition graph_clear :: "graph \<Rightarrow> graph" where
  "graph_clear g = graph_default"

section \<open>The builder\<close>

record graph_builder =
  b_graph :: graph
  b_next_tensor_id :: u64
  b_next_node_id :: u64

definition new_builder :: "string \<Rightarrow> graph_builder" where
  "new_builder name = \<lparr>b_graph = graph_default\<lparr>g_name := name,
     g_producer := ''uaii-graph-builder'', g_version := current_ir_version\<rparr>,
     b_next_tensor_id = 1, b_next_node_id = 1\<rparr>"

definition set_producer :: "string \<Rightarrow> graph_builder \<Rightarrow> graph_builder" where
  "set_producer p b = b\<lparr>b_graph := (b_graph b)\<lparr>g_producer := p\<rparr>\<rparr>"

definition set_domain :: "string \<Rightarrow> graph_builder \<Rightarrow> graph_builder" where
  "set_domain d b = b\<lparr>b_graph := (b_graph b)\<lparr>g_domain := d\<rparr>\<rparr>"

definition set_version :: "ir_version \<Rightarrow> graph_builder \<Rightarrow> graph_builder" where
  "set_version v b = b\<lparr>b_graph := (b_graph b)\<lparr>g_version := v\<rparr>\<rparr>"

definition set_metadata :: "string \<Rightarrow> string \<Rightarrow> graph_builder \<Rightarrow> graph_builder" where
  "set_metadata k v b =
     b\<lparr>b_graph := (b_graph b)\<lparr>g_metadata := map_put k v (g_metadata (b_graph b))\<rparr>\<rparr>"

definition add_tensor ::
    "string \<Rightarrow> dtype \<Rightarrow> shape \<Rightarrow> storage_hint \<Rightarrow> graph_builder \<Rightarrow> u64 \<times> graph_builder" where
  "add_tensor name dt sh hint b =
     (let t = tensor_default\<lparr>t_id := b_next_tensor_id b, t_name := name, t_dtype := dt,
                t_shape := sh, t_storage_hint := hint\<rparr>
      in (t_id t, b\<lparr>b_graph := (b_graph b)\<lparr>g_tensors := g_tensors (b_graph b) @ [t]\<rparr>,
                    b_next_tensor_id := b_next_tensor_id b + 1\<rparr>))"

definition add_weight ::
    "string \<Rightarrow> dtype \<Rightarrow> shape \<Rightarrow> string \<Rightarrow> quant_format \<Rightarrow> graph_builder \<Rightarrow> u64 \<times> graph_builder" where
  "add_weight name dt sh ref qf b =
     (let t = tensor_default\<lparr>t_id := b_next_tensor_id b, t_name := name, t_dtype := dt,
                t_shape := sh, t_is_weight := True, t_storage_hint := SH_External,
                t_weight_ref := ref, t_quant_format := qf\<rparr>
      in (t_id t, b\<lparr>b_graph := (b_graph b)\<lparr>g_tensors := g_tensors (b_graph b) @ [t]\<rparr>,
                    b_next_tensor_id := b_next_tensor_id b + 1\<rparr>))"

definition add_node ::
    "string \<Rightarrow> string \<Rightarrow> string \<Rightarrow> u64 list \<Rightarrow> u64 list \<Rightarrow> attribute list \<Rightarrow> graph_builder
      \<Rightarrow> u64 \<times> graph_builder" where
  "add_node name op ver ins outs attrs b =
     (let n = \<lparr>n_id = b_next_node_id b, n_name = name, n_op_name = op, n_op_version = ver,
               n_inputs = ins, n_outputs = outs, n_attributes = attrs\<rparr>
      in (n_id n, b\<lparr>b_graph := (b_graph b)\<lparr>g_nodes := g_nodes (b_graph b) @ [n]\<rparr>,
                    b_next_node_id := b_next_node_id b + 1\<rparr>))"

definition set_inputs :: "u64 list \<Rightarrow> graph_builder \<Rightarrow> graph_builder" where
  "set_inputs ids b = b\<lparr>b_graph := (b_graph b)\<lparr>g_inputs := ids\<rparr>\<rparr>"

definition set_outputs :: "u64 list \<Rightarrow> graph_builder \<Rightarrow> graph_builder" where
  "set_outputs ids b = b\<lparr>b_graph := (b_graph b)\<lparr>g_outputs := ids\<rparr>\<rparr>"

definition build :: "graph_builder \<Rightarrow> graph" where
  "build b = b_graph b"

lemmas builder_defs = set_producer_def set_domain_def set_version_def set_metadata_def
  add_tensor_def add_weight_def add_node_def set_inputs_def set_outputs_def build_def

section \<open>Builder runs\<close>

text \<open>A client of the builder is a sequence of calls; each call is one step.\<close>

datatype builder_call =
    SetProducer string
  | SetDomain string
  | SetVersion ir_version
  | SetMetadata string string
  | AddTensor string dtype shape storage_hint
  | AddWeight string dtype shape string quant_format
  | AddNode string string string "u64 list" "u64 list" "attribute list"
  | SetInputs "u64 list"
  | SetOutputs "u64 list"

fun builder_step :: "builder_call \<Rightarrow> graph_builder \<Rightarrow> graph_builder" where
  "builder_step (SetProducer p) b = set_producer p b"
| "builder_step (SetDomain d) b = set_domain d b"
| "builder_step (SetVersion v) b = set_version v b"
| "builder_step (SetMetadata k v) b = set_metadata k v b"
| "builder_step (AddTensor n d s h) b = snd (add_tensor n d s h b)"
| "builder_step (AddWeight n d s r q) b = snd (add_weight n d s r q b)"
| "builder_step (AddNode n p v i t a) b = snd (add_node n p v i t a b)"
| "builder_step (SetInputs i) b = set_inputs i b"
| "builder_step (SetOutputs t) b = set_outputs t b"

definition builder_run :: "builder_call list \<Rightarrow> graph_builder \<Rightarrow> graph_builder" where
  "builder_run cs b = fold builder_step cs b"

text \<open>The invariant: the ids given out so far are exactly 1, 2, ..., in order, and the counter
  is the next one.\<close>

definition ids_upto :: "nat \<Rightarrow> u64 list" where
  "ids_upto n = map (\<lambda>i. word_of_nat (Suc i)) [0..<n]"

definition builder_inv :: "graph_builder \<Rightarrow> bool" where
  "builder_inv b \<longleftrightarrow>
     map t_id (g_tensors (b_graph b)) = ids_upto (length (g_tensors (b_graph b))) \<and>
     b_next_tensor_id b = word_of_nat (Suc (length (g_tensors (b_graph b)))) \<and>
     map n_id (g_nodes (b_graph b)) = ids_upto (length (g_nodes (b_graph b))) \<and>
     b_next_node_id b = word_of_nat (Suc (length (g_nodes (b_graph b)))) \<and>
     distinct (map fst (g_metadata (b_graph b)))"

lemma ids_upto_Suc: "ids_upto (Suc n) = ids_upto n @ [word_of_nat (Suc n)]"
  by (simp add: ids_upto_def)

lemma builder_inv_new [wf_intros]: "builder_inv (new_builder name)"
  by (simp add: builder_inv_def new_builder_def graph_default_def ids_upto_def)

lemma builder_inv_step [wf_intros]: "builder_inv b \<Longrightarrow> builder_inv (builder_step c b)"
  by (cases c) (auto simp: builder_inv_def builder_defs Let_def ids_upto_Suc tensor_default_def
      add.commute)

lemma builder_inv_run [wf_intros]: "builder_inv b \<Longrightarrow> builder_inv (builder_run cs b)"
  unfolding builder_run_def by (induction cs arbitrary: b) (auto intro: builder_inv_step)

lemma unat_id: "Suc i < 2 ^ 64 \<Longrightarrow> unat (word_of_nat (Suc i) :: u64) = Suc i"
  by (simp only: unat_of_nat) simp

lemma ids_upto_distinct: "n < 2 ^ 64 \<Longrightarrow> distinct (ids_upto n)"
proof -
  assume n: "n < 2 ^ 64"
  have "inj_on (\<lambda>i. word_of_nat (Suc i) :: u64) (set [0..<n])"
  proof (rule inj_onI)
    fix x y assume "x \<in> set [0..<n]" "y \<in> set [0..<n]"
      and eq: "(word_of_nat (Suc x) :: u64) = word_of_nat (Suc y)"
    then have "Suc x < 2 ^ 64" "Suc y < 2 ^ 64" using n by auto
    with eq show "x = y" by (metis unat_id nat.inject)
  qed
  then show ?thesis by (simp add: ids_upto_def distinct_map)
qed

lemma ids_upto_nonzero: "n < 2 ^ 64 \<Longrightarrow> 0 \<notin> set (ids_upto n)"
proof
  assume n: "n < 2 ^ 64" and "0 \<in> set (ids_upto n)"
  then obtain i where i: "i < n" and z: "(word_of_nat (Suc i) :: u64) = 0"
    unfolding ids_upto_def set_map set_upt by (metis (no_types, lifting) atLeastLessThan_iff image_iff)
  have "unat (word_of_nat (Suc i) :: u64) = Suc i"
    by (rule unat_id) (use i n in simp)
  then show False by (simp only: z unat_0)
qed

text \<open>How many calls of a run add a tensor, and how many add a node.\<close>

lemma builder_step_lengths:
  "length (g_tensors (b_graph (builder_step c b))) \<le> Suc (length (g_tensors (b_graph b)))"
  "length (g_nodes (b_graph (builder_step c b))) \<le> Suc (length (g_nodes (b_graph b)))"
  by (cases c; simp add: builder_defs Let_def)+

lemma builder_run_lengths:
  "length (g_tensors (b_graph (builder_run cs b))) \<le> length (g_tensors (b_graph b)) + length cs"
  "length (g_nodes (b_graph (builder_run cs b))) \<le> length (g_nodes (b_graph b)) + length cs"
proof -
  show "length (g_tensors (b_graph (builder_run cs b))) \<le> length (g_tensors (b_graph b)) + length cs"
    unfolding builder_run_def
  proof (induction cs arbitrary: b)
    case (Cons c cs)
    from Cons.IH [of "builder_step c b"] builder_step_lengths(1) [of c b] show ?case by simp
  qed simp
  show "length (g_nodes (b_graph (builder_run cs b))) \<le> length (g_nodes (b_graph b)) + length cs"
    unfolding builder_run_def
  proof (induction cs arbitrary: b)
    case (Cons c cs)
    from Cons.IH [of "builder_step c b"] builder_step_lengths(2) [of c b] show ?case by simp
  qed simp
qed

section \<open>Lookups\<close>

lemma find_Some_mem: "find P xs = Some x \<Longrightarrow> x \<in> set xs \<and> P x"
  by (auto simp: find_Some_iff)

lemma find_distinct_key:
  "distinct (map f xs) \<Longrightarrow> x \<in> set xs \<Longrightarrow> find (\<lambda>y. f y = f x) xs = Some x"
  by (induction xs) (auto simp: image_iff)

lemma find_tensor_distinct:
  "distinct (map t_id (g_tensors g)) \<Longrightarrow> t \<in> set (g_tensors g) \<Longrightarrow> find_tensor g (t_id t) = Some t"
  by (simp add: find_tensor_def find_distinct_key)

lemma find_node_distinct:
  "distinct (map n_id (g_nodes g)) \<Longrightarrow> n \<in> set (g_nodes g) \<Longrightarrow> find_node g (n_id n) = Some n"
  by (simp add: find_node_def find_distinct_key)

lemma has_tensor_iff: "has_tensor g i \<longleftrightarrow> i \<in> t_id ` set (g_tensors g)"
  by (auto simp: has_tensor_def find_tensor_def find_None_iff image_iff)

text \<open>C23. A graph built by any sequence of fewer than 2^64 builder calls has pairwise distinct,
  non-zero tensor ids and node ids, so that every tensor and node is the one its id finds.\<close>

theorem builder_ids_unique:
  assumes "length cs < 2 ^ 64" and "g = build (builder_run cs (new_builder name))"
  shows "distinct (map t_id (g_tensors g)) \<and> 0 \<notin> t_id ` set (g_tensors g) \<and>
    distinct (map n_id (g_nodes g)) \<and> 0 \<notin> n_id ` set (g_nodes g) \<and>
    (\<forall>t \<in> set (g_tensors g). find_tensor g (t_id t) = Some t) \<and>
    (\<forall>n \<in> set (g_nodes g). find_node g (n_id n) = Some n)"
proof -
  let ?b = "builder_run cs (new_builder name)"
  have inv: "builder_inv ?b" by (intro wf_intros)
  have "length (g_tensors g) < 2 ^ 64" "length (g_nodes g) < 2 ^ 64"
    using builder_run_lengths [of cs "new_builder name"] assms
    by (simp_all add: build_def new_builder_def graph_default_def)
  moreover have ids: "map t_id (g_tensors g) = ids_upto (length (g_tensors g))"
    "map n_id (g_nodes g) = ids_upto (length (g_nodes g))"
    using inv assms(2) by (simp_all add: builder_inv_def build_def)
  ultimately have dt: "distinct (map t_id (g_tensors g))" "0 \<notin> set (map t_id (g_tensors g))"
    and dn: "distinct (map n_id (g_nodes g))" "0 \<notin> set (map n_id (g_nodes g))"
    unfolding ids by (simp_all only: ids_upto_distinct ids_upto_nonzero not_False_eq_True)
  then show ?thesis
    by (auto simp: find_tensor_distinct find_node_distinct)
qed

definition demo_calls :: "builder_call list" where
  "demo_calls = [AddTensor ''x'' DT_F32 [1, 4] SH_Unspecified,
     AddWeight ''w'' DT_F32 [4, 4] ''m.gguf#w'' QF_F32,
     AddTensor ''y'' DT_F32 [1, 4] SH_Unspecified,
     AddNode ''mm'' ''MatMul'' ''1'' [1, 2] [3] [], SetInputs [1], SetOutputs [3]]"

theorem builder_ids_unique_witness:
  "map t_id (g_tensors (build (builder_run demo_calls (new_builder ''demo'')))) = [1, 2, 3] \<and>
   distinct (map t_id (g_tensors (build (builder_run demo_calls (new_builder ''demo'')))))"
proof
  show "map t_id (g_tensors (build (builder_run demo_calls (new_builder ''demo'')))) = [1, 2, 3]"
    by (simp add: demo_calls_def builder_run_def builder_defs new_builder_def graph_default_def
        tensor_default_def)
  show "distinct (map t_id (g_tensors (build (builder_run demo_calls (new_builder ''demo'')))))"
    using builder_ids_unique [of demo_calls "build (builder_run demo_calls (new_builder ''demo''))"
        "''demo''"]
    by (simp add: demo_calls_def)
qed

end
