(* ===== verification/Op_Registry.thy ===== *)
theory Op_Registry
  imports Ir_Graph
begin

text \<open>
  Operator schemas and the registry that the validator looks them up in (\<open>ir/op.hpp\<close>,
  \<open>ir/registry.cpp\<close>, \<open>ir/builtins.cpp\<close>).  The executable operators of the registry are C++
  objects behind the \<open>IOperator\<close> interface; they enter as an arbitrary type with its signature.

  The locale \<open>schema_store\<close> is the contract the validator and the loaders rely on: what a
  lookup returns after a registration.
\<close>

section \<open>Schemas\<close>

record op_schema =
  s_name :: string
  s_version :: string
  s_min_inputs :: int
  s_max_inputs :: int
  s_min_outputs :: int
  s_max_outputs :: int
  s_known_attributes :: "string list"
  s_description :: string

definition op_key :: "string \<Rightarrow> string \<Rightarrow> string" where
  "op_key name version = name @ ''@'' @ version"

record 'op operator_registry =
  r_schemas :: "(string \<times> op_schema) list"
  r_operators :: "(string \<times> 'op) list"

definition empty_registry :: "'op operator_registry" where
  "empty_registry = \<lparr>r_schemas = [], r_operators = []\<rparr>"

text \<open>The schema as it is stored: an empty version is replaced by "1".\<close>

definition default_version :: "op_schema \<Rightarrow> op_schema" where
  "default_version s = (if s_version s = [] then s\<lparr>s_version := ''1''\<rparr> else s)"

definition register_schema ::
    "op_schema \<Rightarrow> 'op operator_registry \<Rightarrow> error + 'op operator_registry" where
  "register_schema s r =
     (if s_name s = [] then Inl (Error InvalidArgument ''op schema name is empty'')
      else let s' = default_version s; key = op_key (s_name s') (s_version s')
           in Inr (r\<lparr>r_schemas := map_put key s' (r_schemas r)\<rparr>))"

definition find_schema :: "'op operator_registry \<Rightarrow> string \<Rightarrow> string \<Rightarrow> op_schema option" where
  "find_schema r name version = map_of (r_schemas r) (op_key name version)"

definition list_schemas :: "'op operator_registry \<Rightarrow> op_schema list" where
  "list_schemas r = map snd (r_schemas r)"

definition schema_count :: "'op operator_registry \<Rightarrow> nat" where
  "schema_count r = length (r_schemas r)"

text \<open>\<open>signature\<close> is the virtual method of \<open>IOperator\<close>; \<open>None\<close> is the null pointer.\<close>

definition register_operator ::
    "('op \<Rightarrow> string \<times> string) \<Rightarrow> 'op option \<Rightarrow> 'op operator_registry
      \<Rightarrow> error + 'op operator_registry" where
  "register_operator signature op r = (case op of
       None \<Rightarrow> Inl (Error InvalidArgument ''null operator'')
     | Some x \<Rightarrow> (let (name, version) = signature x
         in Inr (r\<lparr>r_operators := map_put (op_key name version) x (r_operators r)\<rparr>)))"

definition find_operator :: "'op operator_registry \<Rightarrow> string \<Rightarrow> string \<Rightarrow> 'op option" where
  "find_operator r name version = map_of (r_operators r) (op_key name version)"

definition list_operators ::
    "('op \<Rightarrow> string \<times> string) \<Rightarrow> 'op operator_registry \<Rightarrow> (string \<times> string) list" where
  "list_operators signature r = map (signature \<circ> snd) (r_operators r)"

section \<open>Built-in schemas\<close>

definition schema :: "string \<Rightarrow> int \<Rightarrow> int \<Rightarrow> int \<Rightarrow> int \<Rightarrow> string list \<Rightarrow> string \<Rightarrow> op_schema" where
  "schema name min_in max_in min_out max_out attrs desc =
     \<lparr>s_name = name, s_version = ''1'', s_min_inputs = min_in, s_max_inputs = max_in,
      s_min_outputs = min_out, s_max_outputs = max_out, s_known_attributes = attrs,
      s_description = desc\<rparr>"

text \<open>The UTF-8 bytes of the arrow that two descriptions hold.\<close>

definition arrow :: string where
  "arrow = [char_of (226 :: nat), char_of (134 :: nat), char_of (146 :: nat)]"

definition builtin_schemas :: "op_schema list" where
  "builtin_schemas = [
     schema ''MatMul'' 2 2 1 1 [''transpose_a'', ''transpose_b''] ''Matrix multiplication'',
     schema ''MatMulRelu'' 2 2 1 1 [''transpose_a'', ''transpose_b''] ''Fused MatMul + ReLU (Phase 6)'',
     schema ''Add'' 2 2 1 1 [] ''Element-wise add'',
     schema ''Mul'' 2 2 1 1 [] ''Element-wise multiply'',
     schema ''Sub'' 2 2 1 1 [] ''Element-wise subtract'',
     schema ''Div'' 2 2 1 1 [] ''Element-wise divide'',
     schema ''Relu'' 1 1 1 1 [] ''ReLU'',
     schema ''Relu2'' 1 1 1 1 [] ''ReLU squared'',
     schema ''Neg'' 1 1 1 1 [] ''Negate (plugin or builtin)'',
     schema ''Gelu'' 1 1 1 1 [''approximate''] ''GELU'',
     schema ''Silu'' 1 1 1 1 [] ''SiLU / Swish'',
     schema ''Softcap'' 1 1 1 1 [''cap''] ''y = cap * tanh(x/cap)'',
     schema ''Softmax'' 1 1 1 1 [''axis''] ''Softmax'',
     schema ''LayerNorm'' 1 3 1 1 [''eps'', ''axis''] ''Layer normalization'',
     schema ''RMSNorm'' 1 2 1 1 [''eps'', ''offset''] (''RMS normalization (offset=1 '' @ arrow @ '' Gemma 1+w)''),
     schema ''Reshape'' 1 2 1 1 [''shape''] ''Reshape'',
     schema ''Transpose'' 1 1 1 1 [''perm''] ''Transpose'',
     schema ''Identity'' 1 1 1 1 [] ''Identity'',
     schema ''Cast'' 1 1 1 1 [''to''] ''Cast dtype'',
     schema ''Concat'' 1 (-1) 1 1 [''axis''] ''Concatenate'',
     schema ''Split'' 1 1 1 (-1) [''axis'', ''split''] ''Split'',
     schema ''Attention'' 3 5 1 3
       [''num_heads'', ''kv_heads'', ''scale'', ''causal'', ''use_kv_cache'', ''layer_id'',
        ''logit_softcap'', ''sliding_window''] ''Multi-head attention (Q,K,V[,past_k,past_v])'',
     schema ''RoPE'' 1 2 1 1
       [''theta'', ''head_dim'', ''mode'', ''rotary_dim'', ''scale_type'', ''scale_factor'',
        ''short_factor'', ''long_factor''] ''Rotary position embedding'',
     schema ''MLAExpandK'' 2 2 1 1 [''num_heads'', ''nope_dim'', ''rope_dim'']
       ''MLA expand: concat per-head k_nope with shared k_rope'',
     schema ''Slice'' 1 1 1 1 [''start'', ''end''] ''Slice last dimension [start,end)'',
     schema ''Embedding'' 2 2 1 1 [] ''Token embedding lookup'',
     schema ''Positions'' 1 1 1 1 [] ''Absolute positions from KV cache (GPT-2 wpe)'',
     schema ''MLP'' 3 3 1 1 [''activation''] ''Composite MLP (expand in IR for execution)'',
     schema ''MoERouter'' 2 2 2 2 [''num_experts'', ''top_k'']
       (''MoE gate router '' @ arrow @ '' probs + top expert ids''),
     schema ''MoEExperts'' 3 3 1 1 [''num_experts''] ''MoE expert dispatch (top-1 linear)'',
     schema ''MoEExpertsSwiGLU'' 5 (-1) 1 1 [''num_experts'', ''top_k'']
       ''MoE SwiGLU: packed [x,gate,up,down,probs] or listed [x,probs,g0,u0,d0,...]'']"

text \<open>\<open>(void)register_schema(...)\<close>: an error is dropped and the registry is left as it was.\<close>

definition register_or_skip :: "op_schema \<Rightarrow> 'op operator_registry \<Rightarrow> 'op operator_registry" where
  "register_or_skip s r = (case register_schema s r of Inl e \<Rightarrow> r | Inr r' \<Rightarrow> r')"

definition register_builtin_schemas :: "'op operator_registry \<Rightarrow> 'op operator_registry" where
  "register_builtin_schemas r = fold register_or_skip builtin_schemas r"

definition default_registry :: "'op operator_registry" where
  "default_registry = register_builtin_schemas empty_registry"

section \<open>The contract of a schema store\<close>

locale schema_store =
  fixes register :: "op_schema \<Rightarrow> 'r \<Rightarrow> 'r"
    and lookup :: "'r \<Rightarrow> string \<Rightarrow> string \<Rightarrow> op_schema option"
    and stored :: "op_schema \<Rightarrow> op_schema"
    and accepts :: "op_schema \<Rightarrow> bool"
  assumes lookup_register: "accepts s \<Longrightarrow> lookup (register s r) n v =
      (if op_key n v = op_key (s_name (stored s)) (s_version (stored s)) then Some (stored s)
       else lookup r n v)"
    and register_refused: "\<not> accepts s \<Longrightarrow> register s r = r"
begin

lemma lookup_preserved:
  assumes "\<forall>s \<in> set ss. accepts s \<longrightarrow> op_key (s_name (stored s)) (s_version (stored s)) \<noteq> op_key n v"
  shows "lookup (fold register ss r) n v = lookup r n v"
  using assms
proof (induction ss arbitrary: r)
  case (Cons s ss)
  have "lookup (register s r) n v = lookup r n v"
    using Cons.prems by (cases "accepts s") (auto simp: lookup_register register_refused)
  with Cons show ?case by simp
qed simp

lemma lookup_registered:
  assumes "distinct (map (\<lambda>s. op_key (s_name (stored s)) (s_version (stored s))) ss)"
    and "s \<in> set ss" and "accepts s"
  shows "lookup (fold register ss r) (s_name (stored s)) (s_version (stored s)) = Some (stored s)"
proof -
  obtain as bs where ss: "ss = as @ s # bs" using assms(2) by (meson split_list)
  have "\<forall>b \<in> set bs. op_key (s_name (stored b)) (s_version (stored b)) \<noteq>
      op_key (s_name (stored s)) (s_version (stored s))"
    using assms(1) ss by (auto simp: image_iff)
  then show ?thesis
    using lookup_preserved [of bs "s_name (stored s)" "s_version (stored s)"
        "register s (fold register as r)"] assms(3)
    by (simp add: ss lookup_register)
qed

lemma register_idem:
  "accepts s \<Longrightarrow> lookup (register s (register s r)) n v = lookup (register s r) n v"
  by (simp add: lookup_register)

end

interpretation reg: schema_store register_or_skip find_schema default_version "\<lambda>s. s_name s \<noteq> []"
proof
  fix s :: op_schema and r :: "'b operator_registry" and n v
  have "s_name (default_version s) = s_name s" by (simp add: default_version_def)
  then show "s_name s \<noteq> [] \<Longrightarrow> find_schema (register_or_skip s r) n v =
      (if op_key n v = op_key (s_name (default_version s)) (s_version (default_version s))
       then Some (default_version s) else find_schema r n v)"
    by (simp add: register_or_skip_def register_schema_def find_schema_def Let_def)
  show "\<not> s_name s \<noteq> [] \<Longrightarrow> register_or_skip s r = r"
    by (simp add: register_or_skip_def register_schema_def)
qed

lemma builtin_names_distinct: "distinct (map s_name builtin_schemas)"
  by (simp add: builtin_schemas_def schema_def)

lemma builtin_version: "s \<in> set builtin_schemas \<Longrightarrow> s_version s = ''1'' \<and> s_name s \<noteq> []"
  by (auto simp: builtin_schemas_def schema_def)

lemma builtin_stored: "s \<in> set builtin_schemas \<Longrightarrow> default_version s = s"
  using builtin_version [of s] by (simp add: default_version_def)

lemma builtin_keys_distinct:
  "distinct (map (\<lambda>s. op_key (s_name (default_version s)) (s_version (default_version s)))
     builtin_schemas)"
proof -
  have "map (\<lambda>s. op_key (s_name (default_version s)) (s_version (default_version s)))
      builtin_schemas = map (\<lambda>n. op_key n ''1'') (map s_name builtin_schemas)"
    using builtin_version by (auto simp: builtin_stored)
  then show ?thesis
    using builtin_names_distinct by (simp add: distinct_map inj_on_def op_key_def)
qed

lemma builtin_lookup:
  assumes s: "s \<in> set builtin_schemas"
  shows "find_schema (register_builtin_schemas r) (s_name s) ''1'' = Some s"
  using reg.lookup_registered [OF builtin_keys_distinct s] builtin_version [OF s]
  by (simp add: register_builtin_schemas_def builtin_stored [OF s])

text \<open>Installing the built-in schemas on any registry makes every one
  of them findable under its name and version "1", and leaves every lookup under another key
  as it was.\<close>

theorem builtin_schemas_found:
  "(\<forall>s \<in> set builtin_schemas.
      find_schema (register_builtin_schemas r) (s_name s) ''1'' = Some s) \<and>
   (\<forall>n v. op_key n v \<notin> (\<lambda>s. op_key (s_name s) ''1'') ` set builtin_schemas \<longrightarrow>
      find_schema (register_builtin_schemas r) n v = find_schema r n v)"
proof (intro conjI ballI allI impI)
  fix s assume "s \<in> set builtin_schemas"
  then show "find_schema (register_builtin_schemas r) (s_name s) ''1'' = Some s"
    by (rule builtin_lookup)
next
  fix n v
  assume other: "op_key n v \<notin> (\<lambda>s. op_key (s_name s) ''1'') ` set builtin_schemas"
  have "\<forall>s \<in> set builtin_schemas.
      op_key (s_name (default_version s)) (s_version (default_version s)) \<noteq> op_key n v"
  proof
    fix s assume s: "s \<in> set builtin_schemas"
    then have "op_key (s_name s) ''1'' \<noteq> op_key n v" using other by (metis image_eqI)
    with s show "op_key (s_name (default_version s)) (s_version (default_version s)) \<noteq> op_key n v"
      by (simp add: builtin_stored builtin_version)
  qed
  then show "find_schema (register_builtin_schemas r) n v = find_schema r n v"
    unfolding register_builtin_schemas_def by (intro reg.lookup_preserved) simp
qed

theorem builtin_schemas_found_witness:
  "find_schema (default_registry :: unit operator_registry) ''Concat'' ''1'' =
     Some (schema ''Concat'' 1 (-1) 1 1 [''axis''] ''Concatenate'') \<and>
   find_schema (default_registry :: unit operator_registry) ''Concat'' ''2'' = None"
proof -
  have "schema ''Concat'' 1 (-1) 1 1 [''axis''] ''Concatenate'' \<in> set builtin_schemas"
    by (simp add: builtin_schemas_def)
  moreover have "s_name (schema ''Concat'' 1 (-1) 1 1 [''axis''] ''Concatenate'') = ''Concat''"
    by (simp add: schema_def)
  moreover have "op_key ''Concat'' ''2'' \<notin> (\<lambda>s. op_key (s_name s) ''1'') ` set builtin_schemas"
    by (simp add: builtin_schemas_def schema_def op_key_def)
  moreover have "find_schema (empty_registry :: unit operator_registry) ''Concat'' ''2'' = None"
    by (simp add: find_schema_def empty_registry_def)
  ultimately show ?thesis
    unfolding default_registry_def
    using builtin_schemas_found [of "empty_registry :: unit operator_registry"] by metis
qed

end
