(* ===== verification/Kahn.thy ===== *)
theory Kahn
  imports Prelude
begin

text \<open>
  The queue algorithm that \<open>ir/plan.cpp\<close> and \<open>ir/validator.cpp\<close> both run over the producer
  edges of a graph: start from the nodes of in-degree 0, take a node from the queue, decrement
  its successors and enqueue those that reach 0.

  \<open>dep_graph\<close> states what the callers guarantee (every edge joins keys of the in-degree map).
  Inside it: the loop ends, its order is duplicate-free and puts every predecessor first, and
  it reaches all keys exactly when the edges are acyclic.
\<close>

section \<open>The loop\<close>

record kahn_state =
  k_queue :: "u64 list"
  k_indegree :: "u64 \<Rightarrow> int"
  k_order :: "u64 list"

definition adj_list :: "(u64 \<times> u64) list \<Rightarrow> u64 \<Rightarrow> u64 list" where
  "adj_list edges u = map snd (filter (\<lambda>e. fst e = u) edges)"

definition indegree_of :: "(u64 \<times> u64) list \<Rightarrow> u64 \<Rightarrow> int" where
  "indegree_of edges v = int (length (filter (\<lambda>e. snd e = v) edges))"

fun relax :: "(u64 \<Rightarrow> int) \<Rightarrow> u64 list \<Rightarrow> u64 list \<Rightarrow> (u64 \<Rightarrow> int) \<times> u64 list" where
  "relax ind q [] = (ind, q)"
| "relax ind q (v # vs) =
     (let ind' = ind(v := ind v - 1)
      in relax ind' (if ind' v = 0 then q @ [v] else q) vs)"

definition kahn_step :: "(u64 \<times> u64) list \<Rightarrow> kahn_state \<Rightarrow> kahn_state" where
  "kahn_step edges s = (case k_queue s of
       [] \<Rightarrow> s
     | u # q \<Rightarrow> (let (ind, q') = relax (k_indegree s) q (adj_list edges u)
         in \<lparr>k_queue = q', k_indegree = ind, k_order = k_order s @ [u]\<rparr>))"

definition kahn_init :: "u64 list \<Rightarrow> (u64 \<times> u64) list \<Rightarrow> kahn_state" where
  "kahn_init keys edges =
     \<lparr>k_queue = filter (\<lambda>v. indegree_of edges v = 0) keys,
      k_indegree = indegree_of edges, k_order = []\<rparr>"

definition kahn_loop :: "u64 list \<Rightarrow> (u64 \<times> u64) list \<Rightarrow> kahn_state option" where
  "kahn_loop keys edges =
     while_option (\<lambda>s. k_queue s \<noteq> []) (kahn_step edges) (kahn_init keys edges)"

section \<open>One relaxation\<close>

lemma relax_spec:
  assumes "\<forall>v. int (count_list vs v) \<le> ind v"
  shows "fst (relax ind q vs) = (\<lambda>v. ind v - int (count_list vs v)) \<and>
    (\<exists>news. snd (relax ind q vs) = q @ news \<and> distinct news \<and>
       set news = {v \<in> set vs. ind v = int (count_list vs v)})"
  using assms
proof (induction ind q vs rule: relax.induct)
  case (1 ind q)
  then show ?case by simp
next
  case (2 ind q v vs)
  define ind' where "ind' = ind(v := ind v - 1)"
  have pre: "\<forall>x. int (count_list vs x) \<le> ind' x"
  proof
    fix x
    from "2.prems" have "int (count_list (v # vs) x) \<le> ind x" by blast
    then show "int (count_list vs x) \<le> ind' x" by (auto simp: ind'_def split: if_splits)
  qed
  from "2.IH" [OF ind'_def pre] obtain news where
    fst: "fst (relax ind' (if ind' v = 0 then q @ [v] else q) vs) = (\<lambda>x. ind' x - int (count_list vs x))"
    and snd: "snd (relax ind' (if ind' v = 0 then q @ [v] else q) vs) =
        (if ind' v = 0 then q @ [v] else q) @ news"
    and news: "distinct news" "set news = {x \<in> set vs. ind' x = int (count_list vs x)}"
    by blast
  have step: "relax ind q (v # vs) = relax ind' (if ind' v = 0 then q @ [v] else q) vs"
    by (simp add: ind'_def Let_def)
  have 1: "fst (relax ind q (v # vs)) = (\<lambda>x. ind x - int (count_list (v # vs) x))"
    unfolding step fst by (auto simp: ind'_def)
  have cnt: "x \<in> set vs \<longleftrightarrow> count_list vs x \<noteq> 0" for x
    by (simp add: count_list_0_iff)
  show ?case
  proof (cases "ind' v = 0")
    case True
    have v0: "v \<notin> set vs"
      using pre [rule_format, of v] True cnt [of v] by simp
    have "x \<in> set (v # news) \<longleftrightarrow> x \<in> {x \<in> set (v # vs). ind x = int (count_list (v # vs) x)}" for x
    proof (cases "x = v")
      case xv: True
      have "ind v = 1" using True by (simp add: ind'_def)
      moreover have "count_list vs v = 0" using v0 cnt by blast
      ultimately show ?thesis by (simp add: xv)
    next
      case False
      then show ?thesis using news(2) by (simp add: ind'_def)
    qed
    moreover have "distinct (v # news)" using news v0 by simp
    moreover have "snd (relax ind q (v # vs)) = q @ (v # news)"
      unfolding step snd using True by simp
    ultimately show ?thesis using 1 by blast
  next
    case False
    have "x \<in> set news \<longleftrightarrow> x \<in> {x \<in> set (v # vs). ind x = int (count_list (v # vs) x)}" for x
    proof (cases "x = v")
      case xv: True
      have "x \<in> set news \<longleftrightarrow> v \<in> set vs \<and> ind' v = int (count_list vs v)"
        using news(2) xv by simp
      also have "\<dots> \<longleftrightarrow> ind' v = int (count_list vs v)"
        using False cnt [of v] by auto
      finally show ?thesis using xv by (auto simp: ind'_def)
    next
      case False
      then show ?thesis using news(2) by (simp add: ind'_def)
    qed
    moreover have "snd (relax ind q (v # vs)) = q @ news"
      unfolding step snd using False by simp
    ultimately show ?thesis using 1 news(1) by blast
  qed
qed

lemma count_adj_list: "count_list (adj_list edges u) v = length (filter (\<lambda>e. e = (u, v)) edges)"
  by (induction edges) (auto simp: adj_list_def)

section \<open>What the order satisfies\<close>

definition topological :: "(u64 \<times> u64) list \<Rightarrow> u64 list \<Rightarrow> bool" where
  "topological edges xs \<longleftrightarrow>
     (\<forall>pre v post. xs = pre @ v # post \<longrightarrow> (\<forall>p. (p, v) \<in> set edges \<longrightarrow> p \<in> set pre))"

lemma topological_Nil [simp]: "topological edges []"
  by (simp add: topological_def)

lemma topological_snoc:
  "topological edges (xs @ [v]) \<longleftrightarrow>
     topological edges xs \<and> (\<forall>p. (p, v) \<in> set edges \<longrightarrow> p \<in> set xs)"
proof
  assume L: "topological edges (xs @ [v])"
  have "topological edges xs"
    unfolding topological_def
  proof (intro allI impI)
    fix pre w post p
    assume "xs = pre @ w # post" "(p, w) \<in> set edges"
    then have "xs @ [v] = pre @ w # (post @ [v])" by simp
    with L \<open>(p, w) \<in> set edges\<close> show "p \<in> set pre" unfolding topological_def by blast
  qed
  moreover have "\<forall>p. (p, v) \<in> set edges \<longrightarrow> p \<in> set xs"
    using L unfolding topological_def by blast
  ultimately show "topological edges xs \<and> (\<forall>p. (p, v) \<in> set edges \<longrightarrow> p \<in> set xs)" by blast
next
  assume R: "topological edges xs \<and> (\<forall>p. (p, v) \<in> set edges \<longrightarrow> p \<in> set xs)"
  show "topological edges (xs @ [v])"
    unfolding topological_def
  proof (intro allI impI)
    fix pre w post p
    assume eq: "xs @ [v] = pre @ w # post" and e: "(p, w) \<in> set edges"
    show "p \<in> set pre"
    proof (cases post rule: rev_cases)
      case Nil
      with eq e R show ?thesis by auto
    next
      case (snoc post' z)
      with eq have "xs = pre @ w # post'" by auto
      with R e show ?thesis unfolding topological_def by blast
    qed
  qed
qed

lemma takeWhile_neq: "p \<notin> set a \<Longrightarrow> takeWhile (\<lambda>x. x \<noteq> p) (a @ p # b) = a"
  by (induction a) auto

lemma topological_acyclic:
  assumes "topological edges xs" and "\<forall>(p, v) \<in> set edges. v \<in> set xs"
  shows "acyclic (set edges)"
proof -
  define rank where "rank v = length (takeWhile (\<lambda>x. x \<noteq> v) xs)" for v
  have "set edges \<subseteq> measure rank"
  proof
    fix e assume e: "e \<in> set edges"
    obtain p v where pv: "e = (p, v)" by (cases e)
    with e assms(2) have "v \<in> set xs" by auto
    then obtain pre post where xs: "xs = pre @ v # post" "v \<notin> set pre"
      by (meson split_list_first)
    with assms(1) e pv have p: "p \<in> set pre" unfolding topological_def by blast
    have "takeWhile (\<lambda>x. x \<noteq> v) xs = pre" unfolding xs(1) by (rule takeWhile_neq [OF xs(2)])
    then have "rank v = length pre" by (simp add: rank_def)
    moreover have "rank p < length pre"
    proof -
      have "takeWhile (\<lambda>x. x \<noteq> p) xs = takeWhile (\<lambda>x. x \<noteq> p) pre"
        using p xs(1) by (simp add: takeWhile_append1 [of p])
      moreover have "length (takeWhile (\<lambda>x. x \<noteq> p) pre) < length pre"
      proof -
        obtain a b where "pre = a @ p # b" "p \<notin> set a" using p by (meson split_list_first)
        then have "takeWhile (\<lambda>x. x \<noteq> p) pre = a" by (simp add: takeWhile_neq)
        with \<open>pre = a @ p # b\<close> show ?thesis by simp
      qed
      ultimately show ?thesis by (simp add: rank_def)
    qed
    ultimately show "e \<in> measure rank" by (simp add: pv)
  qed
  then show ?thesis by (meson wf_acyclic wf_measure wf_subset)
qed

section \<open>Correctness of the loop\<close>

locale dep_graph =
  fixes keys :: "u64 list" and edges :: "(u64 \<times> u64) list"
  assumes distinct_keys: "distinct keys"
    and endpoints: "(p, v) \<in> set edges \<Longrightarrow> p \<in> set keys \<and> v \<in> set keys"
begin

definition inv :: "kahn_state \<Rightarrow> bool" where
  "inv s \<longleftrightarrow> distinct (k_order s @ k_queue s) \<and> set (k_order s @ k_queue s) \<subseteq> set keys \<and>
     (\<forall>v. k_indegree s v =
        int (length (filter (\<lambda>e. snd e = v \<and> fst e \<notin> set (k_order s)) edges))) \<and>
     (\<forall>v \<in> set keys. k_indegree s v = 0 \<longleftrightarrow> v \<in> set (k_order s @ k_queue s)) \<and>
     topological edges (k_order s)"

lemma inv_init: "inv (kahn_init keys edges)"
  using distinct_keys by (auto simp: inv_def kahn_init_def indegree_of_def)

lemma filter_split:
  "u \<notin> set order \<Longrightarrow> length (filter (\<lambda>e. snd e = v \<and> fst e \<notin> set order) es) =
     length (filter (\<lambda>e. snd e = v \<and> fst e \<notin> set (order @ [u])) es) +
     length (filter (\<lambda>e. e = (u, v)) es)"
  by (induction es) auto

lemma inv_step:
  assumes "inv s" and "k_queue s \<noteq> []"
  shows "inv (kahn_step edges s)" and "k_order (kahn_step edges s) = k_order s @ [hd (k_queue s)]"
proof -
  obtain u q where uq: "k_queue s = u # q" using assms(2) by (cases "k_queue s") auto
  have u: "u \<notin> set (k_order s)" "u \<in> set keys" "k_indegree s u = 0" "u \<notin> set q"
    using assms(1) uq by (auto simp: inv_def)
  let ?vs = "adj_list edges u"
  let ?ord = "k_order s @ [u]"
  have deg: "k_indegree s v = int (length (filter (\<lambda>e. snd e = v \<and> fst e \<notin> set ?ord) edges)) +
      int (count_list ?vs v)" for v
    using assms(1) filter_split [OF u(1), of v edges]
    by (simp add: inv_def count_adj_list)
  have "\<forall>v. int (count_list ?vs v) \<le> k_indegree s v"
    using deg by simp
  from relax_spec [OF this, of q] obtain news where
    rf: "fst (relax (k_indegree s) q ?vs) = (\<lambda>v. k_indegree s v - int (count_list ?vs v))"
    and rs: "snd (relax (k_indegree s) q ?vs) = q @ news" and dn: "distinct news"
    and sn: "set news = {v \<in> set ?vs. k_indegree s v = int (count_list ?vs v)}"
    by blast
  let ?ind = "\<lambda>v. k_indegree s v - int (count_list ?vs v)"
  have step: "kahn_step edges s = \<lparr>k_queue = q @ news, k_indegree = ?ind, k_order = ?ord\<rparr>"
    using rf rs by (simp add: kahn_step_def uq case_prod_beta)
  show "k_order (kahn_step edges s) = k_order s @ [hd (k_queue s)]"
    by (simp add: step uq)
  have vs_keys: "set ?vs \<subseteq> set keys"
    using endpoints by (auto simp: adj_list_def)
  have pos: "v \<in> set ?vs \<Longrightarrow> k_indegree s v \<noteq> 0" for v
    using deg [of v] count_list_0_iff [of ?vs v] by linarith
  have old: "v \<in> set (k_order s @ k_queue s) \<Longrightarrow> k_indegree s v = 0" for v
    using assms(1) by (auto simp: inv_def)
  have disj: "set news \<inter> set (k_order s @ u # q) = {}"
    using sn pos old uq by auto
  have zero: "(?ind v = 0) = (v \<in> set (?ord @ q @ news))" if v: "v \<in> set keys" for v
  proof (cases "v \<in> set (k_order s @ k_queue s)")
    case True
    with old have z: "k_indegree s v = 0" by blast
    with pos have "v \<notin> set ?vs" by blast
    with z True uq show ?thesis by (simp add: count_list_0_iff) auto
  next
    case False
    then have nz: "k_indegree s v \<noteq> 0" using assms(1) v by (auto simp: inv_def)
    show ?thesis
    proof
      assume "?ind v = 0"
      with nz have "count_list ?vs v \<noteq> 0" by auto
      then have "v \<in> set ?vs" by (simp add: count_list_0_iff)
      with \<open>?ind v = 0\<close> sn show "v \<in> set (?ord @ q @ news)" by simp
    next
      assume "v \<in> set (?ord @ q @ news)"
      with False uq sn show "?ind v = 0" by auto
    qed
  qed
  have topo: "topological edges ?ord"
  proof -
    have "p \<in> set (k_order s)" if e: "(p, u) \<in> set edges" for p
    proof (rule ccontr)
      assume "p \<notin> set (k_order s)"
      with e have "filter (\<lambda>e. snd e = u \<and> fst e \<notin> set (k_order s)) edges \<noteq> []"
        by (auto simp: filter_empty_conv intro!: bexI [of _ "(p, u)"])
      then show False using assms(1) u(3) by (auto simp: inv_def)
    qed
    then show ?thesis using assms(1) by (auto simp: topological_snoc inv_def)
  qed
  have "distinct (?ord @ q @ news)" "set (?ord @ q @ news) \<subseteq> set keys"
    using assms(1) uq dn disj sn vs_keys by (auto simp: inv_def)
  then show "inv (kahn_step edges s)"
    using zero topo deg unfolding step inv_def by simp
qed

lemma loop_terminates: "\<exists>s. kahn_loop keys edges = Some s"
  unfolding kahn_loop_def
proof (rule measure_while_option_Some [where P = inv and f = "\<lambda>s. length keys - length (k_order s)"])
  fix s assume s: "inv s" "k_queue s \<noteq> []"
  have i: "inv (kahn_step edges s)" by (rule inv_step(1) [OF s])
  then have "length (k_order (kahn_step edges s)) \<le> length keys"
    using distinct_keys
    by (metis inv_def card_mono distinct_append distinct_card finite_set le_sup_iff set_append)
  then show "inv (kahn_step edges s) \<and>
      length keys - length (k_order (kahn_step edges s)) < length keys - length (k_order s)"
    using i inv_step(2) [OF s] by simp
qed (rule inv_init)

lemma loop_result:
  assumes "kahn_loop keys edges = Some s"
  shows "inv s" and "k_queue s = []"
proof -
  show "inv s"
    using while_option_rule [where P = inv, OF _ assms [unfolded kahn_loop_def] inv_init] inv_step(1)
    by blast
  show "k_queue s = []"
    using while_option_stop [OF assms [unfolded kahn_loop_def]] by simp
qed

lemma loop_order:
  assumes "kahn_loop keys edges = Some s"
  shows "distinct (k_order s)" and "set (k_order s) \<subseteq> set keys" and "topological edges (k_order s)"
  using loop_result [OF assms] by (auto simp: inv_def)

lemma loop_complete:
  assumes "kahn_loop keys edges = Some s"
  shows "set (k_order s) = set keys \<longleftrightarrow> acyclic (set edges)"
proof
  assume all: "set (k_order s) = set keys"
  show "acyclic (set edges)"
    by (rule topological_acyclic [OF loop_order(3) [OF assms]]) (use endpoints all in auto)
next
  assume ac: "acyclic (set edges)"
  note fin = loop_result [OF assms]
  show "set (k_order s) = set keys"
  proof (rule ccontr)
    assume "set (k_order s) \<noteq> set keys"
    then obtain x where x: "x \<in> set keys - set (k_order s)"
      using fin(1) by (auto simp: inv_def)
    have "wf (set edges)" using ac by (simp add: finite_acyclic_wf)
    with x obtain v where v: "v \<in> set keys - set (k_order s)"
      and min: "\<And>p. (p, v) \<in> set edges \<Longrightarrow> p \<notin> set keys - set (k_order s)"
      by (meson wfE_min)
    from v fin have "k_indegree s v \<noteq> 0" by (auto simp: inv_def)
    then have "filter (\<lambda>e. snd e = v \<and> fst e \<notin> set (k_order s)) edges \<noteq> []"
      using fin(1) by (auto simp: inv_def)
    then obtain p where "(p, v) \<in> set edges" "p \<notin> set (k_order s)"
      by (auto simp: filter_empty_conv)
    with min endpoints show False by blast
  qed
qed

lemma loop_length:
  assumes "kahn_loop keys edges = Some s"
  shows "length (k_order s) = length keys \<longleftrightarrow> acyclic (set edges)"
    and "length (k_order s) \<le> length keys"
proof -
  note d = loop_order [OF assms]
  have len: "length (k_order s) = card (set (k_order s))" "length keys = card (set keys)"
    using d(1) distinct_keys by (simp_all add: distinct_card)
  show "length (k_order s) \<le> length keys"
    unfolding len using d(2) by (simp add: card_mono)
  show "length (k_order s) = length keys \<longleftrightarrow> acyclic (set edges)"
    unfolding len loop_complete [OF assms, symmetric]
    using d(2) by (metis card_subset_eq finite_set)
qed

end

end
