(* ===== verification/Exec_Plan.thy ===== *)
theory Exec_Plan
  imports Ir_Graph Kahn
begin

text \<open>
  \<open>build_execution_plan\<close> and \<open>plan_to_text\<close> (\<open>ir/plan.hpp\<close>, \<open>ir/plan.cpp\<close>): a graph becomes a
  list of planned operations in an order that respects the data dependencies.

  The iteration orders of the source's unordered containers are the parameters \<open>hm\<close> (the
  in-degree map) and \<open>hs\<close> (the dependency sets).  The result is an option, \<open>None\<close> standing for
  a queue loop that does not end; \<open>build_execution_plan_returns\<close> excludes it.  What a failed
  call leaves in \<open>*out\<close> is not modelled: no caller reads it.
\<close>

section \<open>Plans\<close>

record planned_op =
  po_node_id :: u64
  po_node_name :: string
  po_op_name :: string
  po_op_version :: string
  po_dependencies :: "u64 list"
  po_preferred_device :: device_type
  po_selected_kernel :: string
  po_inputs :: "u64 list"
  po_outputs :: "u64 list"

record memory_plan_hint =
  mh_tensor_id :: u64
  mh_name :: string
  mh_estimated_bytes :: u64
  mh_is_graph_input :: bool
  mh_is_graph_output :: bool
  mh_is_weight :: bool

record execution_plan =
  ep_ir_version :: ir_version
  ep_graph_name :: string
  ep_ops :: "planned_op list"
  ep_memory_hints :: "memory_plan_hint list"
  ep_graph_inputs :: "u64 list"
  ep_graph_outputs :: "u64 list"

section \<open>Construction\<close>

definition memory_hint :: "graph \<Rightarrow> tensor \<Rightarrow> memory_plan_hint" where
  "memory_hint g t = \<lparr>mh_tensor_id = t_id t, mh_name = t_name t,
     mh_estimated_bytes = estimate_tensor_bytes t,
     mh_is_graph_input = (t_id t \<in> set (g_inputs g)),
     mh_is_graph_output = (t_id t \<in> set (g_outputs g)),
     mh_is_weight = t_is_weight t\<rparr>"

definition plan_skeleton :: "graph \<Rightarrow> execution_plan" where
  "plan_skeleton g = \<lparr>ep_ir_version = g_version g, ep_graph_name = g_name g, ep_ops = [],
     ep_memory_hints = map (memory_hint g) (g_tensors g),
     ep_graph_inputs = g_inputs g, ep_graph_outputs = g_outputs g\<rparr>"

definition producer_of :: "node list \<Rightarrow> u64 \<rightharpoonup> u64" where
  "producer_of ns = fold (\<lambda>n m. fold (\<lambda>tid m. m(tid \<mapsto> n_id n)) (n_outputs n) m) ns Map.empty"

definition node_table :: "node list \<Rightarrow> u64 \<rightharpoonup> node" where
  "node_table ns = fold (\<lambda>n m. m(n_id n \<mapsto> n)) ns Map.empty"

definition dep_inserts :: "(u64 \<rightharpoonup> u64) \<Rightarrow> node \<Rightarrow> u64 list" where
  "dep_inserts prd n = concat (map (\<lambda>tin. case prd tin of
       None \<Rightarrow> [] | Some p \<Rightarrow> if p = n_id n then [] else [p]) (n_inputs n))"

definition plan_edges :: "(u64 list \<Rightarrow> u64 \<Rightarrow> nat) \<Rightarrow> node list \<Rightarrow> (u64 \<times> u64) list" where
  "plan_edges hs ns = concat (map (\<lambda>n. map (\<lambda>pred. (pred, n_id n))
       (hash_iter hs (dep_inserts (producer_of ns) n))) ns)"

definition deps_of :: "(u64 \<times> u64) list \<Rightarrow> u64 \<Rightarrow> u64 list" where
  "deps_of edges i = map fst (filter (\<lambda>e. snd e = i) edges)"

definition planned :: "(u64 \<times> u64) list \<Rightarrow> u64 \<Rightarrow> node \<Rightarrow> planned_op" where
  "planned edges i n = \<lparr>po_node_id = n_id n, po_node_name = n_name n, po_op_name = n_op_name n,
     po_op_version = n_op_version n, po_dependencies = deps_of edges i,
     po_preferred_device = DevCpu, po_selected_kernel = [], po_inputs = n_inputs n,
     po_outputs = n_outputs n\<rparr>"

text \<open>\<open>nodes[id]\<close> is never null: the order holds keys of the same table (\<open>order_in_table\<close>).\<close>

definition planned_ops :: "node list \<Rightarrow> (u64 \<times> u64) list \<Rightarrow> u64 list \<Rightarrow> planned_op list" where
  "planned_ops ns edges order = concat (map (\<lambda>i. case node_table ns i of
       None \<Rightarrow> [] | Some n \<Rightarrow> [planned edges i n]) order)"

definition cycle_error :: error where
  "cycle_error = Error InvalidArgument ''cannot build execution plan: graph has a cycle''"

definition build_execution_plan ::
    "(u64 list \<Rightarrow> u64 \<Rightarrow> nat) \<Rightarrow> (u64 list \<Rightarrow> u64 \<Rightarrow> nat) \<Rightarrow> graph
      \<Rightarrow> (error + execution_plan) option" where
  "build_execution_plan hm hs g =
     (if g_nodes g = [] then Some (Inr (plan_skeleton g))
      else let edges = plan_edges hs (g_nodes g) in
        (case kahn_loop (hash_iter hm (map n_id (g_nodes g))) edges of
           None \<Rightarrow> None
         | Some s \<Rightarrow> Some (if length (k_order s) \<noteq> length (g_nodes g) then Inl cycle_error
             else Inr ((plan_skeleton g)\<lparr>ep_ops := planned_ops (g_nodes g) edges (k_order s)\<rparr>))))"

section \<open>Text\<close>

fun comma_ids :: "u64 list \<Rightarrow> string" where
  "comma_ids [] = []"
| "comma_ids [d] = u64_dec d"
| "comma_ids (d # ds) = u64_dec d @ '','' @ comma_ids ds"

definition op_to_text :: "nat \<Rightarrow> planned_op \<Rightarrow> string" where
  "op_to_text i op = ''  ['' @ nat_dec i @ ''] node='' @ u64_dec (po_node_id op) @ '' '' @
     po_op_name op @ ''@'' @ po_op_version op @
     (if po_node_name op \<noteq> [] then '' name='' @ po_node_name op else []) @
     (if po_dependencies op \<noteq> [] then '' deps=['' @ comma_ids (po_dependencies op) @ '']'' else []) @
     [CHR 0x0A]"

definition plan_to_text :: "execution_plan \<Rightarrow> string" where
  "plan_to_text p = ''ExecutionPlan graph='' @ [CHR 0x27] @ ep_graph_name p @ [CHR 0x27] @ '' ir='' @
     version_to_string (ep_ir_version p) @ '' ops='' @ nat_dec (length (ep_ops p)) @ [CHR 0x0A] @
     concat (map (\<lambda>(i, op). op_to_text i op) (enumerate 0 (ep_ops p)))"

section \<open>Producers and dependencies\<close>

lemma fold_upd_outputs:
  "fold (\<lambda>tid m. m(tid \<mapsto> i)) ts m t = (if t \<in> set ts then Some i else m t)"
  by (induction ts arbitrary: m) auto

lemma producer_of_Nil [simp]: "producer_of [] = Map.empty"
  by (simp add: producer_of_def)

lemma producer_of_snoc:
  "producer_of (ns @ [n]) t = (if t \<in> set (n_outputs n) then Some (n_id n) else producer_of ns t)"
  by (simp add: producer_of_def fold_upd_outputs)

lemma producer_of_SomeD:
  "producer_of ns t = Some p \<Longrightarrow> \<exists>n \<in> set ns. n_id n = p \<and> t \<in> set (n_outputs n)"
  by (induction ns rule: rev_induct) (auto simp: producer_of_snoc split: if_splits)

lemma producer_of_None_iff: "producer_of ns t = None \<longleftrightarrow> (\<forall>n \<in> set ns. t \<notin> set (n_outputs n))"
  by (induction ns rule: rev_induct) (auto simp: producer_of_snoc)

lemma producer_of_unique:
  assumes "\<forall>n \<in> set ns. \<forall>m \<in> set ns. t \<in> set (n_outputs n) \<and> t \<in> set (n_outputs m) \<longrightarrow> n_id n = n_id m"
    and "n \<in> set ns" and "t \<in> set (n_outputs n)"
  shows "producer_of ns t = Some (n_id n)"
  using assms(2,3)
  by (metis assms(1) not_Some_eq producer_of_None_iff producer_of_SomeD)

lemma node_table_snoc [simp]: "node_table (ns @ [n]) = (node_table ns)(n_id n \<mapsto> n)"
  by (simp add: node_table_def)

lemma node_table_Some_iff: "(\<exists>n. node_table ns i = Some n) \<longleftrightarrow> i \<in> n_id ` set ns"
  by (induction ns rule: rev_induct) (auto simp: node_table_def [of "[]"])

lemma node_table_SomeD: "node_table ns i = Some n \<Longrightarrow> n \<in> set ns \<and> n_id n = i"
  by (induction ns rule: rev_induct) (auto simp: node_table_def [of "[]"] split: if_splits)

lemma node_table_distinct:
  "distinct (map n_id ns) \<Longrightarrow> n \<in> set ns \<Longrightarrow> node_table ns (n_id n) = Some n"
  by (metis distinct_map image_eqI inj_onD node_table_SomeD node_table_Some_iff)

text \<open>The dependency relation of a graph: \<open>p\<close> produces a tensor that \<open>n\<close> consumes.\<close>

definition depends :: "node list \<Rightarrow> (u64 \<times> u64) set" where
  "depends ns = {(p, v). \<exists>n \<in> set ns. v = n_id n \<and> p \<noteq> v \<and>
     (\<exists>t \<in> set (n_inputs n). producer_of ns t = Some p)}"

lemma set_dep_inserts:
  "set (dep_inserts prd n) = {p. p \<noteq> n_id n \<and> (\<exists>t \<in> set (n_inputs n). prd t = Some p)}"
  by (auto simp: dep_inserts_def split: option.splits if_splits) force+

lemma set_plan_edges: "set (plan_edges hs ns) = depends ns"
  by (auto simp: plan_edges_def depends_def set_dep_inserts)

lemma set_deps_of: "set (deps_of (plan_edges hs ns) i) = {p. (p, i) \<in> depends ns}"
proof -
  have "p \<in> set (deps_of es i) \<longleftrightarrow> (p, i) \<in> set es" for p es
    by (induction es) (auto simp: deps_of_def)
  then show ?thesis by (auto simp: set_plan_edges)
qed

section \<open>The contract of the queue loop, on the plan's graph\<close>

interpretation pg: dep_graph "hash_iter hm (map n_id ns)" "plan_edges hs ns" for hm hs ns
proof
  show "distinct (hash_iter hm (map n_id ns))" by simp
  show "p \<in> set (hash_iter hm (map n_id ns)) \<and> v \<in> set (hash_iter hm (map n_id ns))"
    if "(p, v) \<in> set (plan_edges hs ns)" for p v
    using that by (auto simp: set_plan_edges depends_def dest!: producer_of_SomeD)
qed

lemma build_execution_plan_returns: "\<exists>r. build_execution_plan hm hs g = Some r"
  using pg.loop_terminates [of hm "g_nodes g" hs]
  by (auto simp: build_execution_plan_def Let_def)

lemma order_in_table:
  assumes "kahn_loop (hash_iter hm (map n_id ns)) (plan_edges hs ns) = Some s" and "i \<in> set (k_order s)"
  shows "\<exists>n. node_table ns i = Some n"
  using pg.loop_order(2) [OF assms(1)] assms(2) by (auto simp: node_table_Some_iff)

lemma order_length_iff:
  assumes "kahn_loop (hash_iter hm (map n_id ns)) (plan_edges hs ns) = Some s"
  shows "length (k_order s) = length ns \<longleftrightarrow> distinct (map n_id ns) \<and> acyclic (depends ns)"
proof -
  let ?keys = "hash_iter hm (map n_id ns)"
  have le: "length (k_order s) \<le> length ?keys" "length ?keys \<le> length ns"
    using pg.loop_length(2) [OF assms] length_hash_iter_le [of hm "map n_id ns"] by simp_all
  have eq: "length ?keys = length ns \<longleftrightarrow> distinct (map n_id ns)"
    by (simp add: hash_iter_def length_remdups_eq [of "map n_id ns", simplified])
  show ?thesis
    using le eq pg.loop_length(1) [OF assms] by (auto simp: set_plan_edges)
qed

text \<open>C2. Planning always returns. On a graph with nodes it succeeds exactly when the
  node ids are pairwise distinct and the dependency relation is acyclic, whatever the iteration
  order of the hash containers; otherwise it returns the cycle error.\<close>

theorem plan_succeeds_iff:
  assumes "g_nodes g \<noteq> []"
  shows "(build_execution_plan hm hs g = Some (Inl cycle_error) \<or>
      (\<exists>p. build_execution_plan hm hs g = Some (Inr p))) \<and>
    ((\<exists>p. build_execution_plan hm hs g = Some (Inr p)) \<longleftrightarrow>
      distinct (map n_id (g_nodes g)) \<and> acyclic (depends (g_nodes g)))"
proof -
  obtain s where s: "kahn_loop (hash_iter hm (map n_id (g_nodes g))) (plan_edges hs (g_nodes g)) = Some s"
    using pg.loop_terminates by blast
  show ?thesis
    using assms by (simp add: build_execution_plan_def s Let_def order_length_iff [OF s])
qed

text \<open>What the ops of a successful plan are: the nodes, in the order of the queue.\<close>

lemma planned_ops_order:
  assumes "\<forall>i \<in> set order. \<exists>n. node_table ns i = Some n"
  shows "map po_node_id (planned_ops ns edges order) = order"
    and "length (planned_ops ns edges order) = length order"
    and "k < length order \<Longrightarrow> \<exists>n. node_table ns (order ! k) = Some n \<and>
       planned_ops ns edges order ! k = planned edges (order ! k) n"
proof -
  have eq: "planned_ops ns edges order = map (\<lambda>i. planned edges i (the (node_table ns i))) order"
    using assms by (induction order) (auto simp: planned_ops_def)
  show "map po_node_id (planned_ops ns edges order) = order"
    unfolding eq using assms
    by (induction order) (auto simp: planned_def dest: node_table_SomeD)
  show "length (planned_ops ns edges order) = length order" by (simp add: eq)
  show "k < length order \<Longrightarrow> \<exists>n. node_table ns (order ! k) = Some n \<and>
       planned_ops ns edges order ! k = planned edges (order ! k) n"
    using assms by (auto simp: eq) (metis nth_mem option.sel)
qed

lemma plan_success_cases:
  assumes "build_execution_plan hm hs g = Some (Inr p)" and "g_nodes g \<noteq> []"
  obtains s where
    "kahn_loop (hash_iter hm (map n_id (g_nodes g))) (plan_edges hs (g_nodes g)) = Some s"
    "length (k_order s) = length (g_nodes g)"
    "ep_ops p = planned_ops (g_nodes g) (plan_edges hs (g_nodes g)) (k_order s)"
    "map po_node_id (ep_ops p) = k_order s"
    "distinct (map n_id (g_nodes g))" "acyclic (depends (g_nodes g))"
proof -
  obtain s where s: "kahn_loop (hash_iter hm (map n_id (g_nodes g))) (plan_edges hs (g_nodes g)) = Some s"
    using pg.loop_terminates by blast
  with assms have "length (k_order s) = length (g_nodes g)"
    "ep_ops p = planned_ops (g_nodes g) (plan_edges hs (g_nodes g)) (k_order s)"
    by (auto simp: build_execution_plan_def Let_def split: if_splits)
  with that s show ?thesis
    using planned_ops_order(1) [of "k_order s" "g_nodes g"] order_in_table [OF s] order_length_iff [OF s]
    by metis
qed

lemma k_order_ids:
  assumes "kahn_loop (hash_iter hm (map n_id ns)) (plan_edges hs ns) = Some s"
    and "distinct (map n_id ns)" and "acyclic (depends ns)"
  shows "mset (k_order s) = mset (map n_id ns)"
  using pg.loop_complete [OF assms(1)] pg.loop_order(1) [OF assms(1)] assms(2,3)
  by (metis set_plan_edges set_eq_iff_mset_eq_distinct set_hash_iter)

lemma built_plan_topological:
  assumes "build_execution_plan hm hs g = Some (Inr p)"
  shows "mset (map po_node_id (ep_ops p)) = mset (map n_id (g_nodes g)) \<and>
    (\<forall>k < length (ep_ops p). \<exists>n \<in> set (g_nodes g).
       po_node_id (ep_ops p ! k) = n_id n \<and> po_op_name (ep_ops p ! k) = n_op_name n \<and>
       po_inputs (ep_ops p ! k) = n_inputs n \<and> po_outputs (ep_ops p ! k) = n_outputs n \<and>
       set (po_dependencies (ep_ops p ! k)) = {q. (q, n_id n) \<in> depends (g_nodes g)} \<and>
       (\<forall>d \<in> set (po_dependencies (ep_ops p ! k)). \<exists>j < k. po_node_id (ep_ops p ! j) = d))"
proof (cases "g_nodes g = []")
  case True
  with assms show ?thesis by (auto simp: build_execution_plan_def plan_skeleton_def)
next
  case False
  let ?ns = "g_nodes g" let ?E = "plan_edges hs (g_nodes g)"
  obtain s where s: "kahn_loop (hash_iter hm (map n_id ?ns)) ?E = Some s"
    and ops: "ep_ops p = planned_ops ?ns ?E (k_order s)" and ids: "map po_node_id (ep_ops p) = k_order s"
    and d: "distinct (map n_id ?ns)" and ac: "acyclic (depends ?ns)"
    using plan_success_cases [OF assms False] by metis
  note tab = order_in_table [OF s]
  have len: "length (ep_ops p) = length (k_order s)" using ids by (metis length_map)
  have "\<exists>n \<in> set ?ns. po_node_id (ep_ops p ! k) = n_id n \<and> po_op_name (ep_ops p ! k) = n_op_name n \<and>
       po_inputs (ep_ops p ! k) = n_inputs n \<and> po_outputs (ep_ops p ! k) = n_outputs n \<and>
       set (po_dependencies (ep_ops p ! k)) = {q. (q, n_id n) \<in> depends ?ns} \<and>
       (\<forall>d \<in> set (po_dependencies (ep_ops p ! k)). \<exists>j < k. po_node_id (ep_ops p ! j) = d)"
    if k: "k < length (ep_ops p)" for k
  proof -
    obtain n where n: "node_table ?ns (k_order s ! k) = Some n"
      and op: "ep_ops p ! k = planned ?E (k_order s ! k) n"
      using planned_ops_order(3) [of "k_order s" ?ns k ?E] tab k len ops by auto
    from node_table_SomeD [OF n] have nn: "n \<in> set ?ns" "n_id n = k_order s ! k" by auto
    have deps: "set (po_dependencies (ep_ops p ! k)) = {q. (q, n_id n) \<in> depends ?ns}"
      by (simp add: op planned_def set_deps_of nn(2))
    have "\<exists>j < k. po_node_id (ep_ops p ! j) = q" if q: "(q, n_id n) \<in> depends ?ns" for q
    proof -
      have "k_order s = take k (k_order s) @ n_id n # drop (Suc k) (k_order s)"
        using k len nn(2) by (metis id_take_nth_drop)
      then have "q \<in> set (take k (k_order s))"
        using pg.loop_order(3) [OF s] q unfolding topological_def set_plan_edges by blast
      then obtain j where j: "j < k" "k_order s ! j = q" "j < length (k_order s)"
        using k len by (auto simp: in_set_conv_nth)
      have "po_node_id (ep_ops p ! j) = map po_node_id (ep_ops p) ! j"
        using j len by (simp only: nth_map)
      with j ids show ?thesis by auto
    qed
    with nn(1) op deps show ?thesis by (intro bexI [of _ n]) (auto simp: planned_def)
  qed
  then show ?thesis using k_order_ids [OF s d ac] ids by auto
qed


text \<open>A three-node chain, listed out of order: the plan of it is computed.\<close>

definition chain_graph :: graph where
  "chain_graph = graph_default\<lparr>g_name := ''chain'', g_nodes :=
     [\<lparr>n_id = 3, n_name = ''c'', n_op_name = ''Relu'', n_op_version = ''1'', n_inputs = [12],
       n_outputs = [13], n_attributes = []\<rparr>,
      \<lparr>n_id = 1, n_name = ''a'', n_op_name = ''Relu'', n_op_version = ''1'', n_inputs = [10],
       n_outputs = [11], n_attributes = []\<rparr>,
      \<lparr>n_id = 2, n_name = ''b'', n_op_name = ''Add'', n_op_version = ''1'', n_inputs = [11, 11],
       n_outputs = [12], n_attributes = []\<rparr>]\<rparr>"

definition demo_plan :: "(error + execution_plan) option" where
  "demo_plan = build_execution_plan (\<lambda>_ _. 0) (\<lambda>_ _. 0) chain_graph"

lemma depends_chain: "depends (g_nodes chain_graph) = {(1, 2), (2, 3)}"
  by (auto simp: depends_def producer_of_def chain_graph_def graph_default_def)

lemma acyclic_chain: "acyclic (depends (g_nodes chain_graph))"
proof -
  have "depends (g_nodes chain_graph) \<subseteq> measure unat"
    unfolding depends_chain by auto
  then show ?thesis by (meson wf_acyclic wf_measure wf_subset)
qed

theorem plan_succeeds_iff_witness:
  "(\<exists>p. build_execution_plan (\<lambda>_ _. 0) (\<lambda>_ _. 0) chain_graph = Some (Inr p)) \<and>
   g_nodes chain_graph \<noteq> []"
proof -
  have ne: "g_nodes chain_graph \<noteq> []" by (simp add: chain_graph_def)
  moreover have "distinct (map n_id (g_nodes chain_graph))"
    by (simp add: chain_graph_def graph_default_def)
  ultimately show ?thesis using plan_succeeds_iff [OF ne] acyclic_chain by blast
qed

lemma demo_plan_ok: "\<exists>p. demo_plan = Some (Inr p)"
proof -
  have "kahn_loop (hash_iter (\<lambda>_ _. 0) (map n_id (g_nodes chain_graph)))
      (plan_edges (\<lambda>_ _. 0) (g_nodes chain_graph)) \<noteq> None"
    using pg.loop_terminates by (metis option.distinct(1))
  moreover have "distinct (map n_id (g_nodes chain_graph))"
    by (simp add: chain_graph_def graph_default_def)
  ultimately show ?thesis
    using order_length_iff acyclic_chain
    by (auto simp: demo_plan_def build_execution_plan_def Let_def)
qed


end
