(* ===== verification/Validator.thy ===== *)
theory Validator
  imports Op_Registry Exec_Plan
begin

text \<open>
  \<open>validate_graph\<close> (\<open>ir/validator.hpp\<close>, \<open>ir/validator.cpp\<close>): the checks a loaded graph must
  pass before it is planned.  The function is one body of consecutive passes over the graph
  that share the sets \<open>tensor_ids\<close>, \<open>tensor_producer\<close> and the growing list of issues; here each
  pass is one definition and \<open>validate_graph\<close> composes them in order.  \<open>valid_graph\<close> is the
  declarative reading of the passes, and \<open>validate_graph_iff\<close> shows that the two agree.
\<close>

section \<open>Issues and options\<close>

datatype severity = SevError | SevWarning

record validation_issue =
  i_severity :: severity
  i_code :: string
  i_message :: string
  i_node_id :: u64
  i_tensor_id :: u64

record validation_options =
  o_allow_unknown_ops :: bool
  o_require_shapes :: bool
  o_require_dtypes :: bool
  o_check_cycles :: bool

definition default_options :: validation_options where
  "default_options = \<lparr>o_allow_unknown_ops = False, o_require_shapes = True,
     o_require_dtypes = True, o_check_cycles = True\<rparr>"

definition result_ok :: "validation_issue list \<Rightarrow> bool" where
  "result_ok is \<longleftrightarrow> (\<forall>i \<in> set is. i_severity i \<noteq> SevError)"

definition error_count :: "validation_issue list \<Rightarrow> nat" where
  "error_count is = length (filter (\<lambda>i. i_severity i = SevError) is)"

text \<open>\<open>add_issue\<close> appends one issue; a pass returns the list it appends.\<close>

definition issue :: "severity \<Rightarrow> string \<Rightarrow> string \<Rightarrow> u64 \<Rightarrow> u64 \<Rightarrow> validation_issue list" where
  "issue sev code msg nid tid = [\<lparr>i_severity = sev, i_code = code, i_message = msg,
     i_node_id = nid, i_tensor_id = tid\<rparr>]"

definition error_if :: "bool \<Rightarrow> string \<Rightarrow> string \<Rightarrow> u64 \<Rightarrow> u64 \<Rightarrow> validation_issue list" where
  "error_if c code msg nid tid = (if c then issue SevError code msg nid tid else [])"

definition arity_ok :: "int \<Rightarrow> int \<Rightarrow> int \<Rightarrow> bool" where
  "arity_ok n min_v max_v =
     (if min_v \<ge> 0 \<and> n < min_v then False
      else if max_v \<ge> 0 \<and> n > max_v then False else True)"

text \<open>\<open>static_cast<int>(v.size())\<close>.\<close>

definition size_int :: "'a list \<Rightarrow> int" where
  "size_int xs = sint (word_of_nat (length xs) :: 32 word)"

definition quote :: "string \<Rightarrow> string" where
  "quote s = [CHR 0x27] @ s @ [CHR 0x27]"

section \<open>The passes\<close>

definition header_issues :: "graph \<Rightarrow> validation_issue list" where
  "header_issues g = (case check_compatible (g_version g) of
       Inl e \<Rightarrow> issue SevError ''ir.version'' (err_message e) 0 0 | Inr _ \<Rightarrow> []) @
     (if g_name g = [] then issue SevWarning ''graph.name'' ''graph name is empty'' 0 0 else [])"

record tensor_pass_state =
  tp_issues :: "validation_issue list"
  tp_ids :: "u64 set"
  tp_names :: "string set"

definition check_tensor ::
    "validation_options \<Rightarrow> tensor \<Rightarrow> tensor_pass_state \<Rightarrow> tensor_pass_state" where
  "check_tensor opts t s =
     (if t_id t = 0
      then s\<lparr>tp_issues := tp_issues s @
             issue SevError ''tensor.id'' ''tensor id must be non-zero'' 0 (t_id t)\<rparr>
      else \<lparr>tp_issues = tp_issues s @
              error_if (t_id t \<in> tp_ids s) ''tensor.duplicate_id''
                (''duplicate tensor id '' @ u64_dec (t_id t)) 0 (t_id t) @
              error_if (t_name t \<noteq> [] \<and> t_name t \<in> tp_names s) ''tensor.duplicate_name''
                (''duplicate tensor name '' @ quote (t_name t)) 0 (t_id t) @
              error_if (o_require_dtypes opts \<and> t_dtype t = DT_Unknown) ''tensor.dtype''
                (''tensor '' @ quote (t_name t) @ '' has unknown dtype'') 0 (t_id t) @
              error_if (o_require_shapes opts \<and> t_shape t = []) ''tensor.shape''
                (''tensor '' @ quote (t_name t) @ '' has empty shape'') 0 (t_id t),
            tp_ids = insert (t_id t) (tp_ids s),
            tp_names = (if t_name t \<noteq> [] then insert (t_name t) (tp_names s) else tp_names s)\<rparr>)"

definition tensor_pass :: "validation_options \<Rightarrow> tensor list \<Rightarrow> tensor_pass_state" where
  "tensor_pass opts ts =
     fold (check_tensor opts) ts \<lparr>tp_issues = [], tp_ids = {}, tp_names = {}\<rparr>"

definition require_tensor :: "u64 set \<Rightarrow> string \<Rightarrow> u64 \<Rightarrow> u64 \<Rightarrow> validation_issue list" where
  "require_tensor ids place nid i = error_if (i \<notin> ids) ''tensor.missing''
     (place @ '' references missing tensor id '' @ u64_dec i) nid i"

definition io_issues :: "u64 set \<Rightarrow> graph \<Rightarrow> validation_issue list" where
  "io_issues ids g =
     concat (map (require_tensor ids ''graph.inputs'' 0) (g_inputs g)) @
     concat (map (require_tensor ids ''graph.outputs'' 0) (g_outputs g)) @
     error_if (g_outputs g = []) ''graph.outputs'' ''graph must declare at least one output'' 0 0"

record node_pass_state =
  np_issues :: "validation_issue list"
  np_ids :: "u64 set"
  np_producer :: "u64 \<rightharpoonup> u64"

definition schema_issues ::
    "validation_options \<Rightarrow> 'op operator_registry \<Rightarrow> node \<Rightarrow> validation_issue list" where
  "schema_issues opts reg n = (case find_schema reg (n_op_name n) (n_op_version n) of
       None \<Rightarrow> issue (if o_allow_unknown_ops opts then SevWarning else SevError) ''op.unknown''
           (''unknown operator '' @ n_op_name n @ ''@'' @ n_op_version n) (n_id n) 0
     | Some s \<Rightarrow>
         error_if (\<not> arity_ok (size_int (n_inputs n)) (s_min_inputs s) (s_max_inputs s))
           ''op.arity_inputs'' (''operator '' @ n_op_name n @ '' input arity mismatch'') (n_id n) 0 @
         error_if (\<not> arity_ok (size_int (n_outputs n)) (s_min_outputs s) (s_max_outputs s))
           ''op.arity_outputs'' (''operator '' @ n_op_name n @ '' output arity mismatch'') (n_id n) 0)"

definition check_output ::
    "u64 set \<Rightarrow> u64 \<Rightarrow> u64 \<Rightarrow> validation_issue list \<times> (u64 \<rightharpoonup> u64) \<Rightarrow> validation_issue list \<times> (u64 \<rightharpoonup> u64)" where
  "check_output ids nid i = (\<lambda>(is, prd).
     (is @ require_tensor ids ''node.outputs'' nid i @
        error_if (prd i \<noteq> None) ''tensor.multi_producer''
          (''tensor id '' @ u64_dec i @ '' produced by multiple nodes'') nid i,
      if prd i = None then prd(i \<mapsto> nid) else prd))"

definition check_node ::
    "validation_options \<Rightarrow> 'op operator_registry \<Rightarrow> u64 set \<Rightarrow> node \<Rightarrow> node_pass_state
      \<Rightarrow> node_pass_state" where
  "check_node opts reg ids n s =
     (if n_id n = 0
      then s\<lparr>np_issues := np_issues s @
             issue SevError ''node.id'' ''node id must be non-zero'' (n_id n) 0\<rparr>
      else let (is, prd) = fold (check_output ids (n_id n)) (n_outputs n)
              (np_issues s @
                 error_if (n_id n \<in> np_ids s) ''node.duplicate_id''
                   (''duplicate node id '' @ u64_dec (n_id n)) (n_id n) 0 @
                 error_if (n_op_name n = []) ''node.op'' ''node missing op_name'' (n_id n) 0 @
                 schema_issues opts reg n @
                 concat (map (require_tensor ids ''node.inputs'' (n_id n)) (n_inputs n)),
               np_producer s)
           in \<lparr>np_issues = is, np_ids = insert (n_id n) (np_ids s), np_producer = prd\<rparr>)"

definition node_pass ::
    "validation_options \<Rightarrow> 'op operator_registry \<Rightarrow> u64 set \<Rightarrow> node list \<Rightarrow> node_pass_state" where
  "node_pass opts reg ids ns =
     fold (check_node opts reg ids) ns \<lparr>np_issues = [], np_ids = {}, np_producer = Map.empty\<rparr>"

definition input_produced_issues :: "(u64 \<rightharpoonup> u64) \<Rightarrow> u64 list \<Rightarrow> validation_issue list" where
  "input_produced_issues prd ins = concat (map (\<lambda>i. error_if (prd i \<noteq> None)
     ''graph.input_produced''
     (''graph input tensor '' @ u64_dec i @ '' is also produced by a node'') 0 i) ins)"

definition self_cycle_issues :: "(u64 \<rightharpoonup> u64) \<Rightarrow> node list \<Rightarrow> validation_issue list" where
  "self_cycle_issues prd ns = concat (map (\<lambda>n. concat (map (\<lambda>tin.
     error_if (prd tin = Some (n_id n)) ''graph.self_cycle''
       (''node '' @ u64_dec (n_id n) @ '' consumes its own output'') (n_id n) 0) (n_inputs n))) ns)"

definition cycle_edges :: "(u64 \<rightharpoonup> u64) \<Rightarrow> node list \<Rightarrow> (u64 \<times> u64) list" where
  "cycle_edges prd ns = concat (map (\<lambda>n. concat (map (\<lambda>tin. case prd tin of
     None \<Rightarrow> [] | Some p \<Rightarrow> if p = n_id n then [] else [(p, n_id n)]) (n_inputs n))) ns)"

definition cycle_issues ::
    "(u64 list \<Rightarrow> u64 \<Rightarrow> nat) \<Rightarrow> validation_options \<Rightarrow> (u64 \<rightharpoonup> u64) \<Rightarrow> node list
      \<Rightarrow> validation_issue list option" where
  "cycle_issues hm opts prd ns =
     (if o_check_cycles opts \<and> ns \<noteq> [] then
        (case kahn_loop (hash_iter hm (map n_id ns)) (cycle_edges prd ns) of
           None \<Rightarrow> None
         | Some s \<Rightarrow> Some (self_cycle_issues prd ns @
             error_if (length (k_order s) \<noteq> length ns) ''graph.cycle'' ''graph contains a cycle'' 0 0))
      else Some [])"

text \<open>\<open>by_id[t.id] = &t\<close>: the last tensor of an id.\<close>

definition tensor_table :: "tensor list \<Rightarrow> u64 \<rightharpoonup> tensor" where
  "tensor_table ts = fold (\<lambda>t m. m(t_id t \<mapsto> t)) ts Map.empty"

definition last_bool :: "string \<Rightarrow> attribute list \<Rightarrow> bool" where
  "last_bool key as = fold (\<lambda>a acc. case a_value a of
     ABool b \<Rightarrow> if a_key a = key then b else acc | _ \<Rightarrow> acc) as False"

definition last_int :: "string \<Rightarrow> attribute list \<Rightarrow> i64" where
  "last_int key as = fold (\<lambda>a acc. case a_value a of
     AInt i \<Rightarrow> if a_key a = key then i else acc | _ \<Rightarrow> acc) as 0"

definition by_text :: "i64 \<Rightarrow> i64 \<Rightarrow> string \<Rightarrow> string" where
  "by_text x y sep = i64_dec x @ sep @ i64_dec y"

definition matmul_dims_issues ::
    "node \<Rightarrow> bool \<Rightarrow> bool \<Rightarrow> i64 \<times> i64 \<Rightarrow> i64 \<times> i64 \<Rightarrow> i64 \<times> i64 \<Rightarrow> validation_issue list" where
  "matmul_dims_issues n ta tb = (\<lambda>(da0, da1) (db0, db1) (dc0, dc1).
     let a0 = (if ta then da1 else da0); a1 = (if ta then da0 else da1);
         b0 = (if tb then db1 else db0); b1 = (if tb then db0 else db1)
     in error_if (a1 \<noteq> b0) ''shape.matmul''
          (''MatMul inner dims mismatch: A'' @ by_text da0 da1 ''x'' @
           (if ta then '' transposed'' else []) @ '' B'' @ by_text db0 db1 ''x'' @
           (if tb then '' transposed'' else [])) (n_id n) 0 @
        error_if (dc0 \<noteq> a0 \<or> dc1 \<noteq> b1) ''shape.matmul_out''
          (''MatMul output shape mismatch: expected '' @ by_text a0 b1 ''x'' @ '' got '' @
           by_text dc0 dc1 ''x'' @ '' (A=['' @ by_text da0 da1 '','' @ '']'' @
           (if ta then '' ta'' else []) @ '' B=['' @ by_text db0 db1 '','' @ '']'' @
           (if tb then '' tb'' else []) @ '')'' @ '' node='' @ quote (n_name n)) (n_id n) 0)"

definition matmul_issues :: "(u64 \<rightharpoonup> tensor) \<Rightarrow> node \<Rightarrow> validation_issue list" where
  "matmul_issues tab n =
     (if n_op_name n = ''MatMul'' \<or> n_op_name n = ''MatMulRelu'' then
        (case (n_inputs n, n_outputs n) of
           ([ia, ib], [ic]) \<Rightarrow>
             (case (tab ia, tab ib, tab ic) of
                (Some a, Some b, Some c) \<Rightarrow>
                  (case (t_shape a, t_shape b, t_shape c) of
                     ([da0, da1], [db0, db1], [dc0, dc1]) \<Rightarrow>
                       matmul_dims_issues n (last_bool ''transpose_a'' (n_attributes n))
                         (last_bool ''transpose_b'' (n_attributes n))
                         (da0, da1) (db0, db1) (dc0, dc1)
                   | _ \<Rightarrow> [])
              | _ \<Rightarrow> [])
         | _ \<Rightarrow> [])
      else [])"

text \<open>C++ \<open>%\<close> truncates and HOL \<open>mod\<close> floors; they are zero for the same operands.\<close>

definition attention_issues :: "(u64 \<rightharpoonup> tensor) \<Rightarrow> node \<Rightarrow> validation_issue list" where
  "attention_issues tab n =
     (if n_op_name n = ''Attention'' \<and> length (n_inputs n) \<ge> 3 then
        let heads = last_int ''num_heads'' (n_attributes n)
        in (case tab (hd (n_inputs n)) of
              None \<Rightarrow> []
            | Some q \<Rightarrow> error_if (sint heads > 0 \<and> t_shape q \<noteq> [] \<and>
                  sint (last (t_shape q)) mod sint heads \<noteq> 0)
                ''shape.attention_heads'' ''Attention dim not divisible by num_heads'' (n_id n) 0)
      else [])"

definition elementwise_issues :: "(u64 \<rightharpoonup> tensor) \<Rightarrow> node \<Rightarrow> validation_issue list" where
  "elementwise_issues tab n =
     (if n_op_name n = ''Add'' \<or> n_op_name n = ''Mul'' then
        (case (n_inputs n, n_outputs n) of
           ([ia, ib], [ic]) \<Rightarrow>
             (case (tab ia, tab ib, tab ic) of
                (Some a, Some b, Some c) \<Rightarrow>
                  error_if (t_shape a = t_shape b \<and> t_shape a \<noteq> t_shape c) ''shape.elementwise''
                    (n_op_name n @ '' output shape mismatch'') (n_id n) 0
              | _ \<Rightarrow> [])
         | _ \<Rightarrow> [])
      else [])"

definition shape_issues :: "validation_options \<Rightarrow> graph \<Rightarrow> validation_issue list" where
  "shape_issues opts g =
     (if o_require_shapes opts then
        let tab = tensor_table (g_tensors g)
        in concat (map (\<lambda>n. matmul_issues tab n @ attention_issues tab n @ elementwise_issues tab n)
             (g_nodes g))
      else [])"

definition validate_graph ::
    "(u64 list \<Rightarrow> u64 \<Rightarrow> nat) \<Rightarrow> graph \<Rightarrow> 'op operator_registry \<Rightarrow> validation_options
      \<Rightarrow> validation_issue list option" where
  "validate_graph hm g reg opts =
     (let tp = tensor_pass opts (g_tensors g);
          np = node_pass opts reg (tp_ids tp) (g_nodes g)
      in case cycle_issues hm opts (np_producer np) (g_nodes g) of
           None \<Rightarrow> None
         | Some cyc \<Rightarrow> Some (header_issues g @ tp_issues tp @ io_issues (tp_ids tp) g @ np_issues np @
             input_produced_issues (np_producer np) (g_inputs g) @ cyc @ shape_issues opts g))"

definition validate_graph_error ::
    "(u64 list \<Rightarrow> u64 \<Rightarrow> nat) \<Rightarrow> graph \<Rightarrow> 'op operator_registry \<Rightarrow> validation_options
      \<Rightarrow> (error + unit) option" where
  "validate_graph_error hm g reg opts = (case validate_graph hm g reg opts of
       None \<Rightarrow> None
     | Some is \<Rightarrow> Some (if result_ok is then Inr () else Inl (Error InvalidArgument
         (''graph validation failed with '' @ nat_dec (error_count is) @ '' error(s):'' @
          concat (map (\<lambda>i. if i_severity i \<noteq> SevError then []
            else '' ['' @ i_code i @ ''] '' @ i_message i @ '';'') is)))))"

section \<open>What the passes establish\<close>

lemma result_ok_simps [simp]:
  "result_ok []"
  "result_ok (is @ js) \<longleftrightarrow> result_ok is \<and> result_ok js"
  "result_ok (error_if c code msg nid tid) \<longleftrightarrow> \<not> c"
  "\<not> result_ok (issue SevError code msg nid tid)"
  "result_ok (issue SevWarning code msg nid tid)"
  by (auto simp: result_ok_def error_if_def issue_def)

lemma result_ok_concat [simp]: "result_ok (concat iss) \<longleftrightarrow> (\<forall>is \<in> set iss. result_ok is)"
  by (auto simp: result_ok_def)

lemma result_ok_require [simp]: "result_ok (require_tensor ids w nid i) \<longleftrightarrow> i \<in> ids"
  by (simp add: require_tensor_def)

text \<open>The tensor pass.\<close>

definition names_of :: "tensor list \<Rightarrow> string list" where
  "names_of ts = filter (\<lambda>s. s \<noteq> []) (map t_name ts)"

definition tensor_ok :: "validation_options \<Rightarrow> tensor \<Rightarrow> bool" where
  "tensor_ok opts t \<longleftrightarrow> t_id t \<noteq> 0 \<and> (o_require_dtypes opts \<longrightarrow> t_dtype t \<noteq> DT_Unknown) \<and>
     (o_require_shapes opts \<longrightarrow> t_shape t \<noteq> [])"

lemma check_tensor_ok:
  "result_ok (tp_issues (check_tensor opts t s)) \<longleftrightarrow>
     result_ok (tp_issues s) \<and> tensor_ok opts t \<and> t_id t \<notin> tp_ids s \<and>
     (t_name t \<noteq> [] \<longrightarrow> t_name t \<notin> tp_names s)"
  by (auto simp: check_tensor_def tensor_ok_def)

lemma check_tensor_sets:
  "t_id t \<noteq> 0 \<Longrightarrow> tp_ids (check_tensor opts t s) = insert (t_id t) (tp_ids s)"
  "t_id t \<noteq> 0 \<Longrightarrow> tp_names (check_tensor opts t s) =
     (if t_name t = [] then tp_names s else insert (t_name t) (tp_names s))"
  by (simp_all add: check_tensor_def)

lemma tensor_fold_ok:
  "result_ok (tp_issues (fold (check_tensor opts) ts s)) \<longleftrightarrow>
     result_ok (tp_issues s) \<and> (\<forall>t \<in> set ts. tensor_ok opts t) \<and>
     distinct (map t_id ts) \<and> t_id ` set ts \<inter> tp_ids s = {} \<and>
     distinct (names_of ts) \<and> set (names_of ts) \<inter> tp_names s = {}"
proof (induction ts arbitrary: s)
  case Nil
  then show ?case by (simp add: names_of_def)
next
  case (Cons t ts)
  show ?case
  proof (cases "tensor_ok opts t")
    case False
    then show ?thesis by (simp add: Cons.IH check_tensor_ok)
  next
    case True
    then have nz: "t_id t \<noteq> 0" by (simp add: tensor_ok_def)
    have "names_of (t # ts) = (if t_name t = [] then names_of ts else t_name t # names_of ts)"
      by (simp add: names_of_def)
    with True nz show ?thesis
      by (auto simp: Cons.IH check_tensor_ok check_tensor_sets)
  qed
qed

lemma tensor_fold_ids:
  "tp_ids (fold (check_tensor opts) ts s) = tp_ids s \<union> (t_id ` set ts - {0})"
  by (induction ts arbitrary: s) (auto simp: check_tensor_def)

lemma tensor_pass_ok:
  "result_ok (tp_issues (tensor_pass opts ts)) \<longleftrightarrow>
     (\<forall>t \<in> set ts. tensor_ok opts t) \<and> distinct (map t_id ts) \<and> distinct (names_of ts)"
  by (simp add: tensor_pass_def tensor_fold_ok)

lemma tensor_pass_ids: "tp_ids (tensor_pass opts ts) = t_id ` set ts - {0}"
  by (simp add: tensor_pass_def tensor_fold_ids)

text \<open>The node pass.\<close>

definition op_ok :: "validation_options \<Rightarrow> 'op operator_registry \<Rightarrow> node \<Rightarrow> bool" where
  "op_ok opts reg n \<longleftrightarrow> (case find_schema reg (n_op_name n) (n_op_version n) of
       None \<Rightarrow> o_allow_unknown_ops opts
     | Some s \<Rightarrow> arity_ok (size_int (n_inputs n)) (s_min_inputs s) (s_max_inputs s) \<and>
         arity_ok (size_int (n_outputs n)) (s_min_outputs s) (s_max_outputs s))"

definition node_ok :: "validation_options \<Rightarrow> 'op operator_registry \<Rightarrow> u64 set \<Rightarrow> node \<Rightarrow> bool" where
  "node_ok opts reg ids n \<longleftrightarrow> n_id n \<noteq> 0 \<and> n_op_name n \<noteq> [] \<and> op_ok opts reg n \<and>
     set (n_inputs n) \<subseteq> ids \<and> set (n_outputs n) \<subseteq> ids"

lemma schema_issues_ok [simp]: "result_ok (schema_issues opts reg n) \<longleftrightarrow> op_ok opts reg n"
  by (auto simp: schema_issues_def op_ok_def split: option.splits)

lemma check_output_step:
  "result_ok (fst (check_output ids nid t st)) \<longleftrightarrow> result_ok (fst st) \<and> t \<in> ids \<and> snd st t = None"
  "snd (check_output ids nid t st) = (if snd st t = None then (snd st)(t \<mapsto> nid) else snd st)"
  "dom (snd (check_output ids nid t st)) = insert t (dom (snd st))"
  by (auto simp: check_output_def case_prod_beta)

lemma check_output_fold:
  "result_ok (fst (fold (check_output ids nid) ts st)) \<longleftrightarrow>
     result_ok (fst st) \<and> set ts \<subseteq> ids \<and> distinct ts \<and> set ts \<inter> dom (snd st) = {}"
  "snd (fold (check_output ids nid) ts st) t =
     (if snd st t = None \<and> t \<in> set ts then Some nid else snd st t)"
proof -
  show "result_ok (fst (fold (check_output ids nid) ts st)) \<longleftrightarrow>
     result_ok (fst st) \<and> set ts \<subseteq> ids \<and> distinct ts \<and> set ts \<inter> dom (snd st) = {}"
  proof (induction ts arbitrary: st)
    case (Cons t ts)
    show ?case
    proof (cases "snd st t")
      case None
      then have "t \<notin> dom (snd st)" by auto
      with None show ?thesis by (auto simp: Cons.IH check_output_step(1,3))
    next
      case (Some p)
      then have "t \<in> dom (snd st)" by auto
      with Some show ?thesis by (auto simp: Cons.IH check_output_step(1,3))
    qed
  qed simp
  show "snd (fold (check_output ids nid) ts st) t =
     (if snd st t = None \<and> t \<in> set ts then Some nid else snd st t)"
    by (induction ts arbitrary: st) (auto simp: check_output_step(2))
qed

text \<open>The producer map of the pass: the first node that outputs a tensor.\<close>

definition first_producer :: "node list \<Rightarrow> u64 \<rightharpoonup> u64" where
  "first_producer ns t = map_option n_id (find (\<lambda>n. n_id n \<noteq> 0 \<and> t \<in> set (n_outputs n)) ns)"

lemma check_node_producer:
  "np_producer (check_node opts reg ids n s) t =
     (if np_producer s t = None \<and> n_id n \<noteq> 0 \<and> t \<in> set (n_outputs n) then Some (n_id n)
      else np_producer s t)"
  by (auto simp: check_node_def Let_def case_prod_beta check_output_fold(2))

lemma node_fold_producer:
  "np_producer (fold (check_node opts reg ids) ns s) t =
     (case np_producer s t of None \<Rightarrow> first_producer ns t | Some p \<Rightarrow> Some p)"
  by (induction ns arbitrary: s)
    (auto simp: first_producer_def check_node_producer split: option.splits)

lemma node_pass_producer: "np_producer (node_pass opts reg ids ns) = first_producer ns"
  by (rule ext) (simp add: node_pass_def node_fold_producer)

lemma check_node_ok:
  "result_ok (np_issues (check_node opts reg ids n s)) \<longleftrightarrow>
     result_ok (np_issues s) \<and> node_ok opts reg ids n \<and> n_id n \<notin> np_ids s \<and>
     distinct (n_outputs n) \<and> set (n_outputs n) \<inter> dom (np_producer s) = {}"
  by (cases "n_id n = 0")
    (auto simp: check_node_def Let_def case_prod_beta check_output_fold(1) node_ok_def)

lemma node_fold_ok:
  "result_ok (np_issues (fold (check_node opts reg ids) ns s)) \<longleftrightarrow>
     result_ok (np_issues s) \<and> (\<forall>n \<in> set ns. node_ok opts reg ids n) \<and>
     distinct (map n_id ns) \<and> n_id ` set ns \<inter> np_ids s = {} \<and>
     distinct (concat (map n_outputs ns)) \<and>
     (\<Union>n \<in> set ns. set (n_outputs n)) \<inter> dom (np_producer s) = {}"
proof (induction ns arbitrary: s)
  case (Cons n ns)
  show ?case
  proof (cases "node_ok opts reg ids n")
    case False
    then show ?thesis by (simp add: Cons.IH check_node_ok)
  next
    case True
    then have nz: "n_id n \<noteq> 0" by (simp add: node_ok_def)
    have ids: "np_ids (check_node opts reg ids n s) = insert (n_id n) (np_ids s)"
      using nz by (simp add: check_node_def case_prod_beta)
    have dom: "dom (np_producer (check_node opts reg ids n s)) =
        dom (np_producer s) \<union> set (n_outputs n)"
      using nz by (auto simp: check_node_producer domIff)
    have un: "(\<Union>m \<in> set (n # ns). set (n_outputs m)) = set (n_outputs n) \<union> (\<Union>m \<in> set ns. set (n_outputs m))"
      by simp
    have dist: "distinct (concat (map n_outputs (n # ns))) \<longleftrightarrow> distinct (n_outputs n) \<and>
        distinct (concat (map n_outputs ns)) \<and>
        set (n_outputs n) \<inter> (\<Union>m \<in> set ns. set (n_outputs m)) = {}"
      by simp
    have ids_eq: "n_id ` set (n # ns) \<inter> X = {} \<longleftrightarrow> n_id n \<notin> X \<and> n_id ` set ns \<inter> X = {}" for X
      by auto
    have "result_ok (np_issues (fold (check_node opts reg ids) (n # ns) s)) \<longleftrightarrow>
        result_ok (np_issues s) \<and> n_id n \<notin> np_ids s \<and> distinct (n_outputs n) \<and>
        set (n_outputs n) \<inter> dom (np_producer s) = {} \<and> (\<forall>n \<in> set ns. node_ok opts reg ids n) \<and>
        distinct (map n_id ns) \<and> n_id ` set ns \<inter> insert (n_id n) (np_ids s) = {} \<and>
        distinct (concat (map n_outputs ns)) \<and>
        (\<Union>n \<in> set ns. set (n_outputs n)) \<inter> (dom (np_producer s) \<union> set (n_outputs n)) = {}"
      using True by (simp add: Cons.IH check_node_ok ids dom conj_assoc)
    also have "\<dots> \<longleftrightarrow> result_ok (np_issues s) \<and> (\<forall>n \<in> set (n # ns). node_ok opts reg ids n) \<and>
        distinct (map n_id (n # ns)) \<and> n_id ` set (n # ns) \<inter> np_ids s = {} \<and>
        distinct (concat (map n_outputs (n # ns))) \<and>
        (\<Union>n \<in> set (n # ns). set (n_outputs n)) \<inter> dom (np_producer s) = {}"
      unfolding dist ids_eq un using True by auto
    finally show ?thesis .
  qed
qed simp

lemma node_pass_ok:
  "result_ok (np_issues (node_pass opts reg ids ns)) \<longleftrightarrow>
     (\<forall>n \<in> set ns. node_ok opts reg ids n) \<and> distinct (map n_id ns) \<and>
     distinct (concat (map n_outputs ns))"
  by (simp add: node_pass_def node_fold_ok)

lemma first_producer_unique:
  assumes "distinct (concat (map n_outputs ns))" and "\<forall>n \<in> set ns. n_id n \<noteq> 0"
  shows "first_producer ns = producer_of ns"
proof (rule ext)
  fix t show "first_producer ns t = producer_of ns t"
    using assms
  proof (induction ns rule: rev_induct)
    case Nil
    then show ?case by (simp add: first_producer_def)
  next
    case (snoc n ns)
    then have ih: "first_producer ns t = producer_of ns t" by simp
    show ?case
    proof (cases "t \<in> set (n_outputs n)")
      case True
      with snoc.prems have "\<forall>m \<in> set ns. t \<notin> set (n_outputs m)" by auto
      then have "find (\<lambda>n. n_id n \<noteq> 0 \<and> t \<in> set (n_outputs n)) ns = None"
        by (auto simp: find_None_iff)
      then have "find (\<lambda>n. n_id n \<noteq> 0 \<and> t \<in> set (n_outputs n)) (ns @ [n]) = Some n"
        using True snoc.prems(2) by (induction ns) (auto split: if_splits)
      with True show ?thesis by (simp add: first_producer_def producer_of_snoc)
    next
      case False
      then have "first_producer (ns @ [n]) t = first_producer ns t"
        by (induction ns) (auto simp: first_producer_def)
      with False ih show ?thesis by (simp add: producer_of_snoc)
    qed
  qed
qed

section \<open>The cycle pass\<close>

lemma first_producer_range: "first_producer ns t = Some p \<Longrightarrow> p \<in> n_id ` set ns"
  by (auto simp: first_producer_def find_Some_iff)

lemma set_cycle_edges:
  "set (cycle_edges prd ns) =
     {(p, v). \<exists>n \<in> set ns. v = n_id n \<and> p \<noteq> v \<and> (\<exists>t \<in> set (n_inputs n). prd t = Some p)}"
proof -
  have one: "x \<in> set (case m of None \<Rightarrow> [] | Some p \<Rightarrow> if p = q then [] else [(p, q)]) \<longleftrightarrow>
      (\<exists>p. m = Some p \<and> p \<noteq> q \<and> x = (p, q))" for x :: "u64 \<times> u64" and m q
    by (cases m) auto
  have "x \<in> set (cycle_edges prd ns) \<longleftrightarrow> (\<exists>n \<in> set ns. \<exists>t \<in> set (n_inputs n).
      \<exists>p. prd t = Some p \<and> p \<noteq> n_id n \<and> x = (p, n_id n))" for x
    by (simp only: cycle_edges_def set_concat set_map image_image UN_iff one)
  then have pair: "(p, v) \<in> set (cycle_edges prd ns) \<longleftrightarrow>
      (\<exists>n \<in> set ns. v = n_id n \<and> p \<noteq> v \<and> (\<exists>t \<in> set (n_inputs n). prd t = Some p))" for p v
    by (simp only: prod.inject) blast
  have "x \<in> set (cycle_edges prd ns) \<longleftrightarrow> x \<in> {(p, v). \<exists>n \<in> set ns. v = n_id n \<and> p \<noteq> v \<and>
      (\<exists>t \<in> set (n_inputs n). prd t = Some p)}" for x
    by (cases x) (simp add: pair)
  then show ?thesis by (rule set_eqI)
qed

interpretation vg: dep_graph "hash_iter hm (map n_id ns)" "cycle_edges (first_producer ns) ns"
  for hm ns
proof
  show "distinct (hash_iter hm (map n_id ns))" by simp
  show "p \<in> set (hash_iter hm (map n_id ns)) \<and> v \<in> set (hash_iter hm (map n_id ns))"
    if "(p, v) \<in> set (cycle_edges (first_producer ns) ns)" for p v
    using that by (auto simp: set_cycle_edges dest: first_producer_range)
qed

definition no_self_cycle :: "node list \<Rightarrow> bool" where
  "no_self_cycle ns \<longleftrightarrow> (\<forall>n \<in> set ns. \<forall>t \<in> set (n_inputs n). first_producer ns t \<noteq> Some (n_id n))"

lemma cycle_issues_ok:
  assumes "distinct (map n_id ns)"
  shows "\<exists>is. cycle_issues hm opts (first_producer ns) ns = Some is \<and>
    (result_ok is \<longleftrightarrow> (o_check_cycles opts \<longrightarrow> no_self_cycle ns \<and>
       acyclic (set (cycle_edges (first_producer ns) ns))))"
proof (cases "o_check_cycles opts \<and> ns \<noteq> []")
  case False
  moreover have "acyclic (set (cycle_edges (first_producer []) []))"
    by (simp add: cycle_edges_def acyclic_def)
  ultimately show ?thesis by (auto simp: cycle_issues_def no_self_cycle_def)
next
  case True
  obtain s where s: "kahn_loop (hash_iter hm (map n_id ns)) (cycle_edges (first_producer ns) ns) = Some s"
    using vg.loop_terminates by blast
  have "length (hash_iter hm (map n_id ns)) = length ns"
    using assms by (simp add: length_hash_iter)
  then have "length (k_order s) = length ns \<longleftrightarrow> acyclic (set (cycle_edges (first_producer ns) ns))"
    using vg.loop_length(1) [OF s] by simp
  with True show ?thesis
    by (simp add: cycle_issues_def s self_cycle_issues_def no_self_cycle_def)
qed

lemma cycle_issues_returns: "\<exists>is. cycle_issues hm opts (first_producer ns) ns = Some is"
  using vg.loop_terminates [of hm ns] by (auto simp: cycle_issues_def)

section \<open>The declarative reading\<close>

definition matmul_ok :: "(u64 \<rightharpoonup> tensor) \<Rightarrow> node \<Rightarrow> bool" where
  "matmul_ok tab n \<longleftrightarrow> (\<forall>ia ib ic a b c da0 da1 db0 db1 dc0 dc1.
     n_op_name n \<in> {''MatMul'', ''MatMulRelu''} \<longrightarrow> n_inputs n = [ia, ib] \<longrightarrow> n_outputs n = [ic] \<longrightarrow>
     tab ia = Some a \<longrightarrow> tab ib = Some b \<longrightarrow> tab ic = Some c \<longrightarrow>
     t_shape a = [da0, da1] \<longrightarrow> t_shape b = [db0, db1] \<longrightarrow> t_shape c = [dc0, dc1] \<longrightarrow>
     (let ta = last_bool ''transpose_a'' (n_attributes n);
          tb = last_bool ''transpose_b'' (n_attributes n)
      in (if ta then da0 else da1) = (if tb then db1 else db0) \<and>
         dc0 = (if ta then da1 else da0) \<and> dc1 = (if tb then db0 else db1)))"

definition attention_ok :: "(u64 \<rightharpoonup> tensor) \<Rightarrow> node \<Rightarrow> bool" where
  "attention_ok tab n \<longleftrightarrow> (\<forall>q. n_op_name n = ''Attention'' \<longrightarrow> length (n_inputs n) \<ge> 3 \<longrightarrow>
     tab (hd (n_inputs n)) = Some q \<longrightarrow> t_shape q \<noteq> [] \<longrightarrow>
     0 < sint (last_int ''num_heads'' (n_attributes n)) \<longrightarrow>
     sint (last_int ''num_heads'' (n_attributes n)) dvd sint (last (t_shape q)))"

definition elementwise_ok :: "(u64 \<rightharpoonup> tensor) \<Rightarrow> node \<Rightarrow> bool" where
  "elementwise_ok tab n \<longleftrightarrow> (\<forall>ia ib ic a b c.
     n_op_name n \<in> {''Add'', ''Mul''} \<longrightarrow> n_inputs n = [ia, ib] \<longrightarrow> n_outputs n = [ic] \<longrightarrow>
     tab ia = Some a \<longrightarrow> tab ib = Some b \<longrightarrow> tab ic = Some c \<longrightarrow> t_shape a = t_shape b \<longrightarrow>
     t_shape c = t_shape a)"

definition valid_graph :: "validation_options \<Rightarrow> 'op operator_registry \<Rightarrow> graph \<Rightarrow> bool" where
  "valid_graph opts reg g \<longleftrightarrow>
     is_ok (check_compatible (g_version g)) \<and>
     (\<forall>t \<in> set (g_tensors g). tensor_ok opts t) \<and>
     distinct (map t_id (g_tensors g)) \<and> distinct (names_of (g_tensors g)) \<and>
     set (g_inputs g) \<subseteq> t_id ` set (g_tensors g) \<and> set (g_outputs g) \<subseteq> t_id ` set (g_tensors g) \<and>
     g_outputs g \<noteq> [] \<and>
     (\<forall>n \<in> set (g_nodes g). node_ok opts reg (t_id ` set (g_tensors g)) n) \<and>
     distinct (map n_id (g_nodes g)) \<and> distinct (concat (map n_outputs (g_nodes g))) \<and>
     (\<forall>i \<in> set (g_inputs g). producer_of (g_nodes g) i = None) \<and>
     (o_check_cycles opts \<longrightarrow> acyclic (depends (g_nodes g)) \<and>
        (\<forall>n \<in> set (g_nodes g). set (n_inputs n) \<inter> set (n_outputs n) = {})) \<and>
     (o_require_shapes opts \<longrightarrow> (\<forall>n \<in> set (g_nodes g).
        matmul_ok (tensor_table (g_tensors g)) n \<and> attention_ok (tensor_table (g_tensors g)) n \<and>
        elementwise_ok (tensor_table (g_tensors g)) n))"

lemma header_issues_ok: "result_ok (header_issues g) \<longleftrightarrow> is_ok (check_compatible (g_version g))"
  by (auto simp: header_issues_def split: sum.splits)

lemma io_issues_ok: "result_ok (io_issues ids g) \<longleftrightarrow>
    set (g_inputs g) \<subseteq> ids \<and> set (g_outputs g) \<subseteq> ids \<and> g_outputs g \<noteq> []"
  by (auto simp: io_issues_def)

lemma input_produced_ok:
  "result_ok (input_produced_issues prd ins) \<longleftrightarrow> (\<forall>i \<in> set ins. prd i = None)"
  by (auto simp: input_produced_issues_def)

lemma matmul_issues_ok [simp]: "result_ok (matmul_issues tab n) \<longleftrightarrow> matmul_ok tab n"
proof -
  have "result_ok (matmul_dims_issues n ta tb (da0, da1) (db0, db1) (dc0, dc1)) \<longleftrightarrow>
      (if ta then da0 else da1) = (if tb then db1 else db0) \<and>
      dc0 = (if ta then da1 else da0) \<and> dc1 = (if tb then db0 else db1)"
    for ta tb da0 da1 db0 db1 dc0 dc1
    by (simp add: matmul_dims_issues_def Let_def)
  then show ?thesis
    unfolding matmul_issues_def matmul_ok_def Let_def
    by (simp split: list.splits option.splits)
qed

lemma attention_issues_ok [simp]: "result_ok (attention_issues tab n) \<longleftrightarrow> attention_ok tab n"
  by (auto simp: attention_issues_def attention_ok_def Let_def dvd_eq_mod_eq_0 split: option.splits)

lemma elementwise_issues_ok [simp]: "result_ok (elementwise_issues tab n) \<longleftrightarrow> elementwise_ok tab n"
  unfolding elementwise_issues_def elementwise_ok_def
  by (auto split: list.splits option.splits)

lemma shape_issues_ok: "result_ok (shape_issues opts g) \<longleftrightarrow> (o_require_shapes opts \<longrightarrow>
    (\<forall>n \<in> set (g_nodes g). matmul_ok (tensor_table (g_tensors g)) n \<and>
       attention_ok (tensor_table (g_tensors g)) n \<and> elementwise_ok (tensor_table (g_tensors g)) n))"
  by (auto simp: shape_issues_def Let_def)

lemma self_cycle_iff:
  assumes "distinct (map n_id ns)" and "distinct (concat (map n_outputs ns))"
    and "\<forall>n \<in> set ns. n_id n \<noteq> 0"
  shows "no_self_cycle ns \<longleftrightarrow> (\<forall>n \<in> set ns. set (n_inputs n) \<inter> set (n_outputs n) = {})"
proof -
  have "first_producer ns t = Some (n_id n) \<longleftrightarrow> t \<in> set (n_outputs n)" if n: "n \<in> set ns" for n t
  proof
    assume "first_producer ns t = Some (n_id n)"
    then obtain m where "m \<in> set ns" "n_id m = n_id n" "t \<in> set (n_outputs m)"
      using producer_of_SomeD by (metis assms(2,3) first_producer_unique)
    moreover from this n assms(1) have "m = n" by (metis distinct_map inj_onD)
    ultimately show "t \<in> set (n_outputs n)" by simp
  next
    assume t: "t \<in> set (n_outputs n)"
    have "m = n" if "m \<in> set ns" "t \<in> set (n_outputs m)" for m
    proof (rule ccontr)
      assume ne: "m \<noteq> n"
      from n that(1) ne have "\<exists>a b c. ns = a @ m # b @ n # c \<or> ns = a @ n # b @ m # c"
        by (metis (no_types, lifting) in_set_conv_decomp append_Cons append_assoc set_ConsD
            split_list Un_iff set_append)
      with assms(2) t that(2) show False by auto
    qed
    then show "first_producer ns t = Some (n_id n)"
      by (metis assms(2,3) first_producer_unique n producer_of_unique t)
  qed
  then show ?thesis unfolding no_self_cycle_def by blast
qed

lemma validate_graph_spec:
  "\<exists>is. validate_graph hm g reg opts = Some is \<and> (result_ok is \<longleftrightarrow> valid_graph opts reg g)"
proof -
  let ?tp = "tensor_pass opts (g_tensors g)"
  let ?np = "node_pass opts reg (tp_ids ?tp) (g_nodes g)"
  let ?T = "t_id ` set (g_tensors g)"
  obtain cyc where cyc: "cycle_issues hm opts (first_producer (g_nodes g)) (g_nodes g) = Some cyc"
    using cycle_issues_returns by blast
  define all where "all = header_issues g @ tp_issues ?tp @ io_issues (tp_ids ?tp) g @ np_issues ?np @
     input_produced_issues (first_producer (g_nodes g)) (g_inputs g) @ cyc @ shape_issues opts g"
  have v: "validate_graph hm g reg opts = Some all"
    by (simp add: validate_graph_def Let_def node_pass_producer cyc all_def)
  have "result_ok all \<longleftrightarrow> valid_graph opts reg g"
  proof (cases "result_ok (tp_issues ?tp) \<and> result_ok (np_issues ?np)")
    case False
    moreover have "valid_graph opts reg g \<Longrightarrow> result_ok (tp_issues ?tp) \<and> result_ok (np_issues ?np)"
    proof -
      assume v: "valid_graph opts reg g"
      then have "0 \<notin> ?T" by (auto simp: valid_graph_def tensor_ok_def)
      with v show "result_ok (tp_issues ?tp) \<and> result_ok (np_issues ?np)"
        by (auto simp: valid_graph_def tensor_pass_ok node_pass_ok tensor_pass_ids)
    qed
    ultimately show ?thesis by (auto simp: all_def)
  next
    case True
    then have ids: "tp_ids ?tp = ?T"
      by (auto simp: tensor_pass_ok tensor_pass_ids tensor_ok_def)
    from True have nodes: "\<forall>n \<in> set (g_nodes g). node_ok opts reg ?T n"
      "distinct (map n_id (g_nodes g))" "distinct (concat (map n_outputs (g_nodes g)))"
      unfolding ids node_pass_ok by auto
    then have nz: "\<forall>n \<in> set (g_nodes g). n_id n \<noteq> 0" by (auto simp: node_ok_def)
    note fp = first_producer_unique [OF nodes(3) nz]
    have ed: "set (cycle_edges (producer_of (g_nodes g)) (g_nodes g)) = depends (g_nodes g)"
      by (auto simp: set_cycle_edges depends_def)
    have "result_ok cyc \<longleftrightarrow> (o_check_cycles opts \<longrightarrow> no_self_cycle (g_nodes g) \<and>
        acyclic (set (cycle_edges (producer_of (g_nodes g)) (g_nodes g))))"
      using cycle_issues_ok [OF nodes(2), of hm opts] cyc unfolding fp by simp
    then have c: "result_ok cyc \<longleftrightarrow> (o_check_cycles opts \<longrightarrow> acyclic (depends (g_nodes g)) \<and>
        (\<forall>n \<in> set (g_nodes g). set (n_inputs n) \<inter> set (n_outputs n) = {}))"
      unfolding ed self_cycle_iff [OF nodes(2,3) nz] by blast
    from True have t: "(\<forall>t \<in> set (g_tensors g). tensor_ok opts t)"
      "distinct (map t_id (g_tensors g))" "distinct (names_of (g_tensors g))"
      by (simp_all add: tensor_pass_ok)
    show ?thesis
      unfolding all_def valid_graph_def result_ok_simps header_issues_ok io_issues_ok
        input_produced_ok shape_issues_ok fp ids c
      using t nodes True unfolding ids by blast
  qed
  with v show ?thesis by blast
qed

text \<open>C1. The validator always returns, and it reports no error exactly on the graphs
  that satisfy the declarative reading: a supported version, unique non-zero ids and names,
  known types and shapes, no dangling reference, arities within their schema, at most one
  producer for each tensor and none for a graph input, no dependency cycle, and consistent
  shapes.  The iteration order of the hash containers does not matter.\<close>

theorem validate_graph_iff:
  "\<exists>is. validate_graph hm g reg opts = Some is \<and> (result_ok is \<longleftrightarrow> valid_graph opts reg g)"
  by (rule validate_graph_spec)

text \<open>C24. A graph that passes validation with the cycle check on is planned
  successfully, whatever the two passes' container orders: \<open>build_execution_plan\<close> never
  reports a cycle after \<open>validate_graph\<close> accepted the graph.\<close>

theorem validated_graph_plans:
  assumes "validate_graph_error hm g reg opts = Some (Inr ())" and "o_check_cycles opts"
  shows "\<exists>p. build_execution_plan hp hs g = Some (Inr p)"
proof -
  obtain "is" where v: "validate_graph hm g reg opts = Some is"
    and "result_ok is \<longleftrightarrow> valid_graph opts reg g"
    using validate_graph_spec by blast
  then have "valid_graph opts reg g"
    using assms(1) by (auto simp: validate_graph_error_def split: if_splits)
  with assms(2) have "distinct (map n_id (g_nodes g))" "acyclic (depends (g_nodes g))"
    by (auto simp: valid_graph_def)
  then show ?thesis
  proof (cases "g_nodes g = []")
    case True
    then show ?thesis by (simp add: build_execution_plan_def)
  next
    case False
    obtain s where s: "kahn_loop (hash_iter hp (map n_id (g_nodes g))) (plan_edges hs (g_nodes g)) = Some s"
      using pg.loop_terminates by blast
    with \<open>distinct _\<close> \<open>acyclic _\<close> False show ?thesis
      by (simp add: build_execution_plan_def Let_def order_length_iff [OF s])
  qed
qed

definition relu_schema :: op_schema where
  "relu_schema = schema ''Relu'' 1 1 1 1 [] ''ReLU''"

definition relu_graph :: graph where
  "relu_graph = graph_default\<lparr>g_name := ''relu'', g_tensors :=
     [tensor_default\<lparr>t_id := 1, t_name := ''x'', t_dtype := DT_F32, t_shape := [2]\<rparr>,
      tensor_default\<lparr>t_id := 2, t_name := ''y'', t_dtype := DT_F32, t_shape := [2]\<rparr>],
     g_nodes := [\<lparr>n_id = 1, n_name = [], n_op_name = ''Relu'', n_op_version = ''1'',
       n_inputs = [1], n_outputs = [2], n_attributes = []\<rparr>],
     g_inputs := [1], g_outputs := [2]\<rparr>"

lemma relu_schema_found:
  "find_schema (default_registry :: unit operator_registry) ''Relu'' ''1'' = Some relu_schema"
proof -
  have "relu_schema \<in> set builtin_schemas"
    by (simp add: relu_schema_def builtin_schemas_def)
  moreover have "s_name relu_schema = ''Relu''" by (simp add: relu_schema_def schema_def)
  ultimately show ?thesis unfolding default_registry_def using builtin_lookup by metis
qed

lemma relu_graph_valid:
  "valid_graph default_options (default_registry :: unit operator_registry) relu_graph"
proof -
  have nodes: "g_nodes relu_graph = [\<lparr>n_id = 1, n_name = [], n_op_name = ''Relu'',
      n_op_version = ''1'', n_inputs = [1], n_outputs = [2], n_attributes = []\<rparr>]"
    by (simp add: relu_graph_def)
  have op: "op_ok default_options (default_registry :: unit operator_registry) n"
    if "n \<in> set (g_nodes relu_graph)" for n
    using that by (simp add: nodes op_ok_def relu_schema_found)
      (simp add: relu_schema_def schema_def arity_ok_def size_int_def)
  have dep: "depends (g_nodes relu_graph) = {}"
    by (simp add: nodes depends_def producer_of_def)
  have prod: "producer_of (g_nodes relu_graph) 1 = None"
    by (simp add: nodes producer_of_def)
  show ?thesis
    unfolding valid_graph_def dep using op prod
    by (simp add: node_ok_def)
      (simp add: nodes relu_graph_def graph_default_def tensor_default_def tensor_ok_def names_of_def
        check_compatible_def is_compatible_def acyclic_def matmul_ok_def attention_ok_def
        elementwise_ok_def)
qed

theorem validated_graph_plans_witness:
  "\<exists>p. build_execution_plan (\<lambda>_ _. 0) (\<lambda>_ _. 0) relu_graph = Some (Inr p)"
proof (rule validated_graph_plans)
  show "validate_graph_error (\<lambda>_ _. 0) relu_graph (default_registry :: unit operator_registry)
      default_options = Some (Inr ())"
    using validate_graph_spec [of "\<lambda>_ _. 0" relu_graph "default_registry :: unit operator_registry"
        default_options] relu_graph_valid
    by (auto simp: validate_graph_error_def)
  show "o_check_cycles default_options" by (simp add: default_options_def)
qed

end
