(* ===== verification/Binary_Ir.thy ===== *)
theory Binary_Ir
  imports Ir_Graph
begin

text \<open>
  The binary IR codec (\<open>ir/serialize_binary.cpp\<close>).  The writer appends bytes; the reader keeps a
  position in the file, here the bytes that are still unread.  Every read checks the length
  first, so that \<open>pos_ + n\<close> never leaves the file and never wraps (\<open>n < 2^32\<close>).

  The predicate \<open>codes rd bs x\<close> says that a reader accepts exactly the bytes \<open>bs\<close> as the value
  \<open>x\<close> and refuses each proper prefix of them; it composes along the reader's own sequence of
  calls, and the locale \<open>codec\<close> lifts it to counted lists.
\<close>

section \<open>Writer\<close>

unbundle bit_operations_syntax

definition byte_of_char :: "char \<Rightarrow> u8" where
  "byte_of_char c = word_of_nat (of_char c)"

definition char_of_byte :: "u8 \<Rightarrow> char" where
  "char_of_byte b = char_of (unat b)"

definition put_u8 :: "u8 \<Rightarrow> bytes" where
  "put_u8 v = [v]"

definition put_u32 :: "u32 \<Rightarrow> bytes" where
  "put_u32 v = map (\<lambda>i. ucast (drop_bit (8 * i) v AND 0xFF)) [0..<4]"

definition put_u64 :: "u64 \<Rightarrow> bytes" where
  "put_u64 v = map (\<lambda>i. ucast (drop_bit (8 * i) v AND 0xFF)) [0..<8]"

definition put_size :: "'a list \<Rightarrow> bytes" where
  "put_size xs = put_u32 (word_of_nat (length xs))"

definition put_str :: "string \<Rightarrow> bytes" where
  "put_str s = put_size s @ map byte_of_char s"

definition put_bool :: "bool \<Rightarrow> bytes" where
  "put_bool b = put_u8 (if b then 1 else 0)"

definition put_list :: "('a \<Rightarrow> bytes) \<Rightarrow> 'a list \<Rightarrow> bytes" where
  "put_list enc xs = put_size xs @ concat (map enc xs)"

fun attr_type_code :: "attr_type \<Rightarrow> u8" where
  "attr_type_code TString = 0"
| "attr_type_code TInt = 1"
| "attr_type_code TFloat = 2"
| "attr_type_code TBool = 3"
| "attr_type_code TIntArray = 4"
| "attr_type_code TFloatArray = 5"

fun write_value :: "attr_value \<Rightarrow> bytes" where
  "write_value (AString s) = put_str s"
| "write_value (AInt i) = put_u64 i"
| "write_value (AFloat d) = put_u64 d"
| "write_value (ABool b) = put_bool b"
| "write_value (AIntArray vs) = put_list put_u64 vs"
| "write_value (AFloatArray vs) = put_list put_u64 vs"

definition write_attr :: "attribute \<Rightarrow> bytes" where
  "write_attr a = put_str (a_key a) @ put_u8 (attr_type_code (attribute_type a)) @
     write_value (a_value a)"

definition write_tensor :: "tensor \<Rightarrow> bytes" where
  "write_tensor t = put_u64 (t_id t) @ put_str (t_name t) @ put_u8 (dtype_code (t_dtype t)) @
     put_list put_u64 (t_shape t) @ put_u8 (hint_code (t_storage_hint t)) @
     put_bool (t_is_weight t) @ put_str (t_weight_ref t)"

definition write_node :: "node \<Rightarrow> bytes" where
  "write_node n = put_u64 (n_id n) @ put_str (n_name n) @ put_str (n_op_name n) @
     put_str (n_op_version n) @ put_list put_u64 (n_inputs n) @ put_list put_u64 (n_outputs n) @
     put_list write_attr (n_attributes n)"

definition write_meta :: "string \<times> string \<Rightarrow> bytes" where
  "write_meta kv = put_str (fst kv) @ put_str (snd kv)"

definition binary_magic :: bytes where
  "binary_magic = map byte_of_char ''UAIR''"

definition graph_to_binary :: "graph \<Rightarrow> bytes" where
  "graph_to_binary g = binary_magic @ put_u32 1 @
     put_u32 (ver_major (g_version g)) @ put_u32 (ver_minor (g_version g)) @
     put_str (g_name g) @ put_str (g_producer g) @ put_str (g_domain g) @
     put_list write_tensor (g_tensors g) @ put_list write_node (g_nodes g) @
     put_list put_u64 (g_inputs g) @ put_list put_u64 (g_outputs g) @
     put_list write_meta (g_metadata g)"

section \<open>Reader\<close>

type_synonym 'a reader = "bytes \<Rightarrow> error + ('a \<times> bytes)"

definition eof :: error where
  "eof = Error InvalidArgument ''truncated UAII binary IR''"

text \<open>One call after another, each with its early return, and the final return.\<close>

definition rseq :: "'a reader \<Rightarrow> ('a \<Rightarrow> 'b reader) \<Rightarrow> 'b reader" where
  "rseq rd f bs = rbind (rd bs) (\<lambda>(x, rest). f x rest)"

definition rret :: "'a \<Rightarrow> 'a reader" where
  "rret x bs = Inr (x, bs)"

definition rfail :: "error \<Rightarrow> 'a reader" where
  "rfail e bs = Inl e"

fun le_or :: "nat \<Rightarrow> bytes \<Rightarrow> 'a::len word" where
  "le_or i [] = 0"
| "le_or i (b # bs) = push_bit (8 * i) (ucast b) OR le_or (Suc i) bs"

definition take_bytes :: "nat \<Rightarrow> bytes reader" where
  "take_bytes n bs = (if length bs < n then Inl eof else Inr (take n bs, drop n bs))"

definition get_u8 :: "u8 reader" where
  "get_u8 = rseq (take_bytes 1) (\<lambda>bs. rret (hd bs))"

definition get_u32 :: "u32 reader" where
  "get_u32 = rseq (take_bytes 4) (\<lambda>bs. rret (le_or 0 bs))"

definition get_u64 :: "u64 reader" where
  "get_u64 = rseq (take_bytes 8) (\<lambda>bs. rret (le_or 0 bs))"

definition get_str :: "string reader" where
  "get_str = rseq get_u32 (\<lambda>n. rseq (take_bytes (unat n)) (\<lambda>bs. rret (map char_of_byte bs)))"

definition get_bool :: "bool reader" where
  "get_bool = rseq get_u8 (\<lambda>b. rret (b \<noteq> 0))"

fun get_many :: "nat \<Rightarrow> 'a reader \<Rightarrow> 'a list reader" where
  "get_many 0 rd = rret []"
| "get_many (Suc n) rd = rseq rd (\<lambda>x. rseq (get_many n rd) (\<lambda>xs. rret (x # xs)))"

definition get_list :: "'a reader \<Rightarrow> 'a list reader" where
  "get_list rd = rseq get_u32 (\<lambda>n. get_many (unat n) rd)"

definition read_value :: "u8 \<Rightarrow> attr_value reader" where
  "read_value ty =
     (if ty = 0 then rseq get_str (\<lambda>s. rret (AString s))
      else if ty = 1 then rseq get_u64 (\<lambda>v. rret (AInt v))
      else if ty = 2 then rseq get_u64 (\<lambda>v. rret (AFloat v))
      else if ty = 3 then rseq get_bool (\<lambda>v. rret (ABool v))
      else if ty = 4 then rseq (get_list get_u64) (\<lambda>vs. rret (AIntArray vs))
      else if ty = 5 then rseq (get_list get_u64) (\<lambda>vs. rret (AFloatArray vs))
      else rfail (Error InvalidArgument ''unknown attribute type in binary IR''))"

definition read_attr :: "attribute reader" where
  "read_attr = rseq get_str (\<lambda>key. rseq get_u8 (\<lambda>ty. rseq (read_value ty) (\<lambda>v.
     rret (Attribute key v))))"

definition read_tensor :: "tensor reader" where
  "read_tensor = rseq get_u64 (\<lambda>i. rseq get_str (\<lambda>name. rseq get_u8 (\<lambda>dt.
     rseq (get_list get_u64) (\<lambda>dims. rseq get_u8 (\<lambda>hint. rseq get_bool (\<lambda>w. rseq get_str (\<lambda>ref.
     rret (tensor_default\<lparr>t_id := i, t_name := name, t_dtype := dtype_of_code dt, t_shape := dims,
       t_storage_hint := hint_of_code hint, t_is_weight := w, t_weight_ref := ref\<rparr>))))))))"

definition read_node :: "node reader" where
  "read_node = rseq get_u64 (\<lambda>i. rseq get_str (\<lambda>name. rseq get_str (\<lambda>op. rseq get_str (\<lambda>ver.
     rseq (get_list get_u64) (\<lambda>ins. rseq (get_list get_u64) (\<lambda>outs. rseq (get_list read_attr) (\<lambda>as.
     rret \<lparr>n_id = i, n_name = name, n_op_name = op, n_op_version = ver, n_inputs = ins,
       n_outputs = outs, n_attributes = as\<rparr>)))))))"

definition read_meta :: "(string \<times> string) reader" where
  "read_meta = rseq get_str (\<lambda>k. rseq get_str (\<lambda>v. rret (k, v)))"

definition put_all :: "(string \<times> string) list \<Rightarrow> (string \<times> string) list" where
  "put_all kvs = fold (\<lambda>(k, v). map_put k v) kvs []"

text \<open>The fields behind the codec version.\<close>

definition read_graph_fields :: "graph reader" where
  "read_graph_fields = rseq get_u32 (\<lambda>maj. rseq get_u32 (\<lambda>min.
     case check_compatible (IrVersion maj min) of Inl e \<Rightarrow> rfail e | Inr _ \<Rightarrow>
     rseq get_str (\<lambda>name. rseq get_str (\<lambda>producer. rseq get_str (\<lambda>domain.
     rseq (get_list read_tensor) (\<lambda>ts. rseq (get_list read_node) (\<lambda>ns.
     rseq (get_list get_u64) (\<lambda>ins. rseq (get_list get_u64) (\<lambda>outs.
     rseq (get_list read_meta) (\<lambda>meta.
     rret \<lparr>g_version = IrVersion maj min, g_name = name, g_producer = producer,
       g_domain = domain, g_tensors = ts, g_nodes = ns, g_inputs = ins, g_outputs = outs,
       g_metadata = put_all meta\<rparr>))))))))))"

definition not_binary_error :: error where
  "not_binary_error = Error InvalidArgument ''not a UAII binary IR file''"

definition graph_from_binary :: "bytes \<Rightarrow> error + graph" where
  "graph_from_binary bs =
     (if length bs < 16 \<or> take 4 bs \<noteq> binary_magic then Inl not_binary_error
      else rbind (rseq (take_bytes 4) (\<lambda>_. rseq get_u32 (\<lambda>codec.
             if codec \<noteq> 1
             then rfail (Error InvalidArgument
               (''unsupported UAII binary codec version '' @ u64_dec codec))
             else read_graph_fields)) bs) (\<lambda>(g, _). Inr g))"

section \<open>How readers consume what writers produced\<close>

definition codes :: "'a reader \<Rightarrow> bytes \<Rightarrow> 'a \<Rightarrow> bool" where
  "codes rd bs x \<longleftrightarrow> (\<forall>rest. rd (bs @ rest) = Inr (x, rest)) \<and>
     (\<forall>p q. bs = p @ q \<longrightarrow> q \<noteq> [] \<longrightarrow> rd p = Inl eof)"

lemma codes_ret [codec_simps]: "codes (rret x) [] x"
  by (simp add: codes_def rret_def)

lemma codes_seq:
  assumes "codes rd as x" and "codes (f x) bs y"
  shows "codes (rseq rd f) (as @ bs) y"
proof -
  have "rseq rd f p = Inl eof" if pq: "as @ bs = p @ q" "q \<noteq> []" for p q
  proof -
    from pq(1) consider us where "as = p @ us" "us @ bs = q" | us where "as @ us = p" "bs = us @ q"
      by (auto simp: append_eq_append_conv2)
    then show ?thesis
    proof cases
      case 1
      show ?thesis
      proof (cases "us = []")
        case True
        with 1 pq(2) assms have "rd p = Inr (x, [])" "f x [] = Inl eof"
          by (auto simp: codes_def) (metis append_Nil2)+
        then show ?thesis by (simp add: rseq_def)
      next
        case False
        with 1 assms(1) show ?thesis by (simp add: codes_def rseq_def)
      qed
    next
      case 2
      with pq(2) assms show ?thesis by (auto simp: codes_def rseq_def)
    qed
  qed
  with assms show ?thesis by (simp add: codes_def rseq_def)
qed

lemma codes_map: "codes rd bs x \<Longrightarrow> codes (rseq rd (\<lambda>x. rret (f x))) bs (f x)"
  using codes_seq [OF _ codes_ret] by fastforce

lemma codes_take [codec_simps]: "length bs = n \<Longrightarrow> codes (take_bytes n) bs bs"
  by (auto simp: codes_def take_bytes_def)

lemma codes_exact: "codes rd bs x \<Longrightarrow> rd (bs @ rest) = Inr (x, rest)"
  by (simp add: codes_def)

lemma codes_prefix: "codes rd (p @ q) x \<Longrightarrow> q \<noteq> [] \<Longrightarrow> rd p = Inl eof"
  by (simp add: codes_def)

text \<open>Little-endian words.\<close>

lemma bit_le_or:
  "bit (le_or k bs :: 'a::len word) n \<longleftrightarrow>
     n < LENGTH('a) \<and> 8 * k \<le> n \<and> n div 8 - k < length bs \<and> bit (bs ! (n div 8 - k)) (n mod 8)"
proof (induction bs arbitrary: k)
  case Nil
  then show ?case by simp
next
  case (Cons b bs)
  have head: "bit (push_bit (8 * k) (ucast b :: 'a word)) n \<longleftrightarrow>
      n < LENGTH('a) \<and> n div 8 = k \<and> bit b (n mod 8)"
  proof -
    have "8 * k \<le> n \<and> n - 8 * k < 8 \<longleftrightarrow> n div 8 = k" by auto
    moreover have "n div 8 = k \<Longrightarrow> n - 8 * k = n mod 8"
      by (metis minus_mult_div_eq_mod)
    moreover have "bit b m \<Longrightarrow> m < 8" for m
      using bit_imp_le_length [of b m] by simp
    ultimately show ?thesis
      by (auto simp: bit_push_bit_iff bit_ucast_iff)
  qed
  show ?case
  proof (cases "n div 8 = k")
    case True
    then have "\<not> 8 * Suc k \<le> n" "8 * k \<le> n" by auto
    with True show ?thesis by (simp add: bit_or_iff head Cons.IH)
  next
    case False
    then have "8 * k \<le> n \<longleftrightarrow> 8 * Suc k \<le> n" by auto
    moreover have "8 * Suc k \<le> n \<Longrightarrow> n div 8 - k = Suc (n div 8 - Suc k)" by auto
    ultimately show ?thesis using False by (auto simp: bit_or_iff head Cons.IH)
  qed
qed

lemma le_or_bytes:
  fixes v :: "'a::len word"
  assumes "LENGTH('a) = 8 * n"
  shows "le_or 0 (map (\<lambda>i. ucast (drop_bit (8 * i) v AND 0xFF)) [0..<n]) = v"
proof (rule bit_word_eqI)
  fix m assume m: "m < LENGTH('a)"
  then have "m div 8 < n" using assms by auto
  moreover have "bit (0xFF :: 'a word) i \<longleftrightarrow> i < 8 \<and> i < LENGTH('a)" for i
  proof -
    have mask: "(0xFF :: 'a word) = mask 8" by (simp add: mask_eq_exp_minus_1)
    show ?thesis unfolding mask by (auto simp: bit_mask_iff)
  qed
  ultimately have "bit (0xFF :: 'a word) (m mod 8)" "m div 8 < n"
    using m by (auto simp del: of_nat_numeral intro: le_less_trans [OF mod_less_eq_dividend])
  moreover have "8 * (m div 8) + m mod 8 = m" by simp
  moreover have "m mod 8 < LENGTH('a)" using m by (metis le_less_trans mod_less_eq_dividend)
  ultimately show "bit (le_or 0 (map (\<lambda>i. ucast (drop_bit (8 * i) v AND 0xFF)) [0..<n]) :: 'a word) m = bit v m"
    using m by (simp add: bit_le_or bit_ucast_iff bit_and_iff bit_drop_bit_eq)
qed

lemma codes_u8 [codec_simps]: "codes get_u8 (put_u8 v) v"
  unfolding get_u8_def put_u8_def using codes_map [OF codes_take, of "[v]" 1 hd] by simp

lemma codes_u32 [codec_simps]: "codes get_u32 (put_u32 v) v"
proof -
  have "codes get_u32 (put_u32 v) (le_or 0 (put_u32 v))"
    unfolding get_u32_def by (intro codes_map codes_take) (simp add: put_u32_def)
  then show ?thesis unfolding put_u32_def by (simp add: le_or_bytes)
qed

lemma codes_u64 [codec_simps]: "codes get_u64 (put_u64 v) v"
proof -
  have "codes get_u64 (put_u64 v) (le_or 0 (put_u64 v))"
    unfolding get_u64_def by (intro codes_map codes_take) (simp add: put_u64_def)
  then show ?thesis unfolding put_u64_def by (simp add: le_or_bytes)
qed

lemma codes_bool [codec_simps]: "codes get_bool (put_bool b) b"
  unfolding get_bool_def put_bool_def
  using codes_map [OF codes_u8, of "\<lambda>b. b \<noteq> 0" "if b then 1 else 0"] by (cases b) simp_all

definition fits :: "'a list \<Rightarrow> bool" where
  "fits xs \<longleftrightarrow> length xs < 2 ^ 32"

lemma codes_size: "fits xs \<Longrightarrow> codes (f (length xs)) bs y \<Longrightarrow>
    codes (rseq get_u32 (\<lambda>n. f (unat n))) (put_size xs @ bs) y"
  unfolding put_size_def fits_def
  by (rule codes_seq [OF codes_u32]) (simp add: unat_of_nat)

lemma byte_char_inverse [simp]: "char_of_byte (byte_of_char c) = c"
proof -
  have "(of_char c :: nat) < 256" by (rule nat_of_char_less_256)
  then have "unat (word_of_nat (of_char c) :: u8) = of_char c" by (simp add: unat_of_nat)
  then show ?thesis by (simp add: char_of_byte_def byte_of_char_def)
qed

lemma codes_str [codec_simps]: "fits s \<Longrightarrow> codes get_str (put_str s) s"
proof -
  assume f: "fits s"
  have "codes (rseq (take_bytes (length s)) (\<lambda>bs. rret (map char_of_byte bs))) (map byte_of_char s)
      (map char_of_byte (map byte_of_char s))"
    by (intro codes_map codes_take) simp
  then have "codes (rseq (take_bytes (length s)) (\<lambda>bs. rret (map char_of_byte bs)))
      (map byte_of_char s) s"
    by (simp add: comp_def)
  then show ?thesis unfolding get_str_def put_str_def by (rule codes_size [OF f])
qed

section \<open>The codec contract and its lists\<close>

locale codec =
  fixes enc :: "'a \<Rightarrow> bytes" and dec :: "'a reader" and ok :: "'a \<Rightarrow> bool" and view :: "'a \<Rightarrow> 'a"
  assumes codes_one: "ok x \<Longrightarrow> codes dec (enc x) (view x)"
begin

lemma codes_many: "\<forall>x \<in> set xs. ok x \<Longrightarrow> codes (get_many (length xs) dec) (concat (map enc xs)) (map view xs)"
proof (induction xs)
  case Nil
  then show ?case by (simp add: codes_ret)
next
  case (Cons x xs)
  then have "codes (rseq dec (\<lambda>x. rseq (get_many (length xs) dec) (\<lambda>xs. rret (x # xs))))
      (enc x @ concat (map enc xs)) (view x # map view xs)"
    by (intro codes_seq [OF codes_one codes_map]) simp_all
  then show ?case by simp
qed

lemma codes_list:
  "fits xs \<Longrightarrow> \<forall>x \<in> set xs. ok x \<Longrightarrow> codes (get_list dec) (put_list enc xs) (map view xs)"
  unfolding get_list_def put_list_def by (intro codes_size codes_many)

end

interpretation u64s: codec put_u64 get_u64 "\<lambda>_. True" "\<lambda>x. x"
  by unfold_locales (rule codes_u64)

lemma codes_u64_list [codec_simps]: "fits xs \<Longrightarrow> codes (get_list get_u64) (put_list put_u64 xs) xs"
  using u64s.codes_list [of xs] by simp

fun value_fits :: "attr_value \<Rightarrow> bool" where
  "value_fits (AString s) = fits s"
| "value_fits (AIntArray vs) = fits vs"
| "value_fits (AFloatArray vs) = fits vs"
| "value_fits _ = True"

definition attr_fits :: "attribute \<Rightarrow> bool" where
  "attr_fits a \<longleftrightarrow> fits (a_key a) \<and> value_fits (a_value a)"

definition tensor_fits :: "tensor \<Rightarrow> bool" where
  "tensor_fits t \<longleftrightarrow> fits (t_name t) \<and> fits (t_shape t) \<and> fits (t_weight_ref t) \<and>
     dtype_ok (t_dtype t) \<and> hint_ok (t_storage_hint t)"

definition node_fits :: "node \<Rightarrow> bool" where
  "node_fits n \<longleftrightarrow> fits (n_name n) \<and> fits (n_op_name n) \<and> fits (n_op_version n) \<and>
     fits (n_inputs n) \<and> fits (n_outputs n) \<and> fits (n_attributes n) \<and>
     (\<forall>a \<in> set (n_attributes n). attr_fits a)"

text \<open>What comes back: the codec has no field for \<open>Tensor::quant_format\<close>.\<close>

definition binary_tensor :: "tensor \<Rightarrow> tensor" where
  "binary_tensor t = t\<lparr>t_quant_format := QF_F32\<rparr>"

definition binary_view :: "graph \<Rightarrow> graph" where
  "binary_view g = g\<lparr>g_tensors := map binary_tensor (g_tensors g)\<rparr>"

lemma codes_map_val: "codes rd bs x \<Longrightarrow> f x = y \<Longrightarrow> codes (rseq rd (\<lambda>x. rret (f x))) bs y"
  using codes_map [of rd bs x f] by simp

lemmas codec_rules = codes_u8 codes_u32 codes_u64 codes_bool codes_str codes_u64_list

lemma codes_value: "value_fits v \<Longrightarrow> codes (read_value (attr_type_code (value_type v))) (write_value v) v"
  by (cases v) (simp_all add: read_value_def codes_map codec_simps)

interpretation attrs: codec write_attr read_attr attr_fits "\<lambda>x. x"
proof
  fix a assume a: "attr_fits a"
  note fit = a [unfolded attr_fits_def]
  have last: "codes (rseq (read_value (attr_type_code (value_type (a_value a))))
      (\<lambda>v. rret (Attribute (a_key a) v))) (write_value (a_value a)) a"
    by (rule codes_map_val [OF codes_value]) (simp_all add: fit)
  show "codes read_attr (write_attr a) a"
    unfolding read_attr_def write_attr_def attribute_type_def
    by (rule codes_seq, rule codes_str, simp only: fit, rule codes_seq, rule codes_u8, rule last)
qed

interpretation tensors: codec write_tensor read_tensor tensor_fits binary_tensor
proof
  fix t assume t: "tensor_fits t"
  note fit = t [unfolded tensor_fits_def]
  show "codes read_tensor (write_tensor t) (binary_tensor t)"
    unfolding read_tensor_def write_tensor_def
    by ((rule codes_seq, (rule codec_rules; simp add: fit))+, rule codes_map_val,
        (rule codec_rules; simp add: fit), simp add: fit binary_tensor_def tensor_default_def)
qed

interpretation nodes: codec write_node read_node node_fits "\<lambda>x. x"
proof
  fix n assume n: "node_fits n"
  then have "codes (get_list read_attr) (put_list write_attr (n_attributes n)) (n_attributes n)"
    using attrs.codes_list [of "n_attributes n"] by (simp add: node_fits_def)
  note as = this and fit = n [unfolded node_fits_def]
  show "codes read_node (write_node n) n"
    unfolding read_node_def write_node_def
    by ((rule codes_seq, (rule codec_rules; simp add: fit))+, rule codes_map_val, rule as, simp)
qed

interpretation metas: codec write_meta read_meta "\<lambda>kv. fits (fst kv) \<and> fits (snd kv)" "\<lambda>x. x"
proof
  fix kv :: "string \<times> string" assume kv: "fits (fst kv) \<and> fits (snd kv)"
  show "codes read_meta (write_meta kv) kv"
    unfolding read_meta_def write_meta_def
    by (rule codes_seq, rule codes_str, simp only: kv, rule codes_map_val, rule codes_str)
      (simp_all add: kv)
qed

section \<open>Round trip\<close>

definition graph_fits :: "graph \<Rightarrow> bool" where
  "graph_fits g \<longleftrightarrow> is_compatible (g_version g) \<and> fits (g_name g) \<and> fits (g_producer g) \<and>
     fits (g_domain g) \<and> fits (g_tensors g) \<and> (\<forall>t \<in> set (g_tensors g). tensor_fits t) \<and>
     fits (g_nodes g) \<and> (\<forall>n \<in> set (g_nodes g). node_fits n) \<and> fits (g_inputs g) \<and>
     fits (g_outputs g) \<and> fits (g_metadata g) \<and>
     (\<forall>kv \<in> set (g_metadata g). fits (fst kv) \<and> fits (snd kv)) \<and>
     distinct (map fst (g_metadata g))"

lemma put_all_distinct: "distinct (map fst m) \<Longrightarrow> put_all m = m"
proof -
  have "distinct (map fst (acc @ m)) \<Longrightarrow> fold (\<lambda>(k, v). map_put k v) m acc = acc @ m" for acc
  proof (induction m arbitrary: acc)
    case (Cons kv m)
    then have "map_put (fst kv) (snd kv) acc = acc @ [kv]"
      by (subst map_put_new) auto
    with Cons.IH [of "acc @ [kv]"] Cons.prems show ?case by (simp add: case_prod_beta)
  qed simp
  from this [of "[]"] show "distinct (map fst m) \<Longrightarrow> put_all m = m" by (simp add: put_all_def)
qed

definition binary_fields :: "graph \<Rightarrow> bytes" where
  "binary_fields g =
     put_u32 (ver_major (g_version g)) @ put_u32 (ver_minor (g_version g)) @
     put_str (g_name g) @ put_str (g_producer g) @ put_str (g_domain g) @
     put_list write_tensor (g_tensors g) @ put_list write_node (g_nodes g) @
     put_list put_u64 (g_inputs g) @ put_list put_u64 (g_outputs g) @
     put_list write_meta (g_metadata g)"

lemma graph_to_binary_split: "graph_to_binary g = binary_magic @ put_u32 1 @ binary_fields g"
  by (simp add: graph_to_binary_def binary_fields_def)

lemma codes_graph_fields:
  assumes "graph_fits g"
  shows "codes read_graph_fields (binary_fields g) (binary_view g)"
proof -
  have lists: "codes (get_list read_tensor) (put_list write_tensor (g_tensors g))
      (map binary_tensor (g_tensors g))"
    "codes (get_list read_node) (put_list write_node (g_nodes g)) (g_nodes g)"
    "codes (get_list read_meta) (put_list write_meta (g_metadata g)) (g_metadata g)"
    using assms tensors.codes_list nodes.codes_list [of "g_nodes g"]
      metas.codes_list [of "g_metadata g"]
    by (simp_all add: graph_fits_def)
  have v: "check_compatible (IrVersion (ver_major (g_version g)) (ver_minor (g_version g))) = Inr ()"
    using assms by (simp add: graph_fits_def check_compatible_def)
  note fit = assms [unfolded graph_fits_def]
  show ?thesis
    unfolding read_graph_fields_def binary_fields_def
    by (rule codes_seq, rule codes_u32, rule codes_seq, rule codes_u32, simp only: v sum.case,
        (rule codes_seq, ((rule codec_rules lists)+; simp add: fit))+, rule codes_map_val,
        rule lists, simp add: fit binary_view_def put_all_distinct)
qed

lemma magic_length [simp]: "length binary_magic = 4" "length (put_u32 v) = 4" "length (put_u64 w) = 8"
  by (simp_all add: binary_magic_def put_u32_def put_u64_def)

lemma length_binary_fields: "8 \<le> length (binary_fields g)"
  by (simp add: binary_fields_def)

lemma codes_graph:
  assumes "graph_fits g"
  shows "codes (rseq (take_bytes 4) (\<lambda>_. rseq get_u32 (\<lambda>codec. if codec \<noteq> 1
       then rfail (Error InvalidArgument
         (''unsupported UAII binary codec version '' @ u64_dec codec))
       else read_graph_fields))) (graph_to_binary g) (binary_view g)"
  unfolding graph_to_binary_split
  by (rule codes_seq [OF codes_take]) (simp, rule codes_seq [OF codes_u32],
      simp add: codes_graph_fields [OF assms])

text \<open>C14. Reading what \<open>graph_to_binary\<close> wrote, with any bytes behind it, succeeds and
  gives back the same graph in every field except that each tensor's quantisation format is
  reset to F32.  The hypothesis \<open>graph_fits\<close> asks for sizes below 2^32, a supported version,
  values of the C++ enums and metadata with one entry for each key.\<close>

theorem binary_roundtrip:
  assumes "graph_fits g"
  shows "graph_from_binary (graph_to_binary g @ extra) = Inr (binary_view g)"
proof -
  have "16 \<le> length (graph_to_binary g @ extra)"
    using length_binary_fields [of g] by (simp add: graph_to_binary_split)
  moreover have "take 4 (graph_to_binary g @ extra) = binary_magic"
    by (simp add: graph_to_binary_split)
  ultimately show ?thesis
    unfolding graph_from_binary_def using codes_exact [OF codes_graph [OF assms], of extra]
    by simp
qed

text \<open>C19. A file cut short anywhere is refused: no proper prefix of an encoded graph
  is read as a graph.\<close>

theorem binary_truncated:
  assumes "graph_fits g" and "graph_to_binary g = p @ q" and "q \<noteq> []"
  shows "graph_from_binary p = Inl eof \<or> graph_from_binary p = Inl not_binary_error"
  using codes_prefix [OF codes_graph [OF assms(1), unfolded assms(2)] assms(3)]
  unfolding graph_from_binary_def by simp

definition packed_graph :: graph where
  "packed_graph = graph_default\<lparr>g_name := ''g'', g_tensors :=
     [tensor_default\<lparr>t_id := 1, t_name := ''w'', t_dtype := DT_F32, t_shape := [32],
        t_is_weight := True, t_storage_hint := SH_External, t_weight_ref := ''m#w'',
        t_quant_format := QF_Q4_0\<rparr>],
     g_nodes := [\<lparr>n_id = 1, n_name = ''n'', n_op_name = ''Identity'', n_op_version = ''1'',
       n_inputs = [1], n_outputs = [1], n_attributes = [make_int_attr ''axis'' (-1)]\<rparr>],
     g_outputs := [1], g_metadata := [(''k'', ''v'')]\<rparr>"

lemma packed_graph_fits: "graph_fits packed_graph"
  by (simp add: graph_fits_def packed_graph_def graph_default_def tensor_default_def fits_def
      tensor_fits_def node_fits_def attr_fits_def make_int_attr_def dtype_ok_def hint_ok_def
      is_compatible_def)

theorem binary_roundtrip_witness:
  "\<exists>g'. graph_from_binary (graph_to_binary packed_graph) = Inr g' \<and>
     g_name g' = ''g'' \<and> map t_quant_format (g_tensors g') = [QF_F32] \<and>
     map t_quant_format (g_tensors packed_graph) = [QF_Q4_0]"
  using binary_roundtrip [OF packed_graph_fits, of "[]"]
  by (simp add: binary_view_def) (simp add: packed_graph_def tensor_default_def binary_tensor_def)

theorem binary_truncated_witness:
  "\<not> is_ok (graph_from_binary (butlast (graph_to_binary packed_graph)))"
proof -
  have "graph_to_binary packed_graph \<noteq> []"
    by (simp add: graph_to_binary_split binary_magic_def)
  then show ?thesis
    using binary_truncated [OF packed_graph_fits, of "butlast (graph_to_binary packed_graph)"
        "[last (graph_to_binary packed_graph)]"]
    by auto
qed

end
