(* ===== verification/Double_Text.thy ===== *)
theory Double_Text
  imports Prelude
begin

text \<open>
  The part of C++ \<open>double\<close> arithmetic the serialisers use, on 64-bit IEEE-754 patterns:
  conversion from and to integers (\<open>static_cast\<close>), \<open>std::stod\<close>, and \<open>operator<<\<close> with its
  default precision of six significant digits.  Conversions round to nearest, ties to even;
  values are computed exactly as ratios of natural numbers.
\<close>

section \<open>The format\<close>

definition f64_make :: "bool \<Rightarrow> nat \<Rightarrow> f64" where
  "f64_make s b = word_of_nat ((if s then 2 ^ 63 else 0) + b)"

definition f64_neg :: "f64 \<Rightarrow> bool" where
  "f64_neg x \<longleftrightarrow> 2 ^ 63 \<le> unat x"

definition f64_bits :: "f64 \<Rightarrow> nat" where
  "f64_bits x = unat x mod 2 ^ 63"

definition f64_expo :: "f64 \<Rightarrow> nat" where
  "f64_expo x = f64_bits x div 2 ^ 52"

definition f64_mant :: "f64 \<Rightarrow> nat" where
  "f64_mant x = f64_bits x mod 2 ^ 52"

text \<open>The magnitude of a finite value as a ratio.\<close>

definition f64_ratio :: "f64 \<Rightarrow> nat \<times> nat" where
  "f64_ratio x =
     (if f64_expo x = 0 then (f64_mant x, 2 ^ 1074)
      else if 1075 \<le> f64_expo x then ((2 ^ 52 + f64_mant x) * 2 ^ (f64_expo x - 1075), 1)
      else (2 ^ 52 + f64_mant x, 2 ^ (1075 - f64_expo x)))"

lemma div_mod_pack: "m < c \<Longrightarrow> (a * c + m) div c = a" "m < c \<Longrightarrow> (a * c + m) mod c = (m::nat)"
  by simp_all

lemma f64_make_parts:
  assumes "b < 2 ^ 63"
  shows "f64_neg (f64_make s b) = s" "f64_bits (f64_make s b) = b"
proof -
  have "unat (word_of_nat n :: f64) = n" if "n < 2 ^ 64" for n
    using that by (simp add: unat_of_nat)
  from this [of "(if s then 2 ^ 63 else 0) + b"]
  have "unat (f64_make s b) = (if s then 2 ^ 63 else 0) + b"
    unfolding f64_make_def using assms by fastforce
  with assms show "f64_neg (f64_make s b) = s" "f64_bits (f64_make s b) = b"
    by (auto simp: f64_neg_def f64_bits_def)
qed

section \<open>Rounding\<close>

fun nat_log2 :: "nat \<Rightarrow> nat" where
  "nat_log2 n = (if n < 2 then 0 else Suc (nat_log2 (n div 2)))"

declare nat_log2.simps [simp del]

lemma nat_log2_bounds: "0 < n \<Longrightarrow> 2 ^ nat_log2 n \<le> n \<and> n < 2 * 2 ^ nat_log2 n"
proof (induction n rule: nat_log2.induct)
  case (1 n)
  show ?case
  proof (cases "n < 2")
    case True
    with 1 show ?thesis by (simp add: nat_log2.simps [of n])
  next
    case False
    then have "2 ^ nat_log2 (n div 2) \<le> n div 2 \<and> n div 2 < 2 * 2 ^ nat_log2 (n div 2)"
      using 1 by simp
    then have "2 * 2 ^ nat_log2 (n div 2) \<le> n \<and> n < 2 * (2 * 2 ^ nat_log2 (n div 2))"
      by linarith
    with False show ?thesis by (simp add: nat_log2.simps [of n])
  qed
qed

lemma nat_log2_less: "0 < n \<Longrightarrow> n < 2 ^ k \<Longrightarrow> nat_log2 n < k"
  using nat_log2_bounds [of n] power_less_imp_less_exp [of "2::nat" "nat_log2 n" k] by linarith

definition round_half_even :: "nat \<Rightarrow> nat \<Rightarrow> nat" where
  "round_half_even n d = (let q = n div d; r = n mod d in
     if d < 2 * r \<or> (2 * r = d \<and> odd q) then q + 1 else q)"

lemma round_half_even_1 [simp]: "round_half_even n (Suc 0) = n"
  by (simp add: round_half_even_def)

text \<open>The exponent \<open>l\<close> with \<open>2^l <= n/d < 2^(l+1)\<close>.\<close>

definition log2_ratio :: "nat \<Rightarrow> nat \<Rightarrow> int" where
  "log2_ratio n d = (let l = int (nat_log2 n) - int (nat_log2 d) in
     if (if 0 \<le> l then d * 2 ^ nat l \<le> n else d \<le> n * 2 ^ nat (- l)) then l else l - 1)"

text \<open>The bits of the nearest double; 2047 * 2^52 and above is an overflow.\<close>

definition round_ratio :: "nat \<Rightarrow> nat \<Rightarrow> nat" where
  "round_ratio n d =
     (if n = 0 then 0
      else let u = max (log2_ratio n d) (- 1022) - 52 in
        nat (u + 1074) * 2 ^ 52 +
        (if 0 \<le> u then round_half_even n (d * 2 ^ nat u) else round_half_even (n * 2 ^ nat (- u)) d))"

definition inf_bits :: nat where "inf_bits = 2047 * 2 ^ 52"

section \<open>Integers and doubles\<close>

definition f64_of_nat :: "nat \<Rightarrow> f64" where
  "f64_of_nat n = f64_make False (round_ratio n 1)"

definition f64_of_int :: "int \<Rightarrow> f64" where
  "f64_of_int i = f64_make (i < 0) (round_ratio (nat (abs i)) 1)"

text \<open>Truncation towards zero; infinities and NaNs have none.\<close>

definition f64_trunc :: "f64 \<Rightarrow> int option" where
  "f64_trunc x = (if f64_bits x < inf_bits
     then Some (let (n, d) = f64_ratio x; i = int (n div d) in if f64_neg x then - i else i)
     else None)"

text \<open>\<open>isfinite(x) && floor(x) == x && abs(x) < 1e15\<close>, with the value as an integer.\<close>

definition f64_small_int :: "f64 \<Rightarrow> int option" where
  "f64_small_int x = (if f64_bits x < inf_bits
     then let (n, d) = f64_ratio x; i = int (n div d) in
       if n mod d = 0 \<and> i < 10 ^ 15 then Some (if f64_neg x then - i else i) else None
     else None)"

lemma round_ratio_nat:
  assumes "0 < n" and "n < 2 ^ 53"
  defines "k \<equiv> nat_log2 n"
  shows "round_ratio n 1 = (k + 1022) * 2 ^ 52 + n * 2 ^ (52 - k)" and "k \<le> 52"
    and "2 ^ 52 \<le> n * 2 ^ (52 - k)" and "n * 2 ^ (52 - k) < 2 ^ 53"
proof -
  have k: "2 ^ k \<le> n" "n < 2 * 2 ^ k" using nat_log2_bounds [OF assms(1)] by (simp_all add: k_def)
  show le: "k \<le> 52" using nat_log2_less [OF assms(1,2)] by (simp add: k_def)
  have one: "nat_log2 1 = 0" by (simp add: nat_log2.simps)
  have l: "log2_ratio n 1 = int k"
    using k(1) by (simp add: log2_ratio_def k_def [symmetric] one [simplified])
  have "int k - 52 \<ge> -1074" "nat (int k - 52 + 1074) = k + 1022" by simp_all
  moreover have "nat (52 - int k) = 52 - k" by simp
  ultimately show "round_ratio n 1 = (k + 1022) * 2 ^ 52 + n * 2 ^ (52 - k)"
    using le assms(1) unfolding round_ratio_def l by (auto simp: Let_def max_def)
  have e: "(2::nat) ^ 52 = 2 ^ k * 2 ^ (52 - k)" using le by (simp flip: power_add)
  show "2 ^ 52 \<le> n * 2 ^ (52 - k)" unfolding e using k(1) by simp
  have "n * 2 ^ (52 - k) < 2 * 2 ^ k * 2 ^ (52 - k)" using k(2) by simp
  also have "\<dots> = 2 ^ 53" using e by simp
  finally show "n * 2 ^ (52 - k) < 2 ^ 53" .
qed

lemma round_ratio_0 [simp]: "round_ratio 0 d = 0"
  by (simp add: round_ratio_def)

text \<open>An integer below 2^53 is a double: its magnitude is the ratio the format gives back.\<close>

lemma f64_of_int_exact:
  assumes "nat (abs i) < 2 ^ 53"
  shows "f64_neg (f64_of_int i) \<longleftrightarrow> i < 0" and "f64_bits (f64_of_int i) < inf_bits"
    and "round_ratio (nat (abs i)) 1 < inf_bits"
    and "\<exists>n d. f64_ratio (f64_of_int i) = (n, d) \<and> n div d = nat (abs i) \<and> n mod d = 0"
proof -
  define n where "n = nat (abs i)"
  define b where "b = round_ratio n 1"
  define k where "k = nat_log2 n"
  have b: "b < inf_bits \<and> (b = 0 \<and> n = 0 \<or> b div 2 ^ 52 = k + 1023 \<and> k \<le> 52 \<and>
      2 ^ 52 + b mod 2 ^ 52 = n * 2 ^ (52 - k))"
  proof (cases "n = 0")
    case True
    then show ?thesis by (simp add: b_def inf_bits_def)
  next
    case False
    define m where "m = n * 2 ^ (52 - k) - 2 ^ 52"
    have r: "b = (k + 1022) * 2 ^ 52 + n * 2 ^ (52 - k)" "k \<le> 52"
      "2 ^ 52 \<le> n * 2 ^ (52 - k)" "n * 2 ^ (52 - k) < 2 ^ 53"
      using round_ratio_nat [of n, folded k_def b_def] False assms [folded n_def] by blast+
    have m: "m < 2 ^ 52" "n * 2 ^ (52 - k) = 2 ^ 52 + m" using r(3,4) by (simp_all add: m_def)
    have b: "b = (k + 1023) * 2 ^ 52 + m" using r(1) m(2) by (simp add: algebra_simps)
    have e: "b div 2 ^ 52 = k + 1023" and mm: "b mod 2 ^ 52 = m"
      using div_mod_pack [OF m(1), of "k + 1023"] by (simp_all only: b)
    have "b < (k + 1024) * 2 ^ 52" using b m(1) by (simp add: algebra_simps)
    also have "\<dots> \<le> inf_bits" unfolding inf_bits_def using r(2) by (intro mult_right_mono) auto
    finally show ?thesis using e mm m(2) r(2) by simp
  qed
  have lt: "b < 2 ^ 63" using b by (simp add: inf_bits_def)
  have eq: "f64_of_int i = f64_make (i < 0) b" by (simp add: f64_of_int_def b_def n_def)
  show "f64_neg (f64_of_int i) \<longleftrightarrow> i < 0" using f64_make_parts [OF lt] by (simp add: eq)
  show "f64_bits (f64_of_int i) < inf_bits" using f64_make_parts [OF lt] b by (simp add: eq)
  show "round_ratio (nat (abs i)) 1 < inf_bits" using b by (simp add: b_def n_def)
  have bits: "f64_bits (f64_of_int i) = b" using f64_make_parts [OF lt] by (simp add: eq)
  consider "b = 0" "n = 0" | "b div 2 ^ 52 = k + 1023" "k < 52" "2 ^ 52 + b mod 2 ^ 52 = n * 2 ^ (52 - k)"
    | "b div 2 ^ 52 = 1075" "2 ^ 52 + b mod 2 ^ 52 = n"
    using b by (cases "k = 52") auto
  then show "\<exists>n d. f64_ratio (f64_of_int i) = (n, d) \<and> n div d = nat (abs i) \<and> n mod d = 0"
  proof cases
    case 1
    then show ?thesis unfolding f64_ratio_def f64_expo_def f64_mant_def bits n_def [symmetric]
      by simp
  next
    case 2
    then show ?thesis unfolding f64_ratio_def f64_expo_def f64_mant_def bits n_def [symmetric]
      by simp
  next
    case 3
    then show ?thesis unfolding f64_ratio_def f64_expo_def f64_mant_def bits n_def [symmetric]
      by simp
  qed
qed

lemma f64_trunc_of_int:
  assumes "abs i < 2 ^ 53"
  shows "f64_trunc (f64_of_int i) = Some i"
proof -
  have "nat (abs i) < 2 ^ 53" using assms by (simp add: nat_less_iff)
  from f64_of_int_exact [OF this] show ?thesis by (auto simp: f64_trunc_def Let_def)
qed

lemma f64_small_int_of_int:
  assumes "abs i < 10 ^ 15"
  shows "f64_small_int (f64_of_int i) = Some i"
proof -
  have "nat (abs i) < 2 ^ 53" using assms by (simp add: nat_less_iff)
  from f64_of_int_exact [OF this] show ?thesis using assms by (auto simp: f64_small_int_def Let_def)
qed

text \<open>\<open>static_cast\<close> to the integer types.  Outside the target's range the conversion is undefined
  in C++; \<open>oor\<close> is whatever the implementation does there.\<close>

type_synonym out_of_range = "f64 \<Rightarrow> u64"

definition f64_to_u64 :: "out_of_range \<Rightarrow> f64 \<Rightarrow> u64" where
  "f64_to_u64 oor x = (case f64_trunc x of
     Some i \<Rightarrow> if 0 \<le> i \<and> i < 2 ^ 64 then word_of_int i else oor x | None \<Rightarrow> oor x)"

definition f64_to_i64 :: "out_of_range \<Rightarrow> f64 \<Rightarrow> i64" where
  "f64_to_i64 oor x = (case f64_trunc x of
     Some i \<Rightarrow> if - (2 ^ 63) \<le> i \<and> i < 2 ^ 63 then word_of_int i else oor x | None \<Rightarrow> oor x)"

definition f64_to_u32 :: "out_of_range \<Rightarrow> f64 \<Rightarrow> u32" where
  "f64_to_u32 oor x = (case f64_trunc x of
     Some i \<Rightarrow> if 0 \<le> i \<and> i < 2 ^ 32 then word_of_int i else ucast (oor x) | None \<Rightarrow> ucast (oor x))"

definition f64_of_u64 :: "'a::len word \<Rightarrow> f64" where
  "f64_of_u64 w = f64_of_int (uint w)"

definition f64_of_i64 :: "i64 \<Rightarrow> f64" where
  "f64_of_i64 w = f64_of_int (sint w)"

lemma f64_u64_roundtrip: "uint (w :: u64) < 2 ^ 53 \<Longrightarrow> f64_to_u64 oor (f64_of_u64 w) = w"
  by (simp add: f64_to_u64_def f64_of_u64_def f64_trunc_of_int)

lemma f64_i64_roundtrip: "abs (sint w) < 2 ^ 53 \<Longrightarrow> f64_to_i64 oor (f64_of_i64 w) = w"
  by (simp add: f64_to_i64_def f64_of_i64_def f64_trunc_of_int abs_less_iff)

lemma f64_u32_roundtrip: "f64_to_u32 oor (f64_of_u64 (w :: u32)) = w"
  using uint_bounded [of w] by (simp add: f64_to_u32_def f64_of_u64_def f64_trunc_of_int)

section \<open>Decimal text\<close>

definition digit_value :: "char \<Rightarrow> nat" where
  "digit_value c = of_char c - 48"

definition digits_value :: "string \<Rightarrow> nat" where
  "digits_value s = foldl (\<lambda>n c. 10 * n + digit_value c) 0 s"

lemma digit_value_digit_char [simp]: "d < 10 \<Longrightarrow> digit_value (digit_char d) = d"
  by (simp add: digit_value_def digit_char_def of_char_of)

lemma digits_value_snoc [simp]: "digits_value (s @ [c]) = 10 * digits_value s + digit_value c"
  by (simp add: digits_value_def)

lemma digits_value_nat_dec [simp]: "digits_value (nat_dec n) = n"
proof (induction n rule: nat_dec.induct)
  case (1 n)
  show ?case
  proof (cases "n < 10")
    case True
    then show ?thesis by (subst nat_dec.simps) (simp add: digits_value_def)
  next
    case False
    then show ?thesis using 1 by (subst nat_dec.simps) simp
  qed
qed

text \<open>
  \<open>std::stod\<close> on a decimal literal with the given sign, digits and power of ten.  It throws
  \<open>std::out_of_range\<close> on overflow and on an inexact result below the normal range.
\<close>

definition decimal_ratio :: "nat \<Rightarrow> int \<Rightarrow> nat \<times> nat" where
  "decimal_ratio m e = (if 0 \<le> e then (m * 10 ^ nat e, 1) else (m, 10 ^ nat (- e)))"

definition stod_decimal :: "bool \<Rightarrow> nat \<Rightarrow> int \<Rightarrow> f64 option" where
  "stod_decimal neg m e = (let (n, d) = decimal_ratio m e; b = round_ratio n d in
     if inf_bits \<le> b then None
     else if n * 2 ^ 1022 < d \<and> n * 2 ^ 1074 mod d \<noteq> 0 then None
     else Some (f64_make neg b))"

lemma stod_decimal_int:
  assumes "abs i < 10 ^ 15"
  shows "stod_decimal (i < 0) (nat (abs i)) 0 = Some (f64_of_int i)"
proof -
  have "nat (abs i) < 2 ^ 53" using assms by (simp add: nat_less_iff)
  from f64_of_int_exact(3) [OF this] show ?thesis by (simp add: stod_decimal_def decimal_ratio_def f64_of_int_def)
qed

text \<open>\<open>operator<<\<close> with precision 6: six significant digits rounded half to even on the exact
  value, trailing zeros dropped, scientific form below 1e-4 and from 1e6 on.\<close>

definition log10_ratio :: "nat \<Rightarrow> nat \<Rightarrow> int" where
  "log10_ratio n d = (let l = int (length (nat_dec n)) - int (length (nat_dec d)) in
     if (if 0 \<le> l then d * 10 ^ nat l \<le> n else d \<le> n * 10 ^ nat (- l)) then l else l - 1)"

definition six_digits :: "nat \<Rightarrow> nat \<Rightarrow> nat \<times> int" where
  "six_digits n d = (let x = log10_ratio n d;
       q = (if x \<le> 5 then round_half_even (n * 10 ^ nat (5 - x)) d
            else round_half_even n (d * 10 ^ nat (x - 5)))
     in if q = 10 ^ 6 then (10 ^ 5, x + 1) else (q, x))"

definition strip_zeros :: "string \<Rightarrow> string" where
  "strip_zeros s = rev (dropWhile (\<lambda>c. c = CHR ''0'') (rev s))"

definition with_point :: "string \<Rightarrow> string \<Rightarrow> string" where
  "with_point a frac = (let f = strip_zeros frac in if f = [] then a else a @ ''.'' @ f)"

definition two_digits :: "nat \<Rightarrow> string" where
  "two_digits n = (if n < 10 then ''0'' else []) @ nat_dec n"

definition f64_text :: "f64 \<Rightarrow> string" where
  "f64_text x = (if f64_neg x then ''-'' else []) @
     (if f64_bits x = inf_bits then ''inf'' else if inf_bits < f64_bits x then ''nan''
      else let (n, d) = f64_ratio x in
        if n = 0 then ''0''
        else let (q, e) = six_digits n d; s = nat_dec q in
          if - 4 \<le> e \<and> e < 6
          then (if 0 \<le> e then with_point (take (nat e + 1) s) (drop (nat e + 1) s)
                else with_point ''0'' (replicate (nat (- e) - 1) CHR ''0'' @ s))
          else with_point (take 1 s) (drop 1 s) @ (if e < 0 then ''e-'' else ''e+'') @ two_digits (nat (abs e)))"

end
