(* ===== verification/Json.thy ===== *)
theory Json
  imports Double_Text "HOL-Library.Char_ord" "HOL-Library.List_Lexorder"
begin

text \<open>
  The JSON reader and writer of the IR (\<open>ir/json.hpp\<close>, \<open>json_util.cpp\<close>).  The parser's position is
  the part of the text still to be read; error messages report its offset, computed from the
  length \<open>N\<close> of the whole text.  The mutually recursive descent carries fuel; \<open>parse_returns\<close>
  shows that the fuel \<open>json_parse\<close> gives always suffices, so it is never \<open>None\<close>.
\<close>

section \<open>Values\<close>

datatype json =
    JNull | JBool bool | JNum f64 | JStr string | JArr "json list" | JObj "(string \<times> json) list"

text \<open>\<open>Object\<close> is a \<open>std::map\<close>: an association list in ascending order of the keys.\<close>

fun obj_put :: "string \<Rightarrow> 'v \<Rightarrow> (string \<times> 'v) list \<Rightarrow> (string \<times> 'v) list" where
  "obj_put k v [] = [(k, v)]"
| "obj_put k v ((a, b) # xs) =
     (if k < a then (k, v) # (a, b) # xs else if k = a then (k, v) # xs else (a, b) # obj_put k v xs)"

definition json_get :: "(string \<times> 'v) list \<Rightarrow> string \<Rightarrow> 'v option" where
  "json_get obj key = map_of obj key"

definition require_object :: "string \<Rightarrow> json \<Rightarrow> error + (string \<times> json) list" where
  "require_object ctx v = (case v of JObj obj \<Rightarrow> Inr obj
     | _ \<Rightarrow> Inl (Error InvalidArgument (ctx @ '': expected object'')))"

definition require_array :: "string \<Rightarrow> json \<Rightarrow> error + json list" where
  "require_array ctx v = (case v of JArr a \<Rightarrow> Inr a
     | _ \<Rightarrow> Inl (Error InvalidArgument (ctx @ '': expected array'')))"

section \<open>The parser\<close>

definition json_fail :: "nat \<Rightarrow> string \<Rightarrow> string \<Rightarrow> error" where
  "json_fail N r msg = Error InvalidArgument (''json@'' @ nat_dec (N - length r) @ '': '' @ msg)"

definition quoted :: "char \<Rightarrow> string" where
  "quoted c = [CHR 0x27, c, CHR 0x27]"

definition consume :: "char \<Rightarrow> string \<Rightarrow> string option" where
  "consume c r = (case skip_ws r of d # ds \<Rightarrow> if d = c then Some ds else None | [] \<Rightarrow> None)"

definition starts_digit :: "string \<Rightarrow> bool" where
  "starts_digit r \<longleftrightarrow> (case r of [] \<Rightarrow> False | c # _ \<Rightarrow> is_digit c)"

definition parse_null :: "nat \<Rightarrow> string \<Rightarrow> error + json \<times> string" where
  "parse_null N r = (if take 4 r = ''null'' then Inr (JNull, drop 4 r)
     else Inl (json_fail N r ''expected null''))"

definition parse_bool :: "nat \<Rightarrow> string \<Rightarrow> error + json \<times> string" where
  "parse_bool N r = (if take 4 r = ''true'' then Inr (JBool True, drop 4 r)
     else if take 5 r = ''false'' then Inr (JBool False, drop 5 r)
     else Inl (json_fail N r ''expected boolean''))"

definition scan_sign :: "string \<Rightarrow> bool \<times> string" where
  "scan_sign r = (case r of c # cs \<Rightarrow> if c = CHR ''-'' then (True, cs) else (False, r) | [] \<Rightarrow> (False, []))"

definition scan_integer :: "nat \<Rightarrow> string \<Rightarrow> error + string \<times> string" where
  "scan_integer N r = (if \<not> starts_digit r then Inl (json_fail N r ''invalid number'')
     else if hd r = CHR ''0'' then Inr ([hd r], tl r)
     else Inr (takeWhile is_digit r, dropWhile is_digit r))"

definition scan_fraction :: "nat \<Rightarrow> string \<Rightarrow> error + string \<times> string" where
  "scan_fraction N r = (case r of [] \<Rightarrow> Inr ([], r)
     | c # cs \<Rightarrow> if c \<noteq> CHR ''.'' then Inr ([], r)
         else if \<not> starts_digit cs then Inl (json_fail N cs ''invalid fraction'')
         else Inr (takeWhile is_digit cs, dropWhile is_digit cs))"

definition scan_exp_digits :: "nat \<Rightarrow> bool \<Rightarrow> string \<Rightarrow> error + int \<times> string" where
  "scan_exp_digits N neg r = (if \<not> starts_digit r then Inl (json_fail N r ''invalid exponent'')
     else Inr ((if neg then - int (digits_value (takeWhile is_digit r))
                else int (digits_value (takeWhile is_digit r))), dropWhile is_digit r))"

definition scan_exponent :: "nat \<Rightarrow> string \<Rightarrow> error + int \<times> string" where
  "scan_exponent N r = (case r of [] \<Rightarrow> Inr (0, r)
     | c # cs \<Rightarrow> if c \<noteq> CHR ''e'' \<and> c \<noteq> CHR ''E'' then Inr (0, r)
         else (case cs of [] \<Rightarrow> scan_exp_digits N False cs
           | d # ds \<Rightarrow> if d = CHR ''+'' then scan_exp_digits N False ds
               else if d = CHR ''-'' then scan_exp_digits N True ds
               else scan_exp_digits N False cs))"

definition parse_number :: "nat \<Rightarrow> string \<Rightarrow> error + json \<times> string" where
  "parse_number N r =
     (let (neg, r1) = scan_sign r in
      rbind (scan_integer N r1) (\<lambda>(ip, r2).
      rbind (scan_fraction N r2) (\<lambda>(fp, r3).
      rbind (scan_exponent N r3) (\<lambda>(e, r4).
        case stod_decimal neg (digits_value (ip @ fp)) (e - int (length fp)) of
          None \<Rightarrow> Inl (json_fail N r4 ''number parse failed'')
        | Some x \<Rightarrow> Inr (JNum x, r4)))))"

text \<open>\<open>\uXXXX\<close>: four hexadecimal digits, encoded as one to three bytes.\<close>

definition hex_value :: "char \<Rightarrow> nat option" where
  "hex_value c = (let n = of_char c in
     if 48 \<le> n \<and> n \<le> 57 then Some (n - 48) else if 97 \<le> n \<and> n \<le> 102 then Some (n - 87)
     else if 65 \<le> n \<and> n \<le> 70 then Some (n - 55) else None)"

fun hex_loop :: "nat \<Rightarrow> nat \<Rightarrow> nat \<Rightarrow> string \<Rightarrow> error + nat" where
  "hex_loop N 0 code r = Inr code"
| "hex_loop N (Suc k) code [] = Inl (json_fail N [] ''invalid unicode escape'')"
| "hex_loop N (Suc k) code (c # r) = (case hex_value c of
     None \<Rightarrow> Inl (json_fail N r ''invalid unicode escape'')
   | Some h \<Rightarrow> hex_loop N k (code * 16 + h) r)"

definition utf8_bytes :: "nat \<Rightarrow> string" where
  "utf8_bytes code =
     (if code < 128 then [char_of code]
      else if code < 2048 then [char_of (192 + code div 64), char_of (128 + code mod 64)]
      else [char_of (224 + code div 4096), char_of (128 + code div 64 mod 64), char_of (128 + code mod 64)])"

definition escape_value :: "char \<Rightarrow> char option" where
  "escape_value e =
     (if e = CHR 0x22 \<or> e = CHR 0x5C \<or> e = CHR ''/'' then Some e
      else if e = CHR ''b'' then Some (CHR 0x08) else if e = CHR ''f'' then Some (CHR 0x0C)
      else if e = CHR ''n'' then Some (CHR 0x0A) else if e = CHR ''r'' then Some (CHR 0x0D)
      else if e = CHR ''t'' then Some (CHR 0x09) else None)"

fun scan_string :: "nat \<Rightarrow> string \<Rightarrow> string \<Rightarrow> error + json \<times> string" where
  "scan_string N s [] = Inl (json_fail N [] ''unterminated string'')"
| "scan_string N s (c # r) =
     (if c = CHR 0x22 then Inr (JStr s, r)
      else if c = CHR 0x5C then
        (case r of [] \<Rightarrow> Inl (json_fail N [] ''unterminated escape'')
         | e # r1 \<Rightarrow>
             if e = CHR ''u'' then
               (if length r1 < 4 then Inl (json_fail N r1 ''invalid unicode escape'')
                else case hex_loop N 4 0 r1 of Inl err \<Rightarrow> Inl err
                  | Inr code \<Rightarrow> scan_string N (s @ utf8_bytes code) (drop 4 r1))
             else (case escape_value e of None \<Rightarrow> Inl (json_fail N r1 ''invalid escape'')
                  | Some d \<Rightarrow> scan_string N (s @ [d]) r1))
      else scan_string N (s @ [c]) r)"

type_synonym 'a parsed = "(error + 'a \<times> string) option"

definition pbind :: "'a parsed \<Rightarrow> ('a \<Rightarrow> string \<Rightarrow> 'b parsed) \<Rightarrow> 'b parsed" where
  "pbind m f = (case m of None \<Rightarrow> None | Some (Inl e) \<Rightarrow> Some (Inl e) | Some (Inr (x, r)) \<Rightarrow> f x r)"

lemma pbind_simps [simp]:
  "pbind None f = None" "pbind (Some (Inl e)) f = Some (Inl e)" "pbind (Some (Inr (x, r))) f = f x r"
  by (simp_all add: pbind_def)

lemma pbind_cong [fundef_cong]:
  "m = m' \<Longrightarrow> (\<And>x r. m' = Some (Inr (x, r)) \<Longrightarrow> f x r = f' x r) \<Longrightarrow> pbind m f = pbind m' f'"
  by (auto simp: pbind_def split: option.splits sum.splits)

fun parse_value :: "nat \<Rightarrow> nat \<Rightarrow> string \<Rightarrow> json parsed"
and parse_items :: "nat \<Rightarrow> nat \<Rightarrow> json list \<Rightarrow> string \<Rightarrow> json parsed"
and parse_members :: "nat \<Rightarrow> nat \<Rightarrow> (string \<times> json) list \<Rightarrow> string \<Rightarrow> json parsed" where
  "parse_value N 0 r = None"
| "parse_value N (Suc n) r = (case skip_ws r of
       [] \<Rightarrow> Some (Inl (json_fail N [] ''unexpected end of input''))
     | c # cs \<Rightarrow>
         if c = CHR ''n'' then Some (parse_null N (c # cs))
         else if c = CHR ''t'' \<or> c = CHR ''f'' then Some (parse_bool N (c # cs))
         else if c = CHR 0x22 then Some (scan_string N [] cs)
         else if c = CHR ''['' then (case consume CHR '']'' cs of
             Some r1 \<Rightarrow> Some (Inr (JArr [], r1)) | None \<Rightarrow> parse_items N n [] (skip_ws cs))
         else if c = CHR ''{'' then (case consume CHR ''}'' cs of
             Some r1 \<Rightarrow> Some (Inr (JObj [], r1)) | None \<Rightarrow> parse_members N n [] (skip_ws cs))
         else if c = CHR ''-'' \<or> is_digit c then Some (parse_number N (c # cs))
         else Some (Inl (json_fail N (c # cs) (''unexpected character '' @ quoted c))))"
| "parse_items N 0 acc r = None"
| "parse_items N (Suc n) acc r = pbind (parse_value N n r) (\<lambda>v r1.
     case consume CHR '']'' r1 of Some r2 \<Rightarrow> Some (Inr (JArr (acc @ [v]), r2))
     | None \<Rightarrow> (case consume CHR '','' r1 of Some r2 \<Rightarrow> parse_items N n (acc @ [v]) r2
         | None \<Rightarrow> Some (Inl (json_fail N (skip_ws r1) (''expected '' @ quoted CHR '','' @ '' or '' @ quoted CHR '']'' @ '' in array'')))))"
| "parse_members N 0 acc r = None"
| "parse_members N (Suc n) acc r = pbind (parse_value N n r) (\<lambda>kv r1. case kv of
       JStr k \<Rightarrow> (case consume CHR '':'' r1 of
           None \<Rightarrow> Some (Inl (json_fail N (skip_ws r1) (''expected '' @ quoted CHR '':'')))
         | Some r2 \<Rightarrow> pbind (parse_value N n r2) (\<lambda>v r3.
             case consume CHR ''}'' r3 of Some r4 \<Rightarrow> Some (Inr (JObj (obj_put k v acc), r4))
             | None \<Rightarrow> (case consume CHR '','' r3 of Some r4 \<Rightarrow> parse_members N n (obj_put k v acc) r4
                 | None \<Rightarrow> Some (Inl (json_fail N (skip_ws r3) (''expected '' @ quoted CHR '','' @ '' or '' @ quoted CHR ''}'' @ '' in object''))))))
     | _ \<Rightarrow> Some (Inl (json_fail N r1 ''object key must be string'')))"

declare parse_value.simps(2) [simp del] parse_items.simps(2) [simp del] parse_members.simps(2) [simp del]

definition parse_fuel :: "string \<Rightarrow> nat" where
  "parse_fuel text = 2 * length text + 1"

definition json_parse :: "string \<Rightarrow> (error + json) option" where
  "json_parse text = (let N = length text in
     case parse_value N (parse_fuel text) text of None \<Rightarrow> None
     | Some (Inl e) \<Rightarrow> Some (Inl e)
     | Some (Inr (v, r)) \<Rightarrow> Some (if skip_ws r = [] then Inr v
         else Inl (json_fail N (skip_ws r) ''trailing characters after JSON value'')))"

section \<open>The writer\<close>

definition hex_digit :: "nat \<Rightarrow> char" where
  "hex_digit d = (if d < 10 then char_of (48 + d) else char_of (87 + d))"

definition escaped_char :: "char \<Rightarrow> string" where
  "escaped_char c =
     (if c = CHR 0x22 then [CHR 0x5C, c] else if c = CHR 0x5C then [c, c]
      else if c = CHR 0x08 then [CHR 0x5C, CHR ''b''] else if c = CHR 0x0C then [CHR 0x5C, CHR ''f'']
      else if c = CHR 0x0A then [CHR 0x5C, CHR ''n''] else if c = CHR 0x0D then [CHR 0x5C, CHR ''r'']
      else if c = CHR 0x09 then [CHR 0x5C, CHR ''t'']
      else if of_char c < (32 :: nat)
        then CHR 0x5C # ''u00'' @ [hex_digit (of_char c div 16), hex_digit (of_char c mod 16)]
      else [c])"

definition write_escaped :: "string \<Rightarrow> string" where
  "write_escaped s = CHR 0x22 # concat (map escaped_char s) @ [CHR 0x22]"

definition number_text :: "f64 \<Rightarrow> string" where
  "number_text x = (case f64_small_int x of Some i \<Rightarrow> int_dec i | None \<Rightarrow> f64_text x)"

definition pad :: "bool \<Rightarrow> nat \<Rightarrow> string" where
  "pad pretty n = (if pretty then replicate (2 * n) CHR '' '' else [])"

definition nl :: "bool \<Rightarrow> string" where
  "nl b = (if b then [CHR 0x0A] else [])"

lemma nl_simps [simp]: "nl False = []" "nl True = [CHR 0x0A]"
  by (simp_all add: nl_def)

fun dump :: "bool \<Rightarrow> nat \<Rightarrow> json \<Rightarrow> string"
and dump_items :: "bool \<Rightarrow> nat \<Rightarrow> json list \<Rightarrow> string"
and dump_members :: "bool \<Rightarrow> nat \<Rightarrow> (string \<times> json) list \<Rightarrow> string" where
  "dump p i JNull = ''null''"
| "dump p i (JBool b) = (if b then ''true'' else ''false'')"
| "dump p i (JNum x) = number_text x"
| "dump p i (JStr s) = write_escaped s"
| "dump p i (JArr vs) = CHR ''['' # nl (p \<and> vs \<noteq> []) @ dump_items p (Suc i) vs @
     (if vs \<noteq> [] then pad p i else []) @ '']''"
| "dump p i (JObj kvs) = CHR ''{'' # nl (p \<and> kvs \<noteq> []) @ dump_members p (Suc i) kvs @
     (if kvs \<noteq> [] then pad p i else []) @ ''}''"
| "dump_items p i [] = []"
| "dump_items p i (v # vs) = pad p i @ dump p i v @ (if vs \<noteq> [] then '','' else []) @ nl p @
     dump_items p i vs"
| "dump_members p i [] = []"
| "dump_members p i ((k, v) # kvs) = pad p i @ write_escaped k @ (if p then '': '' else '':'') @
     dump p i v @ (if kvs \<noteq> [] then '','' else []) @ nl p @ dump_members p i kvs"

definition stringify :: "bool \<Rightarrow> json \<Rightarrow> string" where
  "stringify pretty v = dump pretty 0 v @ nl pretty"

section \<open>Lexical lemmas\<close>

lemma consume_skip_ws [simp]: "consume c (skip_ws r) = consume c r"
  by (simp add: consume_def)

lemma consume_Cons [simp]:
  "is_space d \<Longrightarrow> consume c (d # r) = consume c r"
  "\<not> is_space d \<Longrightarrow> consume c (d # r) = (if d = c then Some r else None)"
  by (simp_all add: consume_def)

lemma consume_append [simp]: "\<forall>c \<in> set w. is_space c \<Longrightarrow> consume d (w @ r) = consume d r"
  by (simp add: consume_def)

lemma length_consume: "consume c r = Some r' \<Longrightarrow> length r' < length r"
  using length_skip_ws [of r] by (auto simp: consume_def split: list.splits if_splits)

lemma space_pad [simp]: "c \<in> set (pad p n) \<Longrightarrow> is_space c" "c \<in> set (nl p) \<Longrightarrow> is_space c"
  by (auto simp: pad_def nl_def is_space_def split: if_splits)

text \<open>A text after which a number cannot go on.\<close>

definition stops :: "string \<Rightarrow> bool" where
  "stops r \<longleftrightarrow> (case r of [] \<Rightarrow> True
     | c # _ \<Rightarrow> \<not> is_digit c \<and> c \<notin> {CHR ''.'', CHR ''e'', CHR ''E''})"

lemma stops_Cons [simp]:
  "stops []" "stops (CHR '','' # r)" "stops (CHR '']'' # r)" "stops (CHR ''}'' # r)" "stops (CHR 0x0A # r)"
  by (simp_all add: stops_def is_digit_def)

lemma stops_digits [simp]:
  "stops rest \<Longrightarrow> takeWhile is_digit (s @ rest) = takeWhile is_digit s"
  "stops rest \<Longrightarrow> dropWhile is_digit (s @ rest) = dropWhile is_digit s @ rest"
  by (induction s) (auto simp: stops_def split: list.splits)

lemma stops_starts: "stops rest \<Longrightarrow> starts_digit (s @ rest) = starts_digit s"
  by (cases s) (auto simp: starts_digit_def stops_def split: list.splits)

lemma scan_integer_append:
  "scan_integer N s = Inr (ip, s') \<Longrightarrow> stops rest \<Longrightarrow> scan_integer M (s @ rest) = Inr (ip, s' @ rest)"
  by (cases s) (auto simp: scan_integer_def stops_starts starts_digit_def split: if_splits)

lemma scan_fraction_append:
  "scan_fraction N s = Inr (fp, s') \<Longrightarrow> stops rest \<Longrightarrow> scan_fraction M (s @ rest) = Inr (fp, s' @ rest)"
  by (cases s) (auto simp: scan_fraction_def stops_starts stops_def split: if_splits list.splits)

lemma scan_exp_digits_append:
  "scan_exp_digits N neg s = Inr (e, s') \<Longrightarrow> stops rest \<Longrightarrow>
     scan_exp_digits M neg (s @ rest) = Inr (e, s' @ rest)"
  by (auto simp: scan_exp_digits_def stops_starts split: if_splits)

lemma scan_exponent_append:
  assumes "scan_exponent N s = Inr (e, s')" and "stops rest"
  shows "scan_exponent M (s @ rest) = Inr (e, s' @ rest)"
proof (cases s)
  case Nil
  then show ?thesis using assms by (auto simp: scan_exponent_def stops_def split: list.splits)
next
  case (Cons c cs)
  show ?thesis
  proof (cases cs)
    case Nil
    then show ?thesis using assms Cons
      by (auto simp: scan_exponent_def scan_exp_digits_def starts_digit_def split: if_splits)
  next
    case (Cons d ds)
    then show ?thesis using assms(1) \<open>s = c # cs\<close> scan_exp_digits_append [OF _ assms(2), of _ _ ds]
        scan_exp_digits_append [OF _ assms(2), of _ _ "d # ds", unfolded append_Cons]
      by (auto simp: scan_exponent_def split: if_splits)
  qed
qed

lemma parse_number_append:
  assumes "parse_number N s = Inr (v, [])" and "stops rest"
  shows "parse_number M (s @ rest) = Inr (v, rest)"
proof -
  obtain neg r1 where sg: "scan_sign s = (neg, r1)" by fastforce
  then obtain ip r2 fp r3 e r4 where p: "scan_integer N r1 = Inr (ip, r2)"
      "scan_fraction N r2 = Inr (fp, r3)" "scan_exponent N r3 = Inr (e, r4)"
    and st: "(case stod_decimal neg (digits_value (ip @ fp)) (e - int (length fp)) of
          None \<Rightarrow> Inl (json_fail N r4 ''number parse failed'')
        | Some x \<Rightarrow> Inr (JNum x, r4)) = Inr (v, [])"
    using assms(1) by (auto simp: parse_number_def rbind_Inr_conv)
  have r4: "r4 = []" using st by (simp split: option.splits)
  have "s \<noteq> []" using sg p(1) by (auto simp: scan_sign_def scan_integer_def starts_digit_def)
  then have "scan_sign (s @ rest) = (neg, r1 @ rest)"
    using sg by (cases s) (auto simp: scan_sign_def split: if_splits)
  then show ?thesis
    using scan_integer_append [OF p(1) assms(2)] scan_fraction_append [OF p(2) assms(2)]
      scan_exponent_append [OF p(3) assms(2)] st r4
    by (simp add: parse_number_def split: option.splits)
qed

lemma parse_number_start:
  "parse_number N r = Inr x \<Longrightarrow> \<exists>c cs. r = c # cs \<and> (c = CHR ''-'' \<or> is_digit c)"
  by (cases r) (auto simp: parse_number_def scan_sign_def scan_integer_def starts_digit_def
    split: if_splits)


section \<open>Escapes\<close>

lemma hex_digit_value: "d < 16 \<Longrightarrow> hex_value (hex_digit d) = Some d"
  by (simp add: hex_value_def hex_digit_def of_char_of Let_def)

lemma hex_zero: "hex_value CHR ''0'' = Some 0"
  by (simp add: hex_value_def)

lemma hex_loop_four: "hex_loop N 4 code r = hex_loop N (Suc (Suc (Suc (Suc 0)))) code r"
  by (simp add: numeral_eq_Suc)

lemma scan_string_eqs:
  "scan_string N s (CHR 0x22 # r) = Inr (JStr s, r)"
  "c \<noteq> CHR 0x22 \<Longrightarrow> c \<noteq> CHR 0x5C \<Longrightarrow> scan_string N s (c # r) = scan_string N (s @ [c]) r"
  "scan_string N s [CHR 0x5C] = Inl (json_fail N [] ''unterminated escape'')"
  "e \<noteq> CHR ''u'' \<Longrightarrow> scan_string N s (CHR 0x5C # e # r) =
     (case escape_value e of None \<Rightarrow> Inl (json_fail N r ''invalid escape'')
      | Some d \<Rightarrow> scan_string N (s @ [d]) r)"
  "scan_string N s (CHR 0x5C # CHR ''u'' # r) =
     (if length r < 4 then Inl (json_fail N r ''invalid unicode escape'')
      else case hex_loop N 4 0 r of Inl err \<Rightarrow> Inl err
        | Inr code \<Rightarrow> scan_string N (s @ utf8_bytes code) (drop 4 r))"
  by simp_all

declare scan_string.simps [simp del]

lemma escape_value_u: "escape_value e = Some d \<Longrightarrow> e \<noteq> CHR ''u''"
  by (auto simp: escape_value_def)

lemma escaped_char_cases:
  obtains "escaped_char c = [c]" "c \<noteq> CHR 0x22" "c \<noteq> CHR 0x5C"
  | e where "escaped_char c = [CHR 0x5C, e]" "escape_value e = Some c"
  | n where "n < 32" "c = char_of n"
      "escaped_char c = CHR 0x5C # ''u00'' @ [hex_digit (n div 16), hex_digit (n mod 16)]"
proof -
  consider "c = CHR 0x22" | "c = CHR 0x5C" | "c = CHR 0x08" | "c = CHR 0x0C" | "c = CHR 0x0A"
    | "c = CHR 0x0D" | "c = CHR 0x09"
    | "c \<notin> {CHR 0x22, CHR 0x5C, CHR 0x08, CHR 0x0C, CHR 0x0A, CHR 0x0D, CHR 0x09}" by blast
  then show thesis
  proof cases
    case 8
    then show ?thesis
      using that(1) that(3) [of "of_char c"]
      by (cases "of_char c < (32 :: nat)") (simp_all add: escaped_char_def)
  qed (rule that(2), simp add: escaped_char_def, simp add: escape_value_def)+
qed

lemma scan_string_escaped: "scan_string N s (escaped_char c @ r) = scan_string N (s @ [c]) r"
proof (cases c rule: escaped_char_cases)
  case 1
  then show ?thesis by (simp add: scan_string_eqs)
next
  case (2 e)
  then show ?thesis using escape_value_u [OF 2(2)] by (simp add: scan_string_eqs)
next
  case (3 n)
  have "hex_loop N 4 0 (CHR ''0'' # CHR ''0'' # hex_digit (n div 16) # hex_digit (n mod 16) # r) =
      Inr (n div 16 * 16 + n mod 16)"
    unfolding hex_loop_four using 3(1) by (simp add: hex_zero hex_digit_value)
  moreover have "utf8_bytes n = [c]" using 3(1,2) by (simp add: utf8_bytes_def)
  ultimately show ?thesis unfolding 3(3) by (simp add: scan_string_eqs)
qed

lemma scan_string_written:
  "scan_string N s (concat (map escaped_char t) @ CHR 0x22 # r) = Inr (JStr (s @ t), r)"
  by (induction t arbitrary: s) (auto simp: scan_string_escaped scan_string_eqs)

section \<open>Fuel\<close>

lemma hex_loop_length: "hex_loop N k code r = Inr c \<Longrightarrow> k \<le> length r"
  by (induction N k code r rule: hex_loop.induct) (auto split: option.splits)

lemma scan_string_shorter: "scan_string N s r = Inr (v, r') \<Longrightarrow> length r' < length r"
proof (induction "length r" arbitrary: s r rule: less_induct)
  case less
  show ?case
  proof (cases r)
    case Nil
    then show ?thesis using less.prems by (simp add: scan_string.simps)
  next
    case (Cons c cs)
    have step: "length r' < length r" if "scan_string N s' t = Inr (v, r')" "length t < length r" for s' t
      using less.hyps [OF that(2,1)] that(2) by simp
    show ?thesis
    proof (cases "c = CHR 0x5C \<and> cs \<noteq> []")
      case False
      then show ?thesis using less.prems Cons step [of "s @ [c]" cs]
        by (cases "c = CHR 0x22"; cases "c = CHR 0x5C") (auto simp: scan_string_eqs)
    next
      case True
      then obtain e ds where cs: "cs = e # ds" by (cases cs) auto
      show ?thesis
        using less.prems Cons True cs step [of _ ds] step [of _ "drop 4 ds"]
        by (cases "e = CHR ''u''")
          (simp_all add: scan_string_eqs split: if_splits option.splits sum.splits)
    qed
  qed
qed

lemma scan_integer_shorter: "scan_integer N r = Inr (x, r') \<Longrightarrow> length r' < length r"
  by (cases r) (auto simp: scan_integer_def starts_digit_def length_dropWhile_le le_imp_less_Suc
    split: if_splits)

lemma scan_fraction_shorter: "scan_fraction N r = Inr (x, r') \<Longrightarrow> length r' \<le> length r"
  by (cases r) (auto simp: scan_fraction_def length_dropWhile_le le_SucI split: if_splits)

lemma scan_exponent_shorter: "scan_exponent N r = Inr (x, r') \<Longrightarrow> length r' \<le> length r"
  by (auto simp: scan_exponent_def scan_exp_digits_def length_dropWhile_le le_SucI
    split: if_splits list.splits)

lemma parse_number_shorter:
  assumes "parse_number N r = Inr (v, r')"
  shows "length r' < length r"
proof -
  obtain neg r1 where sg: "scan_sign r = (neg, r1)" by fastforce
  then have "length r1 \<le> length r" by (auto simp: scan_sign_def split: list.splits if_splits)
  moreover from assms sg have "length r' < length r1"
    by (auto simp: parse_number_def rbind_Inr_conv split: option.splits
      dest!: scan_integer_shorter scan_fraction_shorter scan_exponent_shorter)
  ultimately show ?thesis by simp
qed


text \<open>Every recursive call has consumed a character, or stands on one that its caller has not.\<close>

definition shorter :: "string \<Rightarrow> 'a parsed \<Rightarrow> bool" where
  "shorter r m \<longleftrightarrow> (case m of None \<Rightarrow> False | Some (Inl e) \<Rightarrow> err_code e = InvalidArgument
     | Some (Inr (v, r')) \<Rightarrow> length r' < length r)"

lemma shorter_simps [simp]:
  "\<not> shorter r None" "shorter r (Some (Inl e)) \<longleftrightarrow> err_code e = InvalidArgument"
  "shorter r (Some (Inr (v, r'))) \<longleftrightarrow> length r' < length r"
  by (simp_all add: shorter_def)

lemma json_fail_code [simp]: "err_code (json_fail N r m) = InvalidArgument"
  by (simp add: json_fail_def)

lemma hex_loop_error: "hex_loop N k code r = Inl e \<Longrightarrow> err_code e = InvalidArgument"
  by (induction N k code r rule: hex_loop.induct) (auto split: option.splits)

lemma scan_string_error: "scan_string N s r = Inl e \<Longrightarrow> err_code e = InvalidArgument"
proof (induction "length r" arbitrary: s r rule: less_induct)
  case less
  show ?case
  proof (cases r)
    case Nil
    then show ?thesis using less.prems by (auto simp: scan_string.simps)
  next
    case (Cons c cs)
    have step: "scan_string N s' t = Inl e \<Longrightarrow> length t < length r \<Longrightarrow> err_code e = InvalidArgument" for s' t
      using less.hyps by blast
    show ?thesis
    proof (cases "c = CHR 0x5C \<and> cs \<noteq> []")
      case False
      then show ?thesis using less.prems Cons step [of "s @ [c]" cs]
        by (cases "c = CHR 0x22"; cases "c = CHR 0x5C") (auto simp: scan_string_eqs)
    next
      case True
      then obtain a ds where cs: "cs = a # ds" by (cases cs) auto
      show ?thesis
        using less.prems Cons True cs step [of _ ds] step [of _ "drop 4 ds"] hex_loop_error [of N 4 0 ds e]
        by (cases "a = CHR ''u''")
          (auto simp: scan_string_eqs split: if_splits option.splits sum.splits)
    qed
  qed
qed

lemma parse_number_error: "parse_number N r = Inl e \<Longrightarrow> err_code e = InvalidArgument"
  by (auto simp: parse_number_def rbind_Inl_conv scan_integer_def scan_fraction_def scan_exponent_def
    scan_exp_digits_def split: option.splits if_splits list.splits prod.splits)

lemma shorter_scalars:
  "shorter r (Some (parse_number N r))"
  "length cs < length r \<Longrightarrow> shorter r (Some (scan_string N s cs))"
  "r \<noteq> [] \<Longrightarrow> shorter r (Some (parse_null N r))"
  "r \<noteq> [] \<Longrightarrow> shorter r (Some (parse_bool N r))"
proof -
  show "shorter r (Some (parse_number N r))"
    by (auto simp: shorter_def dest: parse_number_shorter parse_number_error split: sum.splits)
  show "length cs < length r \<Longrightarrow> shorter r (Some (scan_string N s cs))"
    by (fastforce simp: shorter_def dest: scan_string_shorter scan_string_error split: sum.splits)
  show "r \<noteq> [] \<Longrightarrow> shorter r (Some (parse_null N r))"
    by (auto simp: shorter_def parse_null_def)
  show "r \<noteq> [] \<Longrightarrow> shorter r (Some (parse_bool N r))"
    by (auto simp: shorter_def parse_bool_def)
qed

lemma shorter_mono: "shorter r m \<Longrightarrow> length r \<le> length r' \<Longrightarrow> shorter r' m"
  by (auto simp: shorter_def split: option.splits sum.splits)

lemma shorter_bind:
  assumes "shorter r m" and "\<And>v r1. m = Some (Inr (v, r1)) \<Longrightarrow> length r1 < length r \<Longrightarrow> shorter r (f v r1)"
  shows "shorter r (pbind m f)"
  using assms by (auto simp: shorter_def pbind_def split: option.splits sum.splits prod.splits)

lemma parse_shorter:
  "2 * length r < n \<Longrightarrow> shorter r (parse_value N n r)"
  "2 * length r + 1 < n \<Longrightarrow> shorter r (parse_items N n acc r)"
  "2 * length r + 1 < n \<Longrightarrow> shorter r (parse_members N n obj r)"
proof (induction N n r and N n acc r and N n obj r rule: parse_value_parse_items_parse_members.induct)
  case (2 N n r)
  show ?case
  proof (cases "skip_ws r")
    case Nil
    then show ?thesis by (simp add: parse_value.simps(2))
  next
    case (Cons c cs)
    have len: "length (c # cs) \<le> length r" using length_skip_ws [of r] Cons by simp
    have fuel: "2 * length (skip_ws cs) + 1 < n"
      using 2(3) len length_skip_ws [of cs] by simp
    have sub: "shorter r m" if "shorter (skip_ws cs) m" for m :: "json parsed"
      using shorter_mono [OF that] len length_skip_ws [of cs] by simp
    have scal: "shorter r (Some (parse_null N (c # cs)))" "shorter r (Some (parse_bool N (c # cs)))"
      "shorter r (Some (scan_string N [] cs))" "shorter r (Some (parse_number N (c # cs)))"
      by (rule shorter_mono [OF _ len], rule shorter_scalars, simp)+
        (rule shorter_mono [OF _ len], rule shorter_scalars)
    have arr: "shorter r (case consume CHR '']'' cs of
         Some r1 \<Rightarrow> Some (Inr (JArr [], r1)) | None \<Rightarrow> parse_items N n [] (skip_ws cs))"
      if "c = CHR ''[''"
      using 2(1) [OF Cons] that fuel sub len length_consume [of _ cs]
      by (fastforce simp: shorter_def is_digit_def split: option.splits)
    have obj: "shorter r (case consume CHR ''}'' cs of
         Some r1 \<Rightarrow> Some (Inr (JObj [], r1)) | None \<Rightarrow> parse_members N n [] (skip_ws cs))"
      if "c = CHR ''{''"
      using 2(2) [OF Cons] that fuel sub len length_consume [of _ cs]
      by (fastforce simp: shorter_def is_digit_def split: option.splits)
    show ?thesis
      using scal arr obj by (simp add: parse_value.simps(2) Cons) (auto simp: shorter_def)
  qed
next
  case (4 N n acc r)
  show ?case
    unfolding parse_items.simps
  proof (rule shorter_bind)
    show "shorter r (parse_value N n r)" using 4 by simp
  next
    fix v r1 assume v: "parse_value N n r = Some (Inr (v, r1))" "length r1 < length r"
    have "shorter r (parse_items N n (acc @ [v]) r2)"
      if "consume CHR '']'' r1 = None" "consume CHR '','' r1 = Some r2" for r2
      using shorter_mono [OF 4(2) [OF v(1) that]] length_consume [OF that(2)] v(2) 4(3) by simp
    then show "shorter r (case consume CHR '']'' r1 of Some r2 \<Rightarrow> Some (Inr (JArr (acc @ [v]), r2))
       | None \<Rightarrow> (case consume CHR '','' r1 of Some r2 \<Rightarrow> parse_items N n (acc @ [v]) r2
         | None \<Rightarrow> Some (Inl (json_fail N (skip_ws r1) (''expected '' @ quoted CHR '','' @ '' or '' @
             quoted CHR '']'' @ '' in array'')))))"
      using v(2) by (auto dest: length_consume split: option.split)
  qed
next
  case (6 N n acc r)
  show ?case
    unfolding parse_members.simps
  proof (rule shorter_bind)
    show "shorter r (parse_value N n r)" using 6 by simp
  next
    fix kv r1 assume kv: "parse_value N n r = Some (Inr (kv, r1))" "length r1 < length r"
    show "shorter r (case kv of JStr k \<Rightarrow> (case consume CHR '':'' r1 of
           None \<Rightarrow> Some (Inl (json_fail N (skip_ws r1) (''expected '' @ quoted CHR '':'')))
         | Some r2 \<Rightarrow> pbind (parse_value N n r2) (\<lambda>v r3.
             case consume CHR ''}'' r3 of Some r4 \<Rightarrow> Some (Inr (JObj (obj_put k v acc), r4))
             | None \<Rightarrow> (case consume CHR '','' r3 of Some r4 \<Rightarrow> parse_members N n (obj_put k v acc) r4
                 | None \<Rightarrow> Some (Inl (json_fail N (skip_ws r3) (''expected '' @ quoted CHR '','' @
                     '' or '' @ quoted CHR ''}'' @ '' in object''))))))
       | _ \<Rightarrow> Some (Inl (json_fail N r1 ''object key must be string'')))"
    proof (cases "\<exists>k r2. kv = JStr k \<and> consume CHR '':'' r1 = Some r2")
      case False
      then show ?thesis by (auto simp: shorter_def split: json.split option.split)
    next
      case True
      then obtain k r2 where k: "kv = JStr k" "consume CHR '':'' r1 = Some r2" by blast
      have len: "length r2 < length r" using length_consume [OF k(2)] kv(2) by simp
      have "shorter r (pbind (parse_value N n r2) (\<lambda>v r3.
             case consume CHR ''}'' r3 of Some r4 \<Rightarrow> Some (Inr (JObj (obj_put k v acc), r4))
             | None \<Rightarrow> (case consume CHR '','' r3 of Some r4 \<Rightarrow> parse_members N n (obj_put k v acc) r4
                 | None \<Rightarrow> Some (Inl (json_fail N (skip_ws r3) (''expected '' @ quoted CHR '','' @
                     '' or '' @ quoted CHR ''}'' @ '' in object''))))))"
      proof (rule shorter_mono [OF shorter_bind])
        show "shorter r2 (parse_value N n r2)" using 6(2) [OF kv(1) k] len 6(4) by simp
        show "length r2 \<le> length r" using len by simp
      next
        fix v r3 assume v: "parse_value N n r2 = Some (Inr (v, r3))" "length r3 < length r2"
        have "shorter r2 (parse_members N n (obj_put k v acc) r4)"
          if "consume CHR ''}'' r3 = None" "consume CHR '','' r3 = Some r4" for r4
          using shorter_mono [OF 6(3) [OF kv(1) k v(1) that]] length_consume [OF that(2)] v(2) len 6(4)
          by simp
        then show "shorter r2 (case consume CHR ''}'' r3 of Some r4 \<Rightarrow> Some (Inr (JObj (obj_put k v acc), r4))
             | None \<Rightarrow> (case consume CHR '','' r3 of Some r4 \<Rightarrow> parse_members N n (obj_put k v acc) r4
                 | None \<Rightarrow> Some (Inl (json_fail N (skip_ws r3) (''expected '' @ quoted CHR '','' @
                     '' or '' @ quoted CHR ''}'' @ '' in object'')))))"
          using v(2) by (auto dest: length_consume split: option.split)
      qed
      then show ?thesis using k by simp
    qed
  qed
qed (simp_all)


lemma pbind_mono:
  assumes "pbind m f = Some x" and "\<And>y. m = Some y \<Longrightarrow> m' = Some y"
    and "\<And>v r. m = Some (Inr (v, r)) \<Longrightarrow> f v r = Some x \<Longrightarrow> f' v r = Some x"
  shows "pbind m' f' = Some x"
  using assms by (auto simp: pbind_def split: option.splits sum.splits prod.splits)

lemma parse_fuel_Suc:
  "parse_value N n r = Some x \<Longrightarrow> parse_value N (Suc n) r = Some x"
  "parse_items N n acc r = Some x \<Longrightarrow> parse_items N (Suc n) acc r = Some x"
  "parse_members N n obj r = Some x \<Longrightarrow> parse_members N (Suc n) obj r = Some x"
proof (induction N n r and N n acc r and N n obj r arbitrary: x and x and x
    rule: parse_value_parse_items_parse_members.induct)
  case (2 N n r)
  show ?case
  proof (cases "skip_ws r")
    case Nil
    then show ?thesis using 2(3) by (simp add: parse_value.simps(2))
  next
    case (Cons c cs)
    note unf = parse_value.simps(2) [of N "Suc n"] parse_value.simps(2) [of N n] Cons list.case
    consider (arr) "c = CHR ''[''" "consume CHR '']'' cs = None"
      | (empty_arr) r1 where "c = CHR ''[''" "consume CHR '']'' cs = Some r1"
      | (obj) "c = CHR ''{''" "consume CHR ''}'' cs = None"
      | (empty_obj) r1 where "c = CHR ''{''" "consume CHR ''}'' cs = Some r1"
      | (other) "c \<noteq> CHR ''[''" "c \<noteq> CHR ''{''" by force
    then show ?thesis
    proof cases
      case arr
      then show ?thesis using 2(1) [OF Cons] 2(3) unfolding unf
        by (simp add: is_digit_def)
    next
      case obj
      then show ?thesis using 2(2) [OF Cons] 2(3) unfolding unf
        by (simp add: is_digit_def)
    next
      case other
      then have "parse_value N (Suc (Suc n)) r = parse_value N (Suc n) r"
        unfolding unf by (simp only: if_False simp_thms)
      then show ?thesis using 2(3) by (simp only:)
    qed (use 2(3) in \<open>simp_all add: unf\<close>)
  qed
next
  case (4 N n acc r)
  from 4(3) show ?case
    unfolding parse_items.simps(2) [of N "Suc n" acc r] parse_items.simps(2) [of N n acc r]
    by (rule pbind_mono) (use 4(1,2) in \<open>auto split: option.splits\<close>)
next
  case (6 N n acc r)
  from 6(4) show ?case
    unfolding parse_members.simps(2) [of N "Suc n" acc r] parse_members.simps(2) [of N n acc r]
  proof (rule pbind_mono)
    show "parse_value N (Suc n) r = Some y" if "parse_value N n r = Some y" for y
      using 6(1) that by blast
  next
    fix kv r1
    assume kv: "parse_value N n r = Some (Inr (kv, r1))"
    assume step: "(case kv of JStr k \<Rightarrow> (case consume CHR '':'' r1 of
           None \<Rightarrow> Some (Inl (json_fail N (skip_ws r1) (''expected '' @ quoted CHR '':'')))
         | Some r2 \<Rightarrow> pbind (parse_value N n r2) (\<lambda>v r3.
             case consume CHR ''}'' r3 of Some r4 \<Rightarrow> Some (Inr (JObj (obj_put k v acc), r4))
             | None \<Rightarrow> (case consume CHR '','' r3 of Some r4 \<Rightarrow> parse_members N n (obj_put k v acc) r4
                 | None \<Rightarrow> Some (Inl (json_fail N (skip_ws r3) (''expected '' @ quoted CHR '','' @
                     '' or '' @ quoted CHR ''}'' @ '' in object''))))))
       | _ \<Rightarrow> Some (Inl (json_fail N r1 ''object key must be string''))) = Some x"
    show "(case kv of JStr k \<Rightarrow> (case consume CHR '':'' r1 of
           None \<Rightarrow> Some (Inl (json_fail N (skip_ws r1) (''expected '' @ quoted CHR '':'')))
         | Some r2 \<Rightarrow> pbind (parse_value N (Suc n) r2) (\<lambda>v r3.
             case consume CHR ''}'' r3 of Some r4 \<Rightarrow> Some (Inr (JObj (obj_put k v acc), r4))
             | None \<Rightarrow> (case consume CHR '','' r3 of Some r4 \<Rightarrow> parse_members N (Suc n) (obj_put k v acc) r4
                 | None \<Rightarrow> Some (Inl (json_fail N (skip_ws r3) (''expected '' @ quoted CHR '','' @
                     '' or '' @ quoted CHR ''}'' @ '' in object''))))))
       | _ \<Rightarrow> Some (Inl (json_fail N r1 ''object key must be string''))) = Some x"
    proof (cases "\<exists>k r2. kv = JStr k \<and> consume CHR '':'' r1 = Some r2")
      case False
      then show ?thesis using step by (auto split: json.splits option.splits)
    next
      case True
      then obtain k r2 where k: "kv = JStr k" "consume CHR '':'' r1 = Some r2" by blast
      from step have "pbind (parse_value N n r2) (\<lambda>v r3.
             case consume CHR ''}'' r3 of Some r4 \<Rightarrow> Some (Inr (JObj (obj_put k v acc), r4))
             | None \<Rightarrow> (case consume CHR '','' r3 of Some r4 \<Rightarrow> parse_members N n (obj_put k v acc) r4
                 | None \<Rightarrow> Some (Inl (json_fail N (skip_ws r3) (''expected '' @ quoted CHR '','' @
                     '' or '' @ quoted CHR ''}'' @ '' in object''))))) = Some x"
        using k by simp
      then have "pbind (parse_value N (Suc n) r2) (\<lambda>v r3.
             case consume CHR ''}'' r3 of Some r4 \<Rightarrow> Some (Inr (JObj (obj_put k v acc), r4))
             | None \<Rightarrow> (case consume CHR '','' r3 of Some r4 \<Rightarrow> parse_members N (Suc n) (obj_put k v acc) r4
                 | None \<Rightarrow> Some (Inl (json_fail N (skip_ws r3) (''expected '' @ quoted CHR '','' @
                     '' or '' @ quoted CHR ''}'' @ '' in object''))))) = Some x"
        by (rule pbind_mono)
          (use 6(2) [OF kv k] 6(3) [OF kv k] in \<open>auto split: option.splits\<close>)
      then show ?thesis using k by simp
    qed
  qed
qed simp_all

lemma parse_fuel_le: "parse_value N n r = Some x \<Longrightarrow> n \<le> m \<Longrightarrow> parse_value N m r = Some x"
  by (rule dec_induct [of n m]) (blast intro: parse_fuel_Suc)+

lemma parse_items_fuel_le: "parse_items N n acc r = Some x \<Longrightarrow> n \<le> m \<Longrightarrow> parse_items N m acc r = Some x"
  by (rule dec_induct [of n m]) (blast intro: parse_fuel_Suc)+

lemma parse_members_fuel_le:
  "parse_members N n obj r = Some x \<Longrightarrow> n \<le> m \<Longrightarrow> parse_members N m obj r = Some x"
  by (rule dec_induct [of n m]) (blast intro: parse_fuel_Suc)+

text \<open>Some amount of fuel gives this result; then so does the amount \<open>json_parse\<close> uses.\<close>

lemma parse_fuel_enough:
  assumes "\<exists>n. parse_value N n r = Some x"
  shows "parse_value N (parse_fuel r) r = Some x"
proof -
  have "shorter r (parse_value N (parse_fuel r) r)"
    by (rule parse_shorter) (simp add: parse_fuel_def)
  then obtain y where y: "parse_value N (parse_fuel r) r = Some y"
    by (auto simp: shorter_def split: option.splits)
  obtain n where n: "parse_value N n r = Some x" using assms by blast
  show ?thesis
    using parse_fuel_le [OF y, of "max n (parse_fuel r)"] parse_fuel_le [OF n, of "max n (parse_fuel r)"] y
    by simp
qed


section \<open>Reading back what was written\<close>

text \<open>A number whose printed form reads back as itself.\<close>

definition number_exact :: "f64 \<Rightarrow> bool" where
  "number_exact x \<longleftrightarrow> parse_number 0 (number_text x) = Inr (JNum x, [])"

fun json_ok :: "json \<Rightarrow> bool" where
  "json_ok (JNum x) = number_exact x"
| "json_ok (JArr vs) = list_all json_ok vs"
| "json_ok (JObj kvs) = (sorted_wrt (<) (map fst kvs) \<and> list_all json_ok (map snd kvs))"
| "json_ok _ = True"

lemma obj_put_last: "sorted_wrt (<) (map fst obj @ [k]) \<Longrightarrow> obj_put k v obj = obj @ [(k, v)]"
  by (induction obj) (auto simp: order_less_not_sym)

lemma parse_value_ws [simp]: "\<forall>c \<in> set w. is_space c \<Longrightarrow> parse_value N n (w @ r) = parse_value N n r"
  by (cases n) (simp_all add: parse_value.simps(2))

lemma parse_value_skip [simp]: "parse_value N n (skip_ws r) = parse_value N n r"
  by (cases n) (simp_all add: parse_value.simps(2))

lemma parse_items_skip [simp]: "parse_items N n acc (skip_ws r) = parse_items N n acc r"
  by (cases n) (simp_all add: parse_items.simps(2))

lemma parse_members_skip [simp]: "parse_members N n acc (skip_ws r) = parse_members N n acc r"
  by (cases n) (simp_all add: parse_members.simps(2))

lemma parse_items_ws [simp]:
  "\<forall>c \<in> set w. is_space c \<Longrightarrow> parse_items N n acc (w @ r) = parse_items N n acc r"
  by (cases n) (simp_all add: parse_items.simps(2))

lemma parse_members_ws [simp]:
  "\<forall>c \<in> set w. is_space c \<Longrightarrow> parse_members N n acc (w @ r) = parse_members N n acc r"
  by (cases n) (simp_all add: parse_members.simps(2))

lemma stops_space: "is_space c \<Longrightarrow> stops (c # r)"
  by (auto simp: stops_def is_space_def is_digit_def Let_def)

lemma stops_spaces: "\<forall>c \<in> set w. is_space c \<Longrightarrow> stops r \<Longrightarrow> stops (w @ r)"
  by (cases w) (simp_all add: stops_space)

lemma minus_not_space: "\<not> is_space CHR ''-''"
  by (simp add: is_space_def)

lemma dump_start:
  assumes "json_ok v"
  obtains c cs where "dump p i v = c # cs" "\<not> is_space c" "c \<notin> {CHR '']'', CHR ''}'', CHR '','', CHR '':''}"
proof (cases v)
  case (JNum x)
  with assms have "parse_number 0 (number_text x) = Inr (JNum x, [])" by (simp add: number_exact_def)
  from parse_number_start [OF this] obtain c cs
    where c: "number_text x = c # cs" "c = CHR ''-'' \<or> is_digit c" by blast
  have "\<not> is_space c" using c(2) is_space_not minus_not_space by blast
  moreover from c(2) have "c \<notin> {CHR '']'', CHR ''}'', CHR '','', CHR '':''}"
    by (auto simp: is_digit_def)
  ultimately show thesis using c(1) JNum by (intro that [of c cs]) simp_all
next
  case JNull
  then show thesis by (intro that [of "CHR ''n''" "''ull''"]) (simp_all add: is_space_def)
next
  case (JBool b)
  show thesis
  proof (cases b)
    case True
    with JBool show thesis by (intro that [of "CHR ''t''" "''rue''"]) (simp_all add: is_space_def)
  next
    case False
    with JBool show thesis by (intro that [of "CHR ''f''" "''alse''"]) (simp_all add: is_space_def)
  qed
next
  case (JStr s)
  then show thesis
    by (intro that [of "CHR 0x22" "concat (map escaped_char s) @ [CHR 0x22]"])
      (simp_all add: is_space_def write_escaped_def)
next
  case (JArr vs)
  then show thesis by (intro that [of "CHR ''[''"]) (simp_all add: is_space_def)
next
  case (JObj kvs)
  then show thesis by (intro that [of "CHR ''{''"]) (simp_all add: is_space_def)
qed

lemma parse_string_value:
  "parse_value N (Suc n) (write_escaped k @ r) = Some (Inr (JStr k, r))"
  by (simp add: parse_value.simps(2) write_escaped_def scan_string_written is_space_def)

lemma json_spaces:
  "\<not> is_space CHR ''n''" "\<not> is_space CHR ''t''" "\<not> is_space CHR ''f''" "\<not> is_space CHR ''[''"
  "\<not> is_space CHR '']''" "\<not> is_space CHR ''{''" "\<not> is_space CHR ''}''" "\<not> is_space CHR '','' "
  "\<not> is_space CHR '':''" "\<not> is_space CHR 0x22" "is_space CHR '' ''" "is_space CHR 0x0A"
  by (simp_all add: is_space_def)

lemma parse_value_number:
  assumes "parse_number M t = Inr (v, [])" and "stops rest"
  shows "parse_value N 1 (t @ rest) = Some (Inr (v, rest))"
proof -
  have pn: "parse_number N (t @ rest) = Inr (v, rest)" using assms by (rule parse_number_append)
  obtain c cs where c: "t @ rest = c # cs" "c = CHR ''-'' \<or> is_digit c"
    using parse_number_start [OF pn] by blast
  have "\<not> is_space c" using c(2) is_space_not minus_not_space by blast
  moreover from c(2) have "c \<notin> {CHR ''n'', CHR ''t'', CHR ''f'', CHR 0x22, CHR ''['', CHR ''{''}"
    by (auto simp: is_digit_def)
  ultimately show ?thesis using c pn by (simp add: parse_value.simps(2))
qed

lemma dump_parses:
  "json_ok v \<Longrightarrow> stops rest \<Longrightarrow> \<exists>n. parse_value N n (dump p i v @ rest) = Some (Inr (v, rest))"
  "vs \<noteq> [] \<Longrightarrow> list_all json_ok vs \<Longrightarrow> \<forall>c \<in> set w. is_space c \<Longrightarrow>
     \<exists>n. parse_items N n acc (dump_items p i vs @ w @ CHR '']'' # rest) = Some (Inr (JArr (acc @ vs), rest))"
  "kvs \<noteq> [] \<Longrightarrow> list_all json_ok (map snd kvs) \<Longrightarrow> sorted_wrt (<) (map fst (obj @ kvs)) \<Longrightarrow>
     \<forall>c \<in> set w. is_space c \<Longrightarrow>
     \<exists>n. parse_members N n obj (dump_members p i kvs @ w @ CHR ''}'' # rest) = Some (Inr (JObj (obj @ kvs), rest))"
proof (induction p i v and p i vs and p i kvs arbitrary: rest and acc rest w and obj rest w
    rule: dump_dump_items_dump_members.induct)
  case (1 p i)
  have "parse_value N 1 (dump p i JNull @ rest) = Some (Inr (JNull, rest))"
    by (simp add: parse_value.simps(2) parse_null_def json_spaces numeral_eq_Suc)
  then show ?case by blast
next
  case (2 p i b)
  have "parse_value N 1 (dump p i (JBool b) @ rest) = Some (Inr (JBool b, rest))"
    by (cases b) (simp_all add: parse_value.simps(2) parse_bool_def json_spaces numeral_eq_Suc)
  then show ?case by blast
next
  case (3 p i x)
  then show ?case using parse_value_number [of 0 "number_text x"]
    by (simp add: number_exact_def) blast
next
  case (4 p i s)
  then show ?case using parse_string_value [of N 0] by fastforce
next
  case (5 p i vs)
  show ?case
  proof (cases vs)
    case Nil
    have "parse_value N 1 (dump p i (JArr vs) @ rest) = Some (Inr (JArr vs, rest))"
      using Nil by (simp add: parse_value.simps(2) json_spaces)
    then show ?thesis by blast
  next
    case (Cons v vs')
    have ok: "list_all json_ok vs" using 5(2) by simp
    obtain n where n: "parse_items N n [] (dump_items p (Suc i) vs @ pad p i @ CHR '']'' # rest) =
        Some (Inr (JArr vs, rest))"
      using 5(1) [of "pad p i" "[]" rest] ok Cons by auto
    have "json_ok v" using ok Cons by simp
    from dump_start [OF this, of p "Suc i"] obtain c cs
      where c: "dump p (Suc i) v = c # cs" "\<not> is_space c" "c \<notin> {CHR '']'', CHR ''}'', CHR '','', CHR '':''}" .
    have "consume CHR '']'' (dump_items p (Suc i) vs @ r) = None" for r
      using c Cons by simp
    then have "parse_value N (Suc n) (dump p i (JArr vs) @ rest) = Some (Inr (JArr vs, rest))"
      using n Cons by (simp add: parse_value.simps(2) json_spaces del: dump_items.simps)
    then show ?thesis by blast
  qed
next
  case (6 p i kvs)
  show ?case
  proof (cases kvs)
    case Nil
    have "parse_value N 1 (dump p i (JObj kvs) @ rest) = Some (Inr (JObj kvs, rest))"
      using Nil by (simp add: parse_value.simps(2) json_spaces)
    then show ?thesis by blast
  next
    case (Cons kv kvs')
    have ok: "list_all json_ok (map snd kvs)" "sorted_wrt (<) (map fst kvs)" using 6(2) by simp_all
    obtain n where n: "parse_members N n [] (dump_members p (Suc i) kvs @ pad p i @ CHR ''}'' # rest) =
        Some (Inr (JObj kvs, rest))"
      using 6(1) [of "[]" "pad p i" rest] ok Cons by auto
    have "consume CHR ''}'' (dump_members p (Suc i) kvs @ r) = None" for r
      using Cons by (cases kv) (simp add: write_escaped_def json_spaces)
    then have "parse_value N (Suc n) (dump p i (JObj kvs) @ rest) = Some (Inr (JObj kvs, rest))"
      using n Cons by (simp add: parse_value.simps(2) json_spaces del: dump_members.simps)
    then show ?thesis by blast
  qed
next
  case (7 p i)
  then show ?case by simp
next
  case (8 p i v vs)
  have ok: "json_ok v" "list_all json_ok vs" using 8(4) by simp_all
  show ?case
  proof (cases "vs = []")
    case True
    have "stops (nl p @ w @ CHR '']'' # rest)" using 8(5) by (intro stops_spaces) auto
    from 8(1) [OF ok(1) this] obtain n
      where "parse_value N n (dump p i v @ nl p @ w @ CHR '']'' # rest) =
        Some (Inr (v, nl p @ w @ CHR '']'' # rest))" by blast
    then have "parse_items N (Suc n) acc (dump_items p i (v # vs) @ w @ CHR '']'' # rest) =
        Some (Inr (JArr (acc @ v # vs), rest))"
      using True 8(5) by (simp add: parse_items.simps(2) json_spaces)
    then show ?thesis by blast
  next
    case False
    define t where "t = nl p @ dump_items p i vs @ w @ CHR '']'' # rest"
    obtain n1 where n1: "parse_value N n1 (dump p i v @ CHR '','' # t) = Some (Inr (v, CHR '','' # t))"
      using 8(1) [OF ok(1), of "CHR '','' # t"] by auto
    obtain n2 where "parse_items N n2 (acc @ [v]) (dump_items p i vs @ w @ CHR '']'' # rest) =
        Some (Inr (JArr (acc @ v # vs), rest))"
      using 8(2) [OF False ok(2) 8(5), of "acc @ [v]" rest] by auto
    then have n2: "parse_items N n2 (acc @ [v]) t = Some (Inr (JArr (acc @ v # vs), rest))"
      by (simp add: t_def)
    have "parse_items N (Suc (max n1 n2)) acc (dump_items p i (v # vs) @ w @ CHR '']'' # rest) =
        Some (Inr (JArr (acc @ v # vs), rest))"
      using False parse_fuel_le [OF n1, of "max n1 n2"] parse_items_fuel_le [OF n2, of "max n1 n2"]
      by (simp add: parse_items.simps(2) json_spaces flip: t_def)
    then show ?thesis by blast
  qed
next
  case (9 p i)
  then show ?case by simp
next
  case (10 p i k v kvs)
  have ok: "json_ok v" "list_all json_ok (map snd kvs)" using 10(4) by simp_all
  have srt: "sorted_wrt (<) (map fst obj @ [k])" "sorted_wrt (<) (map fst ((obj @ [(k, v)]) @ kvs))"
    using 10(5) by (auto simp: sorted_wrt_append)
  have put: "obj_put k v obj = obj @ [(k, v)]" using srt(1) by (rule obj_put_last)
  have key: "parse_value N (Suc n) (pad p i @ write_escaped k @ r) = Some (Inr (JStr k, r))" for n r
    using parse_string_value by simp
  have colon: "consume CHR '':'' ((if p then '': '' else '':'') @ r) = Some ((if p then '' '' else []) @ r)" for r
    by (simp add: json_spaces)
  have blank: "\<forall>c \<in> set (if p then '' '' else []). is_space c" by (simp add: json_spaces)
  show ?case
  proof (cases "kvs = []")
    case True
    define t where "t = nl p @ w @ CHR ''}'' # rest"
    have "stops t" unfolding t_def using 10(6) by (intro stops_spaces) auto
    from 10(1) [OF ok(1) this] obtain n where n: "parse_value N n (dump p i v @ t) = Some (Inr (v, t))"
      by blast
    have "consume CHR ''}'' t = Some rest" using 10(6) by (simp add: t_def json_spaces)
    then have "parse_members N (Suc (Suc n)) obj (dump_members p i ((k, v) # kvs) @ w @ CHR ''}'' # rest) =
        Some (Inr (JObj (obj @ (k, v) # kvs), rest))"
      using True key [of n] parse_fuel_le [OF n, of "Suc n"]
      by (simp add: parse_members.simps(2) colon parse_value_ws [OF blank] put del: parse_value.simps flip: t_def)
    then show ?thesis by blast
  next
    case False
    define t where "t = nl p @ dump_members p i kvs @ w @ CHR ''}'' # rest"
    obtain n1 where n1: "parse_value N n1 (dump p i v @ CHR '','' # t) = Some (Inr (v, CHR '','' # t))"
      using 10(1) [OF ok(1), of "CHR '','' # t"] by auto
    obtain n2 where "parse_members N n2 (obj @ [(k, v)]) (dump_members p i kvs @ w @ CHR ''}'' # rest) =
        Some (Inr (JObj (obj @ (k, v) # kvs), rest))"
      using 10(2) [OF False ok(2) srt(2) 10(6), of rest] by auto
    then have n2: "parse_members N n2 (obj @ [(k, v)]) t = Some (Inr (JObj (obj @ (k, v) # kvs), rest))"
      by (simp add: t_def)
    define m where "m = Suc (max n1 n2)"
    have "parse_value N m (dump p i v @ CHR '','' # t) = Some (Inr (v, CHR '','' # t))"
      "parse_members N m (obj @ [(k, v)]) t = Some (Inr (JObj (obj @ (k, v) # kvs), rest))"
      using parse_fuel_le [OF n1, of m] parse_members_fuel_le [OF n2, of m] by (simp_all add: m_def)
    then have "parse_members N (Suc m) obj (dump_members p i ((k, v) # kvs) @ w @ CHR ''}'' # rest) =
        Some (Inr (JObj (obj @ (k, v) # kvs), rest))"
      using False key [of "max n1 n2"]
      by (simp add: parse_members.simps(2) colon parse_value_ws [OF blank] put json_spaces m_def flip: t_def)
    then show ?thesis by blast
  qed
qed


lemma json_parse_enough:
  assumes "\<exists>n. parse_value (length s) n s = Some (Inr (v, nl pretty))"
  shows "json_parse s = Some (Inr v)"
  using parse_fuel_enough [OF assms] by (simp add: json_parse_def nl_def is_space_def)

lemma json_parse_stringify:
  assumes "json_ok v"
  shows "json_parse (stringify pretty v) = Some (Inr v)"
proof (rule json_parse_enough)
  have "stops (nl pretty)" by (simp add: nl_def)
  from dump_parses(1) [OF assms this]
  show "\<exists>n. parse_value (length (stringify pretty v)) n (stringify pretty v) = Some (Inr (v, nl pretty))"
    by (simp add: stringify_def)
qed

lemma json_parse_number:
  assumes "parse_number M (number_text x) = Inr (v, [])"
  shows "json_parse (stringify pretty (JNum x)) = Some (Inr v)"
proof (rule json_parse_enough)
  have "stops (nl pretty)" by (simp add: nl_def)
  from parse_value_number [OF assms this]
  show "\<exists>n. parse_value (length (stringify pretty (JNum x))) n (stringify pretty (JNum x)) =
      Some (Inr (v, nl pretty))"
    by (auto simp: stringify_def)
qed

lemma nat_dec_head:
  "\<exists>c cs. nat_dec n = c # cs \<and> is_digit c \<and> (c = CHR ''0'' \<longrightarrow> n = 0)"
proof (induction n rule: nat_dec.induct)
  case (1 n)
  have "digit_value CHR ''0'' = 0" by (simp add: digit_value_def)
  then have zero: "digit_char d = CHR ''0'' \<longrightarrow> d = 0" if "d < 10" for d
    using that digit_value_digit_char by metis
  show ?case
  proof (cases "n < 10")
    case True
    then show ?thesis using zero by (subst nat_dec.simps) (simp add: is_digit_digit_char)
  next
    case False
    then show ?thesis using 1 by (subst nat_dec.simps) auto
  qed
qed

lemma scan_integer_nat_dec: "scan_integer N (nat_dec n) = Inr (nat_dec n, [])"
proof -
  obtain c cs where c: "nat_dec n = c # cs" "is_digit c" "c = CHR ''0'' \<longrightarrow> n = 0"
    using nat_dec_head by blast
  have all: "\<forall>d \<in> set (nat_dec n). is_digit d" using nat_dec_digits by blast
  then have "takeWhile is_digit (nat_dec n) = nat_dec n" "dropWhile is_digit (nat_dec n) = []"
    by simp_all
  moreover have "cs = []" if "c = CHR ''0''"
    using c that nat_dec.simps [of 0] by (simp add: digit_char_def)
  ultimately show ?thesis using c by (auto simp: scan_integer_def starts_digit_def)
qed

lemma scan_sign_int_dec: "scan_sign (int_dec i) = (i < 0, nat_dec (nat (abs i)))"
proof (cases "i < 0")
  case True
  then show ?thesis by (simp add: scan_sign_def int_dec_def)
next
  case False
  obtain c cs where "nat_dec (nat i) = c # cs" "is_digit c" using nat_dec_head by blast
  moreover have "\<not> is_digit CHR ''-''" by (simp add: is_digit_def)
  ultimately show ?thesis using False by (auto simp: scan_sign_def int_dec_def)
qed

text \<open>Integers of magnitude below 10^15 are printed and read back exactly.\<close>

lemma number_exact_int:
  assumes "abs i < 10 ^ 15"
  shows "number_exact (f64_of_int i)"
  using stod_decimal_int [OF assms] f64_small_int_of_int [OF assms]
  by (simp add: number_exact_def number_text_def parse_number_def scan_sign_int_dec scan_integer_nat_dec
    scan_fraction_def scan_exponent_def)

text \<open>Object keys are in strictly ascending order, as in a \<open>std::map\<close>.\<close>

fun json_wf :: "json \<Rightarrow> bool" where
  "json_wf (JArr vs) = list_all json_wf vs"
| "json_wf (JObj kvs) = (sorted_wrt (<) (map fst kvs) \<and> list_all json_wf (map snd kvs))"
| "json_wf _ = True"

lemma obj_put_keys: "fst ` set (obj_put k v obj) = insert k (fst ` set obj)"
  by (induction k v obj rule: obj_put.induct) auto

lemma obj_put_sorted: "sorted_wrt (<) (map fst obj) \<Longrightarrow> sorted_wrt (<) (map fst (obj_put k v obj))"
proof (induction k v obj rule: obj_put.induct)
  case (2 k v a b xs)
  have "\<forall>x \<in> fst ` set (obj_put k v xs). a < x" if "\<not> k < a" "k \<noteq> a"
    using 2(2) that unfolding obj_put_keys by auto
  with 2 show ?case by (auto simp: less_trans)
qed simp

lemma obj_put_wf: "json_wf (JObj obj) \<Longrightarrow> json_wf v \<Longrightarrow> json_wf (JObj (obj_put k v obj))"
proof -
  have "set (map snd (obj_put k v obj)) \<subseteq> insert v (set (map snd obj))"
    by (induction k v obj rule: obj_put.induct) auto
  then show "json_wf (JObj obj) \<Longrightarrow> json_wf v \<Longrightarrow> json_wf (JObj (obj_put k v obj))"
    using obj_put_sorted [of obj k v] unfolding json_wf.simps list_all_iff by blast
qed

lemma map_of_obj_put [simp]: "map_of (obj_put k v obj) = (map_of obj)(k \<mapsto> v)"
  by (induction k v obj rule: obj_put.induct) auto

lemma pbind_Inr: "pbind m f = Some (Inr z) \<longleftrightarrow> (\<exists>x r. m = Some (Inr (x, r)) \<and> f x r = Some (Inr z))"
  by (auto simp: pbind_def split: option.splits sum.splits)

lemma scan_string_wf: "scan_string N s r = Inr (v, r') \<Longrightarrow> \<exists>t. v = JStr t"
proof (induction "length r" arbitrary: s r rule: less_induct)
  case less
  show ?case
  proof (cases r)
    case Nil
    then show ?thesis using less.prems by (auto simp: scan_string.simps)
  next
    case (Cons c cs)
    have step: "scan_string N s' t = Inr (v, r') \<Longrightarrow> length t < length r \<Longrightarrow> \<exists>t. v = JStr t" for s' t
      using less.hyps by blast
    show ?thesis
    proof (cases "c = CHR 0x5C \<and> cs \<noteq> []")
      case False
      then show ?thesis using less.prems Cons step [of "s @ [c]" cs]
        by (cases "c = CHR 0x22"; cases "c = CHR 0x5C") (auto simp: scan_string_eqs)
    next
      case True
      then obtain a ds where cs: "cs = a # ds" by (cases cs) auto
      show ?thesis
        using less.prems Cons True cs step [of _ ds] step [of _ "drop 4 ds"]
        by (cases "a = CHR ''u''")
          (simp_all add: scan_string_eqs split: if_splits option.splits sum.splits)
    qed
  qed
qed

lemma scalar_wf:
  "parse_number N r = Inr (v, r') \<Longrightarrow> json_wf v" "parse_null N r = Inr (v, r') \<Longrightarrow> json_wf v"
  "parse_bool N r = Inr (v, r') \<Longrightarrow> json_wf v" "scan_string N s r = Inr (v, r') \<Longrightarrow> json_wf v"
  by (auto simp: parse_number_def rbind_Inr_conv parse_null_def parse_bool_def split: option.splits if_splits
    prod.splits dest: scan_string_wf)

lemma parse_wf:
  "parse_value N n r = Some (Inr (v, r')) \<Longrightarrow> json_wf v"
  "parse_items N n acc r = Some (Inr (v, r')) \<Longrightarrow> list_all json_wf acc \<Longrightarrow> json_wf v"
  "parse_members N n obj r = Some (Inr (v, r')) \<Longrightarrow> json_wf (JObj obj) \<Longrightarrow> json_wf v"
proof (induction N n r and N n acc r and N n obj r arbitrary: v r' and v r' and v r'
    rule: parse_value_parse_items_parse_members.induct)
  case (2 N n r)
  show ?case
  proof (cases "skip_ws r")
    case Nil
    then show ?thesis using 2(3) by (simp add: parse_value.simps(2))
  next
    case (Cons c cs)
    note unf = parse_value.simps(2) [of N n] Cons list.case
    consider (arr) "c = CHR ''[''" | (obj) "c = CHR ''{''" | (other) "c \<noteq> CHR ''[''" "c \<noteq> CHR ''{''" by blast
    then show ?thesis
    proof cases
      case arr
      then show ?thesis using 2(1) [OF Cons] 2(3) unfolding unf
        by (cases "consume CHR '']'' cs") (auto simp: is_digit_def)
    next
      case obj
      then show ?thesis using 2(2) [OF Cons] 2(3) unfolding unf
        by (cases "consume CHR ''}'' cs") (auto simp: is_digit_def)
    next
      case other
      have "parse_null N (c # cs) = Inr (v, r') \<or> parse_bool N (c # cs) = Inr (v, r') \<or>
        scan_string N [] cs = Inr (v, r') \<or> parse_number N (c # cs) = Inr (v, r')"
        using 2(3) other unfolding unf by (simp only: if_False) (simp split: if_splits)
      then show ?thesis using scalar_wf by blast
    qed
  qed
next
  case (4 N n acc r)
  from 4(3) obtain x r1 where x: "parse_value N n r = Some (Inr (x, r1))"
    and st: "(case consume CHR '']'' r1 of Some r2 \<Rightarrow> Some (Inr (JArr (acc @ [x]), r2))
     | None \<Rightarrow> (case consume CHR '','' r1 of Some r2 \<Rightarrow> parse_items N n (acc @ [x]) r2
         | None \<Rightarrow> Some (Inl (json_fail N (skip_ws r1) (''expected '' @ quoted CHR '','' @ '' or '' @
             quoted CHR '']'' @ '' in array''))))) = Some (Inr (v, r'))"
    unfolding parse_items.simps(2) pbind_Inr by blast
  have "json_wf x" using 4(1) [OF x] .
  with st 4(2) [OF x] 4(4) show ?case by (auto split: option.splits)
next
  case (6 N n obj r)
  from 6(4) obtain kv r1 where kv: "parse_value N n r = Some (Inr (kv, r1))"
    unfolding parse_members.simps(2) pbind_Inr by blast
  obtain k where k: "kv = JStr k"
    using 6(4) unfolding parse_members.simps(2) kv by (cases kv) simp_all
  obtain r2 where r2: "consume CHR '':'' r1 = Some r2"
    using 6(4) unfolding parse_members.simps(2) kv k by (cases "consume CHR '':'' r1") simp_all
  obtain x r3 where x: "parse_value N n r2 = Some (Inr (x, r3))"
    using 6(4) unfolding parse_members.simps(2) kv k
    by (cases "parse_value N n r2") (auto simp: r2 pbind_def split: sum.splits)
  note k = kv [unfolded k] r2
  have st: "(case consume CHR ''}'' r3 of Some r4 \<Rightarrow> Some (Inr (JObj (obj_put k x obj), r4))
             | None \<Rightarrow> (case consume CHR '','' r3 of Some r4 \<Rightarrow> parse_members N n (obj_put k x obj) r4
                 | None \<Rightarrow> Some (Inl (json_fail N (skip_ws r3) (''expected '' @ quoted CHR '','' @
                     '' or '' @ quoted CHR ''}'' @ '' in object''))))) = Some (Inr (v, r'))"
    using 6(4) unfolding parse_members.simps(2) by (simp add: k x)
  have "json_wf (JObj (obj_put k x obj))"
    using obj_put_wf [OF 6(5) 6(2) [OF k(1) refl k(2) x]] .
  with st 6(3) [OF k(1) refl k(2) x] show ?case
    by (auto split: option.splits simp del: json_wf.simps)
qed simp_all


lemma json_parse_outcome:
  "case json_parse text of None \<Rightarrow> False | Some (Inl e) \<Rightarrow> err_code e = InvalidArgument
     | Some (Inr v) \<Rightarrow> json_wf v"
proof -
  have "shorter text (parse_value (length text) (parse_fuel text) text)"
    by (rule parse_shorter) (simp add: parse_fuel_def)
  moreover have "json_wf v" if "parse_value (length text) (parse_fuel text) text = Some (Inr (v, r))" for v r
    using parse_wf(1) [OF that] .
  ultimately show ?thesis
    by (auto simp: shorter_def json_parse_def Let_def split: option.splits sum.splits)
qed

section \<open>Properties\<close>

text \<open>C17. On every text the parser returns: either an InvalidArgument error, or a value all of
  whose objects list their keys in strictly ascending order.  In particular its recursion ends
  after at most twice as many calls as the text has characters.\<close>

theorem json_parse_typed:
  "case json_parse text of None \<Rightarrow> False | Some (Inl e) \<Rightarrow> err_code e = InvalidArgument
     | Some (Inr v) \<Rightarrow> json_wf v"
  by (rule json_parse_outcome)

text \<open>C15. Parsing what \<open>stringify\<close> printed, pretty or compact, gives the value back, provided
  object keys are in order and every number prints exactly; integers of magnitude below 10^15 do
  (\<open>number_exact_int\<close>), and strings may hold any bytes.\<close>

theorem json_roundtrip:
  assumes "json_ok v"
  shows "json_parse (stringify pretty v) = Some (Inr v)"
  using assms by (rule json_parse_stringify)


theorem json_roundtrip_witness:
  "json_parse (stringify True (JObj [(''a'', JArr [JNum (f64_of_int (- 7)), JBool True]), (''b'', JStr [CHR 0x0A, CHR 0x80])])) =
     Some (Inr (JObj [(''a'', JArr [JNum (f64_of_int (- 7)), JBool True]), (''b'', JStr [CHR 0x0A, CHR 0x80])]))"
  by (rule json_roundtrip) (simp add: number_exact_int)

end
