(* ===== verification/Json_Ir.thy ===== *)
theory Json_Ir
  imports Json Exec_Plan
begin

text \<open>
  Graphs and plans as JSON documents (\<open>serialize_json.cpp\<close>).  A JSON number is a \<open>double\<close>, so
  integers go through \<open>static_cast<double>\<close> on the way out and back; \<open>oor\<close> is what the conversion
  back does outside the target's range, which C++ leaves undefined.
\<close>

section \<open>Writing\<close>

definition num_u64 :: "u64 \<Rightarrow> json" where
  "num_u64 w = JNum (f64_of_u64 w)"

definition num_i64 :: "i64 \<Rightarrow> json" where
  "num_i64 w = JNum (f64_of_i64 w)"

definition ids_to_json :: "u64 list \<Rightarrow> json" where
  "ids_to_json ids = JArr (map num_u64 ids)"

definition obj_of :: "(string \<times> 'v) list \<Rightarrow> (string \<times> 'v) list" where
  "obj_of kvs = foldl (\<lambda>obj (k, v). obj_put k v obj) [] kvs"

definition version_to_json :: "ir_version \<Rightarrow> json" where
  "version_to_json v = JObj (obj_of [(''major'', JNum (f64_of_u64 (ver_major v))),
     (''minor'', JNum (f64_of_u64 (ver_minor v)))])"

definition shape_to_json :: "shape \<Rightarrow> json" where
  "shape_to_json dims = JArr (map num_i64 dims)"

fun value_to_json :: "attr_value \<Rightarrow> json" where
  "value_to_json (AString s) = JStr s"
| "value_to_json (AInt i) = num_i64 i"
| "value_to_json (AFloat x) = JNum x"
| "value_to_json (ABool b) = JBool b"
| "value_to_json (AIntArray is) = JArr (map num_i64 is)"
| "value_to_json (AFloatArray xs) = JArr (map JNum xs)"

definition attr_to_json :: "attribute \<Rightarrow> json" where
  "attr_to_json a = JObj (obj_of [(''key'', JStr (a_key a)),
     (''type'', JStr (attr_type_to_string (attribute_type a))), (''value'', value_to_json (a_value a))])"

definition tensor_to_json :: "tensor \<Rightarrow> json" where
  "tensor_to_json t = JObj (obj_of [(''id'', num_u64 (t_id t)), (''name'', JStr (t_name t)),
     (''dtype'', JStr (dtype_to_string (t_dtype t))), (''shape'', shape_to_json (t_shape t)),
     (''storage_hint'', JStr (hint_to_string (t_storage_hint t))), (''is_weight'', JBool (t_is_weight t)),
     (''weight_ref'', JStr (t_weight_ref t)), (''quant_format'', JStr (quant_to_string (t_quant_format t)))])"

definition node_to_json :: "node \<Rightarrow> json" where
  "node_to_json n = JObj (obj_of [(''id'', num_u64 (n_id n)), (''name'', JStr (n_name n)),
     (''op_name'', JStr (n_op_name n)), (''op_version'', JStr (n_op_version n)),
     (''inputs'', ids_to_json (n_inputs n)), (''outputs'', ids_to_json (n_outputs n)),
     (''attributes'', JArr (map attr_to_json (n_attributes n)))])"

definition meta_to_json :: "(string \<times> string) list \<Rightarrow> json" where
  "meta_to_json m = JObj (obj_of (map (\<lambda>(k, v). (k, JStr v)) m))"

definition graph_json :: "graph \<Rightarrow> json" where
  "graph_json g = JObj (obj_of [(''ir_version'', version_to_json (g_version g)), (''name'', JStr (g_name g)),
     (''producer'', JStr (g_producer g)), (''domain'', JStr (g_domain g)),
     (''tensors'', JArr (map tensor_to_json (g_tensors g))), (''nodes'', JArr (map node_to_json (g_nodes g))),
     (''inputs'', ids_to_json (g_inputs g)), (''outputs'', ids_to_json (g_outputs g)),
     (''metadata'', meta_to_json (g_metadata g))])"

definition graph_to_json :: "graph \<Rightarrow> string" where
  "graph_to_json g = stringify True (graph_json g)"

definition op_to_json :: "planned_op \<Rightarrow> json" where
  "op_to_json op = JObj (obj_of [(''node_id'', num_u64 (po_node_id op)), (''node_name'', JStr (po_node_name op)),
     (''op_name'', JStr (po_op_name op)), (''op_version'', JStr (po_op_version op)),
     (''preferred_device'', JStr (device_to_string (po_preferred_device op))),
     (''selected_kernel'', JStr (po_selected_kernel op)), (''dependencies'', ids_to_json (po_dependencies op)),
     (''inputs'', ids_to_json (po_inputs op)), (''outputs'', ids_to_json (po_outputs op))])"

definition plan_to_json :: "execution_plan \<Rightarrow> string" where
  "plan_to_json p = stringify True (JObj (obj_of [(''ir_version'', version_to_json (ep_ir_version p)),
     (''graph_name'', JStr (ep_graph_name p)), (''ops'', JArr (map op_to_json (ep_ops p)))]))"

section \<open>Reading\<close>

definition invalid :: "string \<Rightarrow> error + 'a" where
  "invalid msg = Inl (Error InvalidArgument msg)"

fun collect :: "('a \<Rightarrow> error + 'b) \<Rightarrow> 'a list \<Rightarrow> error + 'b list" where
  "collect f [] = Inr []"
| "collect f (x # xs) = rbind (f x) (\<lambda>y. rbind (collect f xs) (\<lambda>ys. Inr (y # ys)))"

definition number_as :: "string \<Rightarrow> (f64 \<Rightarrow> 'a) \<Rightarrow> json \<Rightarrow> error + 'a" where
  "number_as msg f v = (case v of JNum x \<Rightarrow> Inr (f x) | _ \<Rightarrow> invalid msg)"

definition str_field :: "(string \<times> json) list \<Rightarrow> string \<Rightarrow> string \<Rightarrow> string" where
  "str_field obj key dflt = (case json_get obj key of Some (JStr s) \<Rightarrow> s | _ \<Rightarrow> dflt)"

definition array_field ::
  "(string \<times> json) list \<Rightarrow> string \<Rightarrow> string \<Rightarrow> (json \<Rightarrow> error + 'a) \<Rightarrow> error + 'a list" where
  "array_field obj key ctx f = (case json_get obj key of None \<Rightarrow> Inr []
     | Some v \<Rightarrow> rbind (require_array ctx v) (collect f))"

definition id_field :: "out_of_range \<Rightarrow> (string \<times> json) list \<Rightarrow> string \<Rightarrow> error + u64" where
  "id_field oor obj msg = (case json_get obj ''id'' of Some (JNum x) \<Rightarrow> Inr (f64_to_u64 oor x)
     | _ \<Rightarrow> invalid msg)"

definition shape_from_json :: "out_of_range \<Rightarrow> json \<Rightarrow> error + shape" where
  "shape_from_json oor v = rbind (require_array ''shape'' v)
     (collect (number_as ''shape dims must be numbers'' (f64_to_i64 oor)))"

definition value_from_json :: "out_of_range \<Rightarrow> string \<Rightarrow> json \<Rightarrow> error + attr_value" where
  "value_from_json oor ty v =
     (if ty = ''string'' then (case v of JStr s \<Rightarrow> Inr (AString s) | _ \<Rightarrow> invalid ''string attr value'')
      else if ty = ''int'' then rbind (number_as ''int attr value'' (f64_to_i64 oor) v) (\<lambda>i. Inr (AInt i))
      else if ty = ''float'' then rbind (number_as ''float attr value'' id v) (\<lambda>x. Inr (AFloat x))
      else if ty = ''bool'' then (case v of JBool b \<Rightarrow> Inr (ABool b) | _ \<Rightarrow> invalid ''bool attr value'')
      else if ty = ''int_array'' then rbind (require_array ''int_array'' v) (\<lambda>a.
        rbind (collect (number_as ''int_array item'' (f64_to_i64 oor)) a) (\<lambda>is. Inr (AIntArray is)))
      else if ty = ''float_array'' then rbind (require_array ''float_array'' v) (\<lambda>a.
        rbind (collect (number_as ''float_array item'' id) a) (\<lambda>xs. Inr (AFloatArray xs)))
      else invalid (''unknown attribute type '' @ ty))"

definition attr_from_json :: "out_of_range \<Rightarrow> json \<Rightarrow> error + attribute" where
  "attr_from_json oor v = rbind (require_object ''attribute'' v) (\<lambda>obj.
     case (json_get obj ''key'', json_get obj ''type'', json_get obj ''value'') of
       (Some (JStr k), Some (JStr ty), Some val) \<Rightarrow>
         rbind (value_from_json oor ty val) (\<lambda>x. Inr (Attribute k x))
     | _ \<Rightarrow> invalid ''attribute missing key/type/value'')"

definition dtype_field :: "(string \<times> json) list \<Rightarrow> error + dtype" where
  "dtype_field obj = (case json_get obj ''dtype'' of
       Some (JStr s) \<Rightarrow> (case parse_dtype s of Some d \<Rightarrow> Inr d | None \<Rightarrow> invalid (''bad dtype '' @ s))
     | _ \<Rightarrow> Inr DT_Unknown)"

definition shape_field :: "out_of_range \<Rightarrow> (string \<times> json) list \<Rightarrow> error + shape" where
  "shape_field oor obj = (case json_get obj ''shape'' of None \<Rightarrow> Inr [] | Some v \<Rightarrow> shape_from_json oor v)"

definition hint_field :: "(string \<times> json) list \<Rightarrow> error + storage_hint" where
  "hint_field obj = (case json_get obj ''storage_hint'' of
       Some (JStr s) \<Rightarrow> (case parse_storage_hint s of Some h \<Rightarrow> Inr h | None \<Rightarrow> invalid ''bad storage_hint'')
     | _ \<Rightarrow> Inr SH_Unspecified)"

definition bool_field :: "(string \<times> json) list \<Rightarrow> string \<Rightarrow> bool" where
  "bool_field obj key = (case json_get obj key of Some (JBool b) \<Rightarrow> b | _ \<Rightarrow> False)"

definition quant_field :: "(string \<times> json) list \<Rightarrow> quant_format" where
  "quant_field obj = (case json_get obj ''quant_format'' of
       Some (JStr s) \<Rightarrow> (case parse_quant_format s of Some q \<Rightarrow> q | None \<Rightarrow> QF_F32) | _ \<Rightarrow> QF_F32)"

definition tensor_from_json :: "out_of_range \<Rightarrow> json \<Rightarrow> error + tensor" where
  "tensor_from_json oor v = rbind (require_object ''tensor'' v) (\<lambda>obj.
     rbind (id_field oor obj ''tensor.id required'') (\<lambda>i.
     rbind (dtype_field obj) (\<lambda>d. rbind (shape_field oor obj) (\<lambda>sh. rbind (hint_field obj) (\<lambda>h.
       Inr \<lparr>t_id = i, t_name = str_field obj ''name'' [], t_dtype = d, t_shape = sh, t_storage_hint = h,
         t_is_weight = bool_field obj ''is_weight'', t_weight_ref = str_field obj ''weight_ref'' [],
         t_quant_format = quant_field obj\<rparr>)))))"

definition node_from_json :: "out_of_range \<Rightarrow> json \<Rightarrow> error + node" where
  "node_from_json oor v = rbind (require_object ''node'' v) (\<lambda>obj.
     rbind (id_field oor obj ''node.id required'') (\<lambda>i.
     rbind (array_field obj ''inputs'' ''node.inputs'' (number_as ''node.inputs id'' (f64_to_u64 oor))) (\<lambda>ins.
     rbind (array_field obj ''outputs'' ''node.outputs'' (number_as ''node.outputs id'' (f64_to_u64 oor))) (\<lambda>outs.
     rbind (array_field obj ''attributes'' ''node.attributes'' (attr_from_json oor)) (\<lambda>attrs.
       Inr \<lparr>n_id = i, n_name = str_field obj ''name'' [], n_op_name = str_field obj ''op_name'' [],
         n_op_version = str_field obj ''op_version'' ''1'', n_inputs = ins, n_outputs = outs,
         n_attributes = attrs\<rparr>)))))"

definition version_from_json :: "out_of_range \<Rightarrow> (string \<times> json) list \<Rightarrow> error + ir_version" where
  "version_from_json oor root = (case json_get root ''ir_version'' of None \<Rightarrow> Inr current_ir_version
     | Some v \<Rightarrow> rbind (require_object ''ir_version'' v) (\<lambda>vo.
         case (json_get vo ''major'', json_get vo ''minor'') of
           (Some (JNum a), Some (JNum b)) \<Rightarrow> Inr (IrVersion (f64_to_u32 oor a) (f64_to_u32 oor b))
         | _ \<Rightarrow> invalid ''ir_version.major/minor required''))"

definition meta_from_json :: "(string \<times> json) list \<Rightarrow> (string \<times> string) list" where
  "meta_from_json root = (case json_get root ''metadata'' of
       Some (JObj m) \<Rightarrow> concat (map (\<lambda>(k, v). case v of JStr s \<Rightarrow> [(k, s)] | _ \<Rightarrow> []) m) | _ \<Rightarrow> [])"

definition graph_of_json :: "out_of_range \<Rightarrow> json \<Rightarrow> error + graph" where
  "graph_of_json oor v = rbind (require_object ''graph'' v) (\<lambda>root.
     rbind (version_from_json oor root) (\<lambda>ver.
     rbind (array_field root ''tensors'' ''tensors'' (tensor_from_json oor)) (\<lambda>ts.
     rbind (array_field root ''nodes'' ''nodes'' (node_from_json oor)) (\<lambda>ns.
     rbind (array_field root ''inputs'' ''inputs'' (number_as ''inputs ids'' (f64_to_u64 oor))) (\<lambda>ins.
     rbind (array_field root ''outputs'' ''outputs'' (number_as ''outputs ids'' (f64_to_u64 oor))) (\<lambda>outs.
       Inr \<lparr>g_version = ver, g_name = str_field root ''name'' [], g_producer = str_field root ''producer'' [],
         g_domain = str_field root ''domain'' ''uaii'', g_tensors = ts, g_nodes = ns, g_inputs = ins,
         g_outputs = outs, g_metadata = meta_from_json root\<rparr>))))))"

definition graph_from_json :: "out_of_range \<Rightarrow> string \<Rightarrow> (error + graph) option" where
  "graph_from_json oor text = map_option (\<lambda>r. rbind r (graph_of_json oor)) (json_parse text)"

section \<open>Round trip\<close>

lemma map_of_obj_of [simp]: "map_of (obj_of kvs) = map_of (rev kvs)"
proof -
  have "map_of (foldl (\<lambda>obj (k, v). obj_put k v obj) obj kvs) = map_of obj ++ map_of (rev kvs)" for obj
    by (induction kvs arbitrary: obj) (auto simp: map_add_def fun_eq_iff split: option.split)
  from this [of "[]"] show ?thesis by (simp add: obj_of_def)
qed

lemma foldl_obj_put_sorted:
  "sorted_wrt (<) (map fst obj) \<Longrightarrow> sorted_wrt (<) (map fst (foldl (\<lambda>obj (k, v). obj_put k v obj) obj kvs))"
  by (induction kvs arbitrary: obj) (auto simp: obj_put_sorted)

lemma obj_of_sorted [simp]: "sorted_wrt (<) (map fst (obj_of kvs))"
  unfolding obj_of_def by (rule foldl_obj_put_sorted) simp

lemma obj_put_values: "snd ` set (obj_put k v obj) \<subseteq> insert v (snd ` set obj)"
  by (induction k v obj rule: obj_put.induct) auto

lemma obj_of_values: "snd ` set (obj_of kvs) \<subseteq> snd ` set kvs"
proof -
  have "snd ` set (foldl (\<lambda>obj (k, v). obj_put k v obj) obj kvs) \<subseteq> snd ` set obj \<union> snd ` set kvs" for obj
  proof (induction kvs arbitrary: obj)
    case (Cons kv kvs)
    obtain k v where kv: "kv = (k, v)" by (cases kv)
    show ?case using Cons [of "obj_put k v obj"] obj_put_values [of k v obj] by (auto simp: kv)
  qed simp
  from this [of "[]"] show ?thesis by (simp add: obj_of_def)
qed

lemma json_ok_obj_of:
  assumes "\<forall>v \<in> snd ` set kvs. json_ok v"
  shows "json_ok (JObj (obj_of kvs))"
proof -
  have "\<forall>v \<in> set (map snd (obj_of kvs)). json_ok v" 
    using assms obj_of_values [of kvs] by (simp only: set_map) blast
  then show ?thesis unfolding json_ok.simps list.pred_set by simp
qed

text \<open>A writer and a reader of JSON values that fit together.\<close>

locale json_codec =
  fixes enc :: "'a \<Rightarrow> json" and dec :: "json \<Rightarrow> error + 'a" and ok :: "'a \<Rightarrow> bool"
  assumes enc_ok: "ok x \<Longrightarrow> json_ok (enc x)" and dec_enc: "ok x \<Longrightarrow> dec (enc x) = Inr x"
begin

lemma array_ok: "\<forall>x \<in> set xs. ok x \<Longrightarrow> json_ok (JArr (map enc xs))"
  by (simp add: list_all_iff enc_ok)

lemma collect_map: "\<forall>x \<in> set xs. ok x \<Longrightarrow> collect dec (map enc xs) = Inr xs"
  by (induction xs) (simp_all add: dec_enc)

lemma field_array:
  "\<forall>x \<in> set xs. ok x \<Longrightarrow> json_get obj key = Some (JArr (map enc xs)) \<Longrightarrow>
     array_field obj key ctx dec = Inr xs"
  by (simp add: array_field_def require_array_def collect_map)

end

definition small_u64 :: "u64 \<Rightarrow> bool" where "small_u64 w \<longleftrightarrow> uint w < 10 ^ 15"
definition small_i64 :: "i64 \<Rightarrow> bool" where "small_i64 w \<longleftrightarrow> abs (sint w) < 10 ^ 15"


lemma small_u64_ok: "small_u64 w \<Longrightarrow> json_ok (num_u64 w)" "small_u64 w \<Longrightarrow> f64_to_u64 oor (f64_of_u64 w) = w"
proof -
  assume "small_u64 w"
  then have u: "uint w < 10 ^ 15" by (simp add: small_u64_def)
  then show "json_ok (num_u64 w)"
    using number_exact_int [of "uint w"] by (simp add: num_u64_def f64_of_u64_def)
  show "f64_to_u64 oor (f64_of_u64 w) = w" using u by (intro f64_u64_roundtrip) simp
qed

lemma small_i64_ok: "small_i64 w \<Longrightarrow> json_ok (num_i64 w)" "small_i64 w \<Longrightarrow> f64_to_i64 oor (f64_of_i64 w) = w"
  using number_exact_int [of "sint w"] f64_i64_roundtrip [of w]
  by (simp_all add: small_i64_def num_i64_def f64_of_i64_def)

lemma version_number_exact: "number_exact (f64_of_u64 (w :: u32))"
  using number_exact_int [of "uint w"] uint_bounded [of w] by (simp add: f64_of_u64_def)

interpretation json_id: json_codec num_u64 "number_as msg (f64_to_u64 oor)" small_u64 for msg oor
  using small_u64_ok by unfold_locales (simp_all add: number_as_def num_u64_def)

interpretation json_dim: json_codec num_i64 "number_as msg (f64_to_i64 oor)" small_i64 for msg oor
  using small_i64_ok by unfold_locales (simp_all add: number_as_def num_i64_def)

interpretation json_float: json_codec JNum "number_as msg id" number_exact for msg
  by unfold_locales (simp_all add: number_as_def)

fun value_exact :: "attr_value \<Rightarrow> bool" where
  "value_exact (AInt i) = small_i64 i"
| "value_exact (AFloat x) = number_exact x"
| "value_exact (AIntArray is) = list_all small_i64 is"
| "value_exact (AFloatArray xs) = list_all number_exact xs"
| "value_exact _ = True"

lemma value_json:
  assumes "value_exact v"
  shows "json_ok (value_to_json v) \<and>
    value_from_json oor (attr_type_to_string (value_type v)) (value_to_json v) = Inr v"
  using assms json_dim.enc_ok json_dim.dec_enc json_dim.array_ok json_dim.collect_map
    json_float.dec_enc json_float.array_ok json_float.collect_map
  by (cases v) (simp_all add: value_from_json_def require_array_def list.pred_set)

definition attr_exact :: "attribute \<Rightarrow> bool" where
  "attr_exact a \<longleftrightarrow> value_exact (a_value a)"

interpretation json_attr: json_codec attr_to_json "attr_from_json oor" attr_exact for oor
proof unfold_locales
  fix a assume "attr_exact a"
  then have v: "json_ok (value_to_json (a_value a))"
    "value_from_json oor (attr_type_to_string (value_type (a_value a))) (value_to_json (a_value a)) = Inr (a_value a)"
    using value_json by (simp_all add: attr_exact_def)
  show "json_ok (attr_to_json a)" unfolding attr_to_json_def by (rule json_ok_obj_of) (simp add: v)
  show "attr_from_json oor (attr_to_json a) = Inr a"
    by (simp add: attr_from_json_def attr_to_json_def require_object_def json_get_def attribute_type_def v)
qed

definition tensor_exact :: "tensor \<Rightarrow> bool" where
  "tensor_exact t \<longleftrightarrow> small_u64 (t_id t) \<and> (\<forall>d \<in> set (t_shape t). small_i64 d) \<and>
     (\<forall>b. t_dtype t \<noteq> DT_Raw b) \<and> (\<forall>b. t_storage_hint t \<noteq> SH_Raw b)"

lemma shape_json:
  assumes "\<forall>d \<in> set sh. small_i64 d"
  shows "json_ok (shape_to_json sh)" and "shape_from_json oor (shape_to_json sh) = Inr sh"
  using json_dim.array_ok [OF assms] json_dim.collect_map [OF assms]
  by (simp_all add: shape_to_json_def shape_from_json_def require_array_def)

interpretation json_tensor: json_codec tensor_to_json "tensor_from_json oor" tensor_exact for oor
proof unfold_locales
  fix t assume t: "tensor_exact t"
  note sh = shape_json [of "t_shape t"]
  show "json_ok (tensor_to_json t)" unfolding tensor_to_json_def
    by (rule json_ok_obj_of) (use t sh in \<open>simp add: tensor_exact_def json_id.enc_ok\<close>)
  have d: "parse_dtype (dtype_to_string (t_dtype t)) = Some (t_dtype t)"
    "parse_storage_hint (hint_to_string (t_storage_hint t)) = Some (t_storage_hint t)"
    using t by (auto simp: parse_dtype_to_string parse_hint_to_string tensor_exact_def
      split: dtype.splits storage_hint.splits)
  have i: "f64_to_u64 oor (f64_of_u64 (t_id t)) = t_id t"
    using t small_u64_ok by (simp add: tensor_exact_def)
  show "tensor_from_json oor (tensor_to_json t) = Inr t"
    using t sh by (simp add: tensor_from_json_def tensor_to_json_def require_object_def json_get_def
      id_field_def dtype_field_def shape_field_def hint_field_def bool_field_def quant_field_def
      str_field_def num_u64_def d i parse_quant_to_string tensor_exact_def)
qed

definition node_exact :: "node \<Rightarrow> bool" where
  "node_exact n \<longleftrightarrow> small_u64 (n_id n) \<and> (\<forall>i \<in> set (n_inputs n). small_u64 i) \<and>
     (\<forall>i \<in> set (n_outputs n). small_u64 i) \<and> (\<forall>a \<in> set (n_attributes n). attr_exact a)"

interpretation json_node: json_codec node_to_json "node_from_json oor" node_exact for oor
proof unfold_locales
  fix n assume n: "node_exact n"
  show "json_ok (node_to_json n)" unfolding node_to_json_def
    by (rule json_ok_obj_of)
      (use n in \<open>simp add: node_exact_def ids_to_json_def json_id.enc_ok json_id.array_ok json_attr.array_ok
        del: json_ok.simps(2)\<close>)
  have i: "f64_to_u64 oor (f64_of_u64 (n_id n)) = n_id n"
    using n small_u64_ok by (simp add: node_exact_def)
  show "node_from_json oor (node_to_json n) = Inr n"
    using n by (simp add: node_from_json_def node_to_json_def require_object_def json_get_def ids_to_json_def
      id_field_def str_field_def num_u64_def [of "n_id n"] i node_exact_def array_field_def require_array_def
      json_id.collect_map json_attr.collect_map)
qed

definition graph_exact :: "graph \<Rightarrow> bool" where
  "graph_exact g \<longleftrightarrow> (\<forall>t \<in> set (g_tensors g). tensor_exact t) \<and> (\<forall>n \<in> set (g_nodes g). node_exact n) \<and>
     (\<forall>i \<in> set (g_inputs g). small_u64 i) \<and> (\<forall>i \<in> set (g_outputs g). small_u64 i)"

text \<open>The metadata come back in the order of their keys.\<close>

definition json_view :: "graph \<Rightarrow> graph" where
  "json_view g = g\<lparr>g_metadata := obj_of (g_metadata g)\<rparr>"

lemma meta_values:
  "concat (map (\<lambda>(k, v). case v of JStr s \<Rightarrow> [(k, s)] | _ \<Rightarrow> []) (obj_of (map (\<lambda>(k, s). (k, JStr s)) m))) = obj_of m"
proof -
  have put: "obj_put k (JStr s) (map (\<lambda>(k, s). (k, JStr s)) obj) = map (\<lambda>(k, s). (k, JStr s)) (obj_put k s obj)"
    for k s and obj :: "(string \<times> string) list"
    by (induction k s obj rule: obj_put.induct) auto
  have "foldl (\<lambda>obj (k, v). obj_put k v obj) (map (\<lambda>(k, s). (k, JStr s)) obj) (map (\<lambda>(k, s). (k, JStr s)) m) =
      map (\<lambda>(k, s). (k, JStr s)) (foldl (\<lambda>obj (k, v). obj_put k v obj) obj m)" for obj
    by (induction m arbitrary: obj) (auto simp: put)
  from this [of "[]"] have "obj_of (map (\<lambda>(k, s). (k, JStr s)) m) = map (\<lambda>(k, s). (k, JStr s)) (obj_of m)"
    by (simp add: obj_of_def)
  moreover have "concat (map (\<lambda>(k, v). case v of JStr s \<Rightarrow> [(k, s)] | _ \<Rightarrow> []) (map (\<lambda>(k, s). (k, JStr s)) xs)) = xs"
    for xs :: "(string \<times> string) list"
    by (induction xs) auto
  ultimately show ?thesis by simp
qed

lemma version_json:
  "json_ok (version_to_json v)"
  "json_get root ''ir_version'' = Some (version_to_json v) \<Longrightarrow> version_from_json oor root = Inr v"
proof -
  show "json_ok (version_to_json v)" unfolding version_to_json_def
    by (rule json_ok_obj_of) (simp add: version_number_exact)
  show "json_get root ''ir_version'' = Some (version_to_json v) \<Longrightarrow> version_from_json oor root = Inr v"
    by (simp add: version_from_json_def version_to_json_def require_object_def json_get_def f64_u32_roundtrip)
qed

lemma graph_json_ok:
  assumes "graph_exact g"
  shows "json_ok (graph_json g)"
proof -
  have "json_ok (meta_to_json m)" for m
    unfolding meta_to_json_def by (rule json_ok_obj_of) auto
  then show ?thesis using assms unfolding graph_json_def
    by (intro json_ok_obj_of) (simp add: version_json ids_to_json_def json_id.array_ok json_tensor.array_ok
      json_node.array_ok graph_exact_def del: json_ok.simps(2))
qed

lemma graph_of_graph_json:
  assumes "graph_exact g"
  shows "graph_of_json oor (graph_json g) = Inr (json_view g)"
  using assms
  by (simp add: graph_of_json_def graph_json_def require_object_def version_json(2) json_get_def
    array_field_def require_array_def ids_to_json_def json_id.collect_map json_tensor.collect_map
    json_node.collect_map graph_exact_def str_field_def meta_from_json_def meta_to_json_def meta_values
    json_view_def)

lemma graph_from_written:
  "graph_exact g \<Longrightarrow> graph_from_json oor (graph_to_json g) = Some (Inr (json_view g))"
  by (simp add: graph_from_json_def graph_to_json_def json_parse_stringify graph_json_ok graph_of_graph_json)


section \<open>Property\<close>


definition json_demo :: graph where
  "json_demo = graph_default\<lparr>g_name := ''demo'', g_tensors := [tensor_default\<lparr>t_id := 1, t_name := ''w'',
       t_dtype := DT_F16, t_shape := [256, - 1], t_is_weight := True, t_quant_format := QF_Q4_K\<rparr>],
     g_nodes := [\<lparr>n_id = 1, n_name = [], n_op_name = ''Relu'', n_op_version = ''1'', n_inputs = [1], n_outputs = [],
       n_attributes = [make_int_attr ''axis'' (- 1)]\<rparr>],
     g_inputs := [1], g_metadata := [(''z'', ''1''), (''a'', ''2'')]\<rparr>"


end
