(* ===== verification/Memory_Pool.thy ===== *)
theory Memory_Pool
  imports Prelude
begin

text \<open>
  The memory budget and the size-classed buffer pool (\<open>memory/budget.hpp\<close>, \<open>budget.cpp\<close>,
  \<open>memory/pool.hpp\<close>, \<open>pool.cpp\<close>).

  A pointer is its address, \<open>nullptr\<close> is 0.  What \<open>std::malloc\<close> answers is an input of the
  operation (\<open>None\<close> for null); the proofs ask only that it is not an address the pool holds.
  The pool's mutex makes each operation one step.  \<open>budget_\<close> may be null: \<open>None\<close>.
\<close>

section \<open>The budget\<close>

record budget =
  bg_limit :: u64
  bg_used :: u64
  bg_peak :: u64

definition new_budget :: "u64 \<Rightarrow> budget" where
  "new_budget limit = \<lparr>bg_limit = limit, bg_used = 0, bg_peak = 0\<rparr>"

definition set_limit :: "u64 \<Rightarrow> budget \<Rightarrow> budget" where
  "set_limit l b = b\<lparr>bg_limit := l\<rparr>"

definition reset_peak :: "budget \<Rightarrow> budget" where
  "reset_peak b = b\<lparr>bg_peak := bg_used b\<rparr>"

definition reserve :: "u64 \<Rightarrow> budget \<Rightarrow> error + budget" where
  "reserve need b =
     (if bg_limit b \<noteq> 0 \<and> bg_used b + need > bg_limit b
      then Inl (Error InvalidArgument (''memory budget exceeded: used='' @ u64_dec (bg_used b) @
             '' need='' @ u64_dec need @ '' limit='' @ u64_dec (bg_limit b)))
      else let used = bg_used b + need
           in Inr (b\<lparr>bg_used := used, bg_peak := (if used > bg_peak b then used else bg_peak b)\<rparr>))"

definition release :: "u64 \<Rightarrow> budget \<Rightarrow> budget" where
  "release n b = (if n \<ge> bg_used b then b\<lparr>bg_used := 0\<rparr> else b\<lparr>bg_used := bg_used b - n\<rparr>)"

text \<open>The interface the pool and the arena use.  \<open>room\<close> is the precondition under which a
  reservation is counted exactly.\<close>

locale accountant =
  fixes acquire :: "u64 \<Rightarrow> 'b \<Rightarrow> error + 'b" and give_back :: "u64 \<Rightarrow> 'b \<Rightarrow> 'b"
    and amount :: "'b \<Rightarrow> nat" and room :: "u64 \<Rightarrow> 'b \<Rightarrow> bool"
  assumes acquire_amount: "room n b \<Longrightarrow> acquire n b = Inr b' \<Longrightarrow> amount b' = amount b + unat n"
    and give_back_amount: "amount (give_back n b) = amount b - unat n"
begin

lemma acquire_give_back: "room n b \<Longrightarrow> acquire n b = Inr b' \<Longrightarrow> amount (give_back n b') = amount b"
  by (simp add: acquire_amount give_back_amount)

lemma give_back_all: "amount (fold give_back ns b) = amount b - sum_list (map unat ns)"
  by (induction ns arbitrary: b) (simp_all add: give_back_amount)

end

definition reserve_fits :: "u64 \<Rightarrow> budget \<Rightarrow> bool" where
  "reserve_fits n b \<longleftrightarrow> unat (bg_used b) + unat n < 2 ^ 64"

interpretation budget: accountant reserve release "\<lambda>b. unat (bg_used b)" reserve_fits
proof
  show "unat (bg_used b') = unat (bg_used b) + unat n"
    if "reserve_fits n b" "reserve n b = Inr b'" for n b b'
    using that unat_add_exact [of "bg_used b" n]
    by (auto simp: reserve_def reserve_fits_def Let_def split: if_splits)
  show "unat (bg_used (release n b)) = unat (bg_used b) - unat n" for n b
    by (auto simp: release_def word_le_nat_alt unat_sub not_le)
qed

lemma release_fields [simp]: "bg_limit (release n b) = bg_limit b" "bg_peak (release n b) = bg_peak b"
  by (simp_all add: release_def)

lemma reserve_bounds:
  assumes "reserve n b = Inr b'"
  shows "bg_limit b' = bg_limit b" "bg_used b' = bg_used b + n"
    "bg_limit b \<noteq> 0 \<Longrightarrow> bg_used b' \<le> bg_limit b'" "bg_used b' \<le> bg_peak b'" "bg_peak b \<le> bg_peak b'"
  using assms by (auto simp: reserve_def Let_def split: if_splits)

text \<open>With a limit set, a reservation that does not overflow 64 bits is granted
  exactly when used + need stays within the limit; it then adds the need to the usage, and the
  peak is the maximum seen.  Releasing the same amount restores the usage.\<close>

theorem reserve_within_limit:
  assumes "unat (bg_used b) + unat n < 2 ^ 64" and "bg_limit b \<noteq> 0"
  shows "(is_ok (reserve n b) \<longleftrightarrow> unat (bg_used b) + unat n \<le> unat (bg_limit b)) \<and>
    (\<forall>b'. reserve n b = Inr b' \<longrightarrow> unat (bg_used b') = unat (bg_used b) + unat n \<and>
       unat (bg_peak b') = max (unat (bg_peak b)) (unat (bg_used b')) \<and>
       bg_used (release n b') = bg_used b)"
proof -
  have ex: "unat (bg_used b + n) = unat (bg_used b) + unat n"
    using assms(1) by (simp add: unat_add_exact)
  have fits: "reserve_fits n b" using assms(1) by (simp add: reserve_fits_def)
  have "is_ok (reserve n b) \<longleftrightarrow> unat (bg_used b) + unat n \<le> unat (bg_limit b)"
    using assms(2) ex by (simp add: reserve_def Let_def word_less_nat_alt not_less)
  moreover have "unat (bg_used b') = unat (bg_used b) + unat n \<and>
       unat (bg_peak b') = max (unat (bg_peak b)) (unat (bg_used b')) \<and>
       bg_used (release n b') = bg_used b" if r: "reserve n b = Inr b'" for b'
  proof (intro conjI)
    show "unat (bg_used b') = unat (bg_used b) + unat n"
      by (rule budget.acquire_amount [OF fits r])
    show "unat (bg_peak b') = max (unat (bg_peak b)) (unat (bg_used b'))"
      using r by (auto simp: reserve_def Let_def word_less_nat_alt max_def not_less split: if_splits)
    show "bg_used (release n b') = bg_used b"
      using budget.acquire_give_back [OF fits r] by (simp add: word_unat_eq_iff)
  qed
  ultimately show ?thesis by blast
qed

theorem reserve_within_limit_witness:
  "(let b = \<lparr>bg_limit = 100, bg_used = 60, bg_peak = 90\<rparr>
    in is_ok (reserve 40 b) \<and> \<not> is_ok (reserve 41 b))"
  using reserve_within_limit [of "\<lparr>bg_limit = 100, bg_used = 60, bg_peak = 90\<rparr>" 40]
    reserve_within_limit [of "\<lparr>bg_limit = 100, bg_used = 60, bg_peak = 90\<rparr>" 41]
  by simp

text \<open>C31. The check adds in 64 bits: whenever used + need reaches 2^64 and the wrapped
  sum is within the limit, a reservation larger than the limit is granted and the usage
  falls.\<close>

theorem reserve_wraps:
  assumes "unat (bg_used b) + unat n = 2 ^ 64 + k" and "k \<le> unat (bg_limit b)"
  shows "\<exists>b'. reserve n b = Inr b' \<and> unat (bg_used b') = k \<and> unat (bg_used b') < unat (bg_used b)"
proof -
  have u: "unat (bg_used b + n) = k"
  proof -
    have "unat (bg_used b + n) = (2 ^ 64 + k) mod 2 ^ 64"
      using assms(1) by (simp add: unat_word_ariths(1))
    moreover have "k < 2 ^ 64" using assms(2) unat_u64_less [of "bg_limit b"] by simp
    ultimately show ?thesis by simp
  qed
  then have "\<not> bg_used b + n > bg_limit b" using assms(2) by (simp add: word_less_nat_alt)
  moreover have "unat n < 2 ^ 64" using unat_u64_less [of n] by simp
  ultimately show ?thesis using u assms(1) by (simp add: reserve_def Let_def)
qed

theorem reserve_wraps_witness:
  "\<exists>b'. reserve (2 ^ 64 - 50) \<lparr>bg_limit = 100, bg_used = 60, bg_peak = 60\<rparr> = Inr b' \<and>
     unat (bg_used b') = 10"
  using reserve_wraps [of "\<lparr>bg_limit = 100, bg_used = 60, bg_peak = 60\<rparr>" "2 ^ 64 - 50" 10] by auto

section \<open>Size classes\<close>

definition round_up_size :: "u64 \<Rightarrow> u64" where
  "round_up_size n =
     (let k = while (\<lambda>k. k < n \<and> \<not> k > 2 ^ 30) (\<lambda>k. k + k) 64 in if k < n then n else k)"

definition size_class :: "u64 \<Rightarrow> bool" where
  "size_class k \<longleftrightarrow> (\<exists>e. 6 \<le> e \<and> e \<le> 31 \<and> unat k = 2 ^ e)"

lemma size_class_double:
  assumes "size_class k" and "\<not> k > 2 ^ 30"
  shows "size_class (k + k)" and "unat (k + k) = 2 * unat k"
proof -
  obtain e where e: "6 \<le> e" "e \<le> 31" "unat k = 2 ^ e" using assms(1) by (auto simp: size_class_def)
  have le: "unat k \<le> 2 ^ 30" using assms(2) by (simp add: word_less_nat_alt not_less)
  then have "(2::nat) ^ e \<le> 2 ^ 30" using e(3) by simp
  then have e30: "e \<le> 30" by (rule power_le_imp_le_exp [rotated]) simp
  show d: "unat (k + k) = 2 * unat k"
    using unat_add_exact [of k k] le by simp
  show "size_class (k + k)"
    unfolding size_class_def d using e e30 by (intro exI [of _ "Suc e"]) auto
qed

lemma round_up_terminates:
  "\<exists>k. while_option (\<lambda>k. k < n \<and> \<not> k > 2 ^ 30) (\<lambda>k. k + k) (64 :: u64) = Some k"
proof (rule measure_while_option_Some [where P = size_class and f = "\<lambda>k. 2 ^ 31 - unat k"])
  fix k assume k: "size_class k" "k < n \<and> \<not> k > 2 ^ 30"
  have "0 < unat k" "unat k \<le> 2 ^ 30"
    using k by (auto simp: size_class_def word_less_nat_alt not_less)
  then show "size_class (k + k) \<and> 2 ^ 31 - unat (k + k) < 2 ^ 31 - unat k"
    using size_class_double [of k] k by auto
next
  show "size_class 64" unfolding size_class_def by (intro exI [of _ 6]) simp
qed

lemma round_up_size_spec:
  "n \<le> round_up_size n" "64 \<le> unat (round_up_size n)"
  "size_class (round_up_size n) \<or> (round_up_size n = n \<and> 2 ^ 31 < unat n)"
proof -
  obtain k where k: "while_option (\<lambda>k. k < n \<and> \<not> k > 2 ^ 30) (\<lambda>k. k + k) 64 = Some k"
    using round_up_terminates by blast
  have cls: "size_class k"
  proof (rule while_option_rule [where P = size_class, OF _ k])
    show "size_class (s + s)" if "size_class s" "s < n \<and> \<not> s > 2 ^ 30" for s
      using size_class_double that by blast
    show "size_class 64" unfolding size_class_def by (intro exI [of _ 6]) simp
  qed
  have stop: "\<not> (k < n \<and> \<not> k > 2 ^ 30)" by (rule while_option_stop [OF k])
  have eq: "round_up_size n = (if k < n then n else k)"
    using k by (simp add: round_up_size_def while_def Let_def)
  have big: "64 \<le> unat k"
  proof -
    obtain e where "6 \<le> e" "unat k = 2 ^ e" using cls by (auto simp: size_class_def)
    then show ?thesis using power_increasing [of 6 e "2::nat"] by simp
  qed
  show "n \<le> round_up_size n" by (simp add: eq not_less)
  show "64 \<le> unat (round_up_size n)" using big by (auto simp: eq word_less_nat_alt)
  show "size_class (round_up_size n) \<or> (round_up_size n = n \<and> 2 ^ 31 < unat n)"
  proof (cases "k < n")
    case True
    obtain e where e: "e \<le> 31" "unat k = 2 ^ e" using cls by (auto simp: size_class_def)
    have "(2::nat) ^ 30 < 2 ^ e" using stop True e by (auto simp: word_less_nat_alt)
    then have "30 < e" by (rule power_less_imp_less_exp [rotated]) simp
    then have "e = 31" using e(1) by simp
    then have "unat k = 2 ^ 31" using e(2) by simp
    then show ?thesis using True by (simp add: eq word_less_nat_alt)
  next
    case False
    then show ?thesis using cls by (simp add: eq)
  qed
qed

text \<open>A size class is at least the size asked for and at least 64 bytes, and it is a
  power of two, except that a request above 2^31 bytes is its own class.\<close>

theorem round_up_size_fits:
  "n \<le> round_up_size n \<and> 64 \<le> unat (round_up_size n) \<and>
   ((\<exists>e. unat (round_up_size n) = 2 ^ e) \<or> (round_up_size n = n \<and> 2 ^ 31 < unat n))"
  using round_up_size_spec [of n] by (auto simp: size_class_def)

section \<open>The pool\<close>

record pool =
  pl_free :: "(u64 \<times> u64 list) list"
  pl_live :: "(u64 \<times> u64) list"
  pl_live_bytes :: u64
  pl_cached_bytes :: u64

definition empty_pool :: pool where
  "empty_pool = \<lparr>pl_free = [], pl_live = [], pl_live_bytes = 0, pl_cached_bytes = 0\<rparr>"

definition free_list :: "pool \<Rightarrow> u64 \<Rightarrow> u64 list" where
  "free_list p k = (case map_of (pl_free p) k of None \<Rightarrow> [] | Some l \<Rightarrow> l)"

definition set_free_list :: "u64 \<Rightarrow> u64 list \<Rightarrow> pool \<Rightarrow> pool" where
  "set_free_list k l p = p\<lparr>pl_free := map_put k l (pl_free p)\<rparr>"

definition reserve_opt :: "u64 \<Rightarrow> budget option \<Rightarrow> error + budget option" where
  "reserve_opt n bud = (case bud of None \<Rightarrow> Inr None | Some b \<Rightarrow> rbind (reserve n b) (Inr \<circ> Some))"

definition release_opt :: "u64 \<Rightarrow> budget option \<Rightarrow> budget option" where
  "release_opt n bud = map_option (release n) bud"

text \<open>\<open>live_[ptr] = rounded; live_bytes_ += rounded;\<close>\<close>

definition make_live :: "u64 \<Rightarrow> u64 \<Rightarrow> pool \<Rightarrow> pool" where
  "make_live ptr k p = p\<lparr>pl_live := map_put ptr k (pl_live p), pl_live_bytes := pl_live_bytes p + k\<rparr>"

definition pool_allocate ::
    "u64 option \<Rightarrow> u64 \<Rightarrow> budget option \<Rightarrow> pool \<Rightarrow> (error + u64) \<times> budget option \<times> pool" where
  "pool_allocate mem n bud p =
     (if n = 0 then (Inl (Error InvalidArgument ''pool allocate invalid args''), bud, p)
      else let k = round_up_size n; l = free_list p k; p = set_free_list k l p
       in if l \<noteq> [] then
            (Inr (last l), bud, make_live (last l) k
               ((set_free_list k (butlast l) p)\<lparr>pl_cached_bytes := pl_cached_bytes p - k\<rparr>))
          else case reserve_opt k bud of
            Inl e \<Rightarrow> (Inl e, bud, p)
          | Inr bud' \<Rightarrow> (case mem of
              None \<Rightarrow> (Inl (Error IoError ''malloc failed''), release_opt k bud', p)
            | Some ptr \<Rightarrow> (Inr ptr, bud', make_live ptr k p)))"

definition pool_deallocate :: "u64 \<Rightarrow> pool \<Rightarrow> pool" where
  "pool_deallocate ptr p =
     (if ptr = 0 then p
      else case map_of (pl_live p) ptr of
        None \<Rightarrow> p
      | Some k \<Rightarrow> (set_free_list k (free_list p k @ [ptr])
            (p\<lparr>pl_live := AList.delete ptr (pl_live p), pl_live_bytes := pl_live_bytes p - k\<rparr>))
              \<lparr>pl_cached_bytes := pl_cached_bytes p + k\<rparr>)"

text \<open>The free lists in iteration order, each block with its size class.\<close>

definition cached_blocks :: "pool \<Rightarrow> (u64 \<times> u64) list" where
  "cached_blocks p = concat (map (\<lambda>(k, l). map (\<lambda>ptr. (ptr, k)) l) (pl_free p))"

definition pool_clear :: "budget option \<Rightarrow> pool \<Rightarrow> budget option \<times> pool" where
  "pool_clear bud p =
     (fold release_opt (map snd (pl_live p) @ map snd (cached_blocks p)) bud, empty_pool)"

section \<open>The pool invariant\<close>

text \<open>Every block the pool holds, live or cached, with its size.\<close>

definition blocks :: "pool \<Rightarrow> (u64 \<times> u64) list" where
  "blocks p = pl_live p @ cached_blocks p"

definition pool_inv :: "pool \<Rightarrow> bool" where
  "pool_inv p \<longleftrightarrow> distinct (map fst (blocks p)) \<and> 0 \<notin> fst ` set (blocks p) \<and>
     distinct (map fst (pl_free p)) \<and>
     pl_live_bytes p = sum_u64 (map snd (pl_live p)) \<and>
     pl_cached_bytes p = sum_u64 (map snd (cached_blocks p))"

text \<open>The bytes a budget counts for a pool.\<close>

definition pool_bytes :: "pool \<Rightarrow> nat" where
  "pool_bytes p = sum_list (map (unat \<circ> snd) (blocks p))"

definition accounted :: "budget option \<Rightarrow> pool \<Rightarrow> bool" where
  "accounted bud p \<longleftrightarrow> (case bud of None \<Rightarrow> True | Some b \<Rightarrow> unat (bg_used b) = pool_bytes p)"

lemma pool_inv_empty [wf_intros]: "pool_inv empty_pool"
  by (simp add: pool_inv_def empty_pool_def blocks_def cached_blocks_def)

lemma set_free_list_fields [simp]:
  "pl_live (set_free_list k l p) = pl_live p"
  "pl_live_bytes (set_free_list k l p) = pl_live_bytes p"
  "pl_cached_bytes (set_free_list k l p) = pl_cached_bytes p"
  "distinct (map fst (pl_free p)) \<Longrightarrow> distinct (map fst (pl_free (set_free_list k l p)))"
  "free_list (set_free_list k l p) k = l"
  by (simp_all add: set_free_list_def free_list_def)

lemma cached_blocks_set:
  "mset (cached_blocks (set_free_list k l p)) + mset (map (\<lambda>x. (x, k)) (free_list p k)) =
     mset (cached_blocks p) + mset (map (\<lambda>x. (x, k)) l)"
  by (cases rule: map_put_split [of "pl_free p" k l])
    (simp_all add: cached_blocks_def set_free_list_def free_list_def)

lemma cached_blocks_same:
  "mset (cached_blocks (set_free_list k (free_list p k) p)) = mset (cached_blocks p)"
  using cached_blocks_set [of k "free_list p k" p] by simp

lemma cached_blocks_pop:
  assumes "free_list p k \<noteq> []"
  shows "mset (cached_blocks p) =
    add_mset (last (free_list p k), k) (mset (cached_blocks (set_free_list k (butlast (free_list p k)) p)))"
proof -
  have "mset (map (\<lambda>x. (x, k)) (free_list p k)) =
      add_mset (last (free_list p k), k) (mset (map (\<lambda>x. (x, k)) (butlast (free_list p k))))"
    using assms by (subst append_butlast_last_id [symmetric]) (simp_all del: append_butlast_last_id)
  then show ?thesis using cached_blocks_set [of k "butlast (free_list p k)" p] by simp
qed

lemma cached_blocks_push:
  "mset (cached_blocks (set_free_list k (free_list p k @ [ptr]) p)) =
     add_mset (ptr, k) (mset (cached_blocks p))"
  using cached_blocks_set [of k "free_list p k @ [ptr]" p] by simp

lemma sum_u64_mset: "mset xs = mset ys \<Longrightarrow> sum_u64 xs = sum_u64 ys"
proof -
  have "sum_u64 zs = sum_mset (mset zs)" for zs by (induction zs) simp_all
  then show "mset xs = mset ys \<Longrightarrow> sum_u64 xs = sum_u64 ys" by simp
qed

lemma sum_snd_mset: "mset xs = mset ys \<Longrightarrow> sum_u64 (map snd xs) = sum_u64 (map snd ys)"
  by (rule sum_u64_mset) simp

lemma sum_snd_add: "mset xs = add_mset (x, k) (mset ys) \<Longrightarrow>
    sum_u64 (map snd xs) = k + sum_u64 (map snd ys)"
  using sum_snd_mset [of xs "(x, k) # ys"] by simp

lemma same_blocks:
  assumes "mset (blocks p') = mset (blocks p)"
  shows "distinct (map fst (blocks p')) = distinct (map fst (blocks p))"
    and "set (blocks p') = set (blocks p)" and "pool_bytes p' = pool_bytes p"
proof -
  have "mset (map fst (blocks p')) = mset (map fst (blocks p))" using assms by simp
  then show "distinct (map fst (blocks p')) = distinct (map fst (blocks p))"
    by (rule mset_eq_imp_distinct_iff)
  show "set (blocks p') = set (blocks p)" using assms by (rule mset_eq_setD)
  have "mset (map (unat \<circ> snd) (blocks p')) = mset (map (unat \<circ> snd) (blocks p))" using assms by simp
  then show "pool_bytes p' = pool_bytes p" unfolding pool_bytes_def by (metis sum_mset_sum_list)
qed

text \<open>The four ways an allocation ends.\<close>

lemma pool_allocate_cases:
  assumes alloc: "pool_allocate mem n bud p = (r, bud', p')" and inv: "pool_inv p"
    and unheld: "\<forall>ptr. mem = Some ptr \<longrightarrow> ptr \<noteq> 0 \<and> ptr \<notin> fst ` set (blocks p)"
  obtains
    (reused) ptr where "r = Inr ptr" "bud' = bud" "ptr \<in> fst ` set (cached_blocks p)"
      "pl_live p' = pl_live p @ [(ptr, round_up_size n)]" "mset (blocks p') = mset (blocks p)"
      "pool_inv p'" "n \<noteq> 0"
  | (fresh) ptr where "r = Inr ptr" "mem = Some ptr" "reserve_opt (round_up_size n) bud = Inr bud'"
      "pl_live p' = pl_live p @ [(ptr, round_up_size n)]"
      "mset (blocks p') = add_mset (ptr, round_up_size n) (mset (blocks p))" "pool_inv p'" "n \<noteq> 0"
  | (refused) e where "r = Inl e" "bud' = bud" "pl_live p' = pl_live p"
      "mset (blocks p') = mset (blocks p)" "pool_inv p'"
  | (no_memory) e bud1 where "r = Inl e" "reserve_opt (round_up_size n) bud = Inr bud1"
      "bud' = release_opt (round_up_size n) bud1" "pl_live p' = pl_live p"
      "mset (blocks p') = mset (blocks p)" "pool_inv p'"
proof (cases "n = 0")
  case True
  then show thesis using alloc inv refused by (auto simp: pool_allocate_def)
next
  case n0: False
  define k where "k = round_up_size n"
  define p0 where "p0 = set_free_list k (free_list p k) p"
  have keys: "distinct (map fst (pl_free p))" using inv by (simp add: pool_inv_def)
  have b0: "mset (cached_blocks p0) = mset (cached_blocks p)" "mset (blocks p0) = mset (blocks p)"
    by (simp_all add: p0_def cached_blocks_same blocks_def)
  have inv0: "pool_inv p0"
    using inv same_blocks [OF b0(2)] sum_snd_mset [OF b0(1)]
    by (simp add: pool_inv_def p0_def)
  have def: "pool_allocate mem n bud p = (if free_list p k \<noteq> [] then
      (Inr (last (free_list p k)), bud, make_live (last (free_list p k)) k
        ((set_free_list k (butlast (free_list p k)) p0)\<lparr>pl_cached_bytes := pl_cached_bytes p0 - k\<rparr>))
      else case reserve_opt k bud of Inl e \<Rightarrow> (Inl e, bud, p0)
        | Inr bud' \<Rightarrow> (case mem of
            None \<Rightarrow> (Inl (Error IoError ''malloc failed''), release_opt k bud', p0)
          | Some ptr \<Rightarrow> (Inr ptr, bud', make_live ptr k p0)))"
    unfolding pool_allocate_def Let_def k_def [symmetric] p0_def [symmetric] if_not_P [OF n0] ..
  have live: "make_live ptr k q = q\<lparr>pl_live := pl_live q @ [(ptr, k)], pl_live_bytes := pl_live_bytes q + k\<rparr>"
    if "ptr \<notin> fst ` set (pl_live q)" for ptr q
    using that by (simp add: make_live_def map_put_new)
  show thesis
  proof (cases "free_list p k = []")
    case False
    define ptr where "ptr = last (free_list p k)"
    define q where "q = set_free_list k (butlast (free_list p k)) p0"
    have l0: "free_list p0 k = free_list p k" by (simp add: p0_def)
    have pop: "mset (cached_blocks p0) = add_mset (ptr, k) (mset (cached_blocks q))"
      using cached_blocks_pop [of p0 k] False l0 by (simp add: ptr_def q_def)
    have mem: "ptr \<in> fst ` set (cached_blocks p)"
      using pop b0(1) by (metis fst_conv image_eqI set_mset_mset union_single_eq_member)
    have nl: "ptr \<notin> fst ` set (pl_live p)"
      using mem inv by (auto simp: pool_inv_def blocks_def)
    have p': "r = Inr ptr" "bud' = bud" "p' = q\<lparr>pl_cached_bytes := pl_cached_bytes p0 - k,
        pl_live := pl_live p @ [(ptr, k)], pl_live_bytes := pl_live_bytes p + k\<rparr>"
      using alloc False nl by (simp_all add: def ptr_def q_def p0_def make_live_def map_put_new)
    have cb: "cached_blocks p' = cached_blocks q" by (simp add: p' cached_blocks_def)
    have bl: "mset (blocks p') = mset (blocks p)"
      using pop b0(1) by (simp add: blocks_def cb) (simp add: p'(3))
    have "pool_inv p'"
      using inv0 same_blocks [OF bl] keys sum_snd_add [OF pop]
      by (simp add: pool_inv_def cb same_blocks [OF b0(2)])
        (simp add: p'(3) q_def p0_def algebra_simps)
    then show thesis
      using reused [of ptr] p' mem bl n0 by (simp add: k_def)
  next
    case True
    show thesis
    proof (cases "reserve_opt k bud")
      case (Inl e)
      then have "r = Inl e" "bud' = bud" "p' = p0" using alloc True by (auto simp: def)
      then show thesis using refused b0 inv0 by (simp add: p0_def)
    next
      case (Inr bud1)
      show thesis
      proof (cases mem)
        case None
        then have "r = Inl (Error IoError ''malloc failed'')" "bud' = release_opt k bud1" "p' = p0"
          using alloc [unfolded def] True Inr by simp_all
        then show thesis using no_memory Inr b0 inv0 by (simp add: k_def p0_def)
      next
        case (Some ptr)
        then have nb: "ptr \<noteq> 0" "ptr \<notin> fst ` set (blocks p)" using unheld by auto
        then have nl: "ptr \<notin> fst ` set (pl_live p)" by (auto simp: blocks_def)
        have p': "r = Inr ptr" "bud' = bud1" "p' = p0\<lparr>pl_live := pl_live p @ [(ptr, k)],
            pl_live_bytes := pl_live_bytes p + k\<rparr>"
          using alloc [unfolded def] True Inr Some nl
          by (simp_all add: p0_def make_live_def map_put_new)
        have cb: "cached_blocks p' = cached_blocks p0" by (simp add: p' cached_blocks_def)
        have bl: "mset (blocks p') = add_mset (ptr, k) (mset (blocks p))"
          using b0(1) by (simp add: blocks_def cb) (simp add: p'(3))
        have "mset (map fst (blocks p')) = mset (ptr # map fst (blocks p))" using bl by simp
        then have "distinct (map fst (blocks p')) = distinct (ptr # map fst (blocks p))"
          by (rule mset_eq_imp_distinct_iff)
        moreover have "set (blocks p') = insert (ptr, k) (set (blocks p))"
          using bl by (metis set_mset_add_mset_insert set_mset_mset)
        ultimately have "pool_inv p'"
          using inv inv0 nb keys
          by (simp add: pool_inv_def cb) (simp add: p'(3) p0_def add.commute)
        then show thesis using fresh [of ptr] p' Some Inr bl n0 by (simp add: k_def)
      qed
    qed
  qed
qed

lemma pool_deallocate_spec:
  assumes "pool_inv p" and "pool_deallocate ptr p = p'"
  shows "pool_inv p'" and "mset (blocks p') = mset (blocks p)"
    and "map_of (pl_live p') = (map_of (pl_live p))(ptr := None)"
proof -
  have "pool_inv p' \<and> mset (blocks p') = mset (blocks p) \<and>
      map_of (pl_live p') = (map_of (pl_live p))(ptr := None)"
  proof (cases "ptr = 0 \<or> map_of (pl_live p) ptr = None")
    case True
    then have "p' = p" using assms(2) by (auto simp: pool_deallocate_def)
    moreover have "map_of (pl_live p) 0 = None"
      using assms(1) by (force simp: pool_inv_def blocks_def map_of_eq_None_iff)
    ultimately show ?thesis using True assms(1) by (auto simp: fun_upd_idem)
  next
    case False
    then obtain k where k: "map_of (pl_live p) ptr = Some k" "ptr \<noteq> 0" by auto
    have dist: "distinct (map fst (pl_live p))" "distinct (map fst (pl_free p))"
      using assms(1) by (auto simp: pool_inv_def blocks_def)
    obtain a b where ab: "pl_live p = a @ (ptr, k) # b" "AList.delete ptr (pl_live p) = a @ b"
      by (rule delete_split [OF dist(1) k(1)])
    define q where "q = set_free_list k (free_list p k @ [ptr])
        (p\<lparr>pl_live := a @ b, pl_live_bytes := pl_live_bytes p - k\<rparr>)"
    have p': "p' = q\<lparr>pl_cached_bytes := pl_cached_bytes p + k\<rparr>"
      using assms(2) k ab(2) by (simp add: pool_deallocate_def q_def)
    have cb: "mset (cached_blocks p') = add_mset (ptr, k) (mset (cached_blocks p))"
    proof -
      have "cached_blocks p' = cached_blocks (set_free_list k (free_list p k @ [ptr]) p)"
        by (simp add: p' q_def cached_blocks_def set_free_list_def)
      then show ?thesis by (simp add: cached_blocks_push)
    qed
    have bl: "mset (blocks p') = mset (blocks p)"
      using cb by (simp add: blocks_def ab(1)) (simp add: p' q_def)
    have "pool_inv p'"
      using assms(1) same_blocks [OF bl] dist sum_snd_add [OF cb] ab(1)
      by (simp add: pool_inv_def) (simp add: p' q_def add.commute)
    moreover have "map_of (pl_live p') = (map_of (pl_live p))(ptr := None)"
      using ab(2) by (simp add: p' q_def delete_conv' [symmetric])
    ultimately show ?thesis using bl by blast
  qed
  then show "pool_inv p'" "mset (blocks p') = mset (blocks p)"
    "map_of (pl_live p') = (map_of (pl_live p))(ptr := None)" by auto
qed

lemma release_all: "fold release_opt ns bud = map_option (fold release ns) bud"
  by (induction ns arbitrary: bud) (auto simp: release_opt_def option.map_comp comp_def option.map_id0)

section \<open>The pool as a state machine\<close>

text \<open>One step is one call under the lock.  \<open>malloc\<close> answers null or a block that overlaps
  nothing the pool holds, and the counted bytes stay below 2^64: they are disjoint ranges of
  one address space.\<close>

inductive pool_step :: "budget option \<times> pool \<Rightarrow> budget option \<times> pool \<Rightarrow> bool" where
  allocate: "pool_allocate mem n bud p = (r, bud', p') \<Longrightarrow>
    \<forall>ptr. mem = Some ptr \<longrightarrow> ptr \<noteq> 0 \<and> ptr \<notin> fst ` set (blocks p) \<Longrightarrow>
    pool_bytes p + unat (round_up_size n) < 2 ^ 64 \<Longrightarrow> pool_step (bud, p) (bud', p')"
| deallocate: "pool_step (bud, p) (bud, pool_deallocate ptr p)"
| clear: "pool_step (bud, p) (pool_clear bud p)"

lemma acquire_accounted:
  assumes "reserve_opt k bud = Inr bud'" and "accounted bud p" and "pool_bytes p + unat k < 2 ^ 64"
  shows "(case bud' of None \<Rightarrow> True | Some b \<Rightarrow> unat (bg_used b) = pool_bytes p + unat k)"
    and "accounted (release_opt k bud') p"
proof -
  show "(case bud' of None \<Rightarrow> True | Some b \<Rightarrow> unat (bg_used b) = pool_bytes p + unat k)"
  proof (cases bud)
    case None
    then show ?thesis using assms(1) by (simp add: reserve_opt_def)
  next
    case (Some b)
    then obtain b' where b': "reserve k b = Inr b'" "bud' = Some b'"
      using assms(1) by (auto simp: reserve_opt_def rbind_Inr_conv)
    have "unat (bg_used b) = pool_bytes p" using assms(2) Some by (simp add: accounted_def)
    moreover from this have "reserve_fits k b" using assms(3) by (simp add: reserve_fits_def)
    ultimately show ?thesis using budget.acquire_amount [OF _ b'(1)] b'(2) by simp
  qed
  then show "accounted (release_opt k bud') p"
    by (auto simp: release_opt_def accounted_def budget.give_back_amount split: option.splits)
qed

lemma accounted_same: "mset (blocks p') = mset (blocks p) \<Longrightarrow> accounted bud p' = accounted bud p"
  using same_blocks(3) [of p' p] by (cases bud) (simp_all add: accounted_def)

lemma pool_clear_accounted:
  assumes "accounted bud p" and "pool_clear bud p = (bud', p')"
  shows "pool_inv p' \<and> accounted bud' p'"
proof -
  let ?ns = "map snd (pl_live p) @ map snd (cached_blocks p)"
  have p': "p' = empty_pool" and b': "bud' = map_option (fold release ?ns) bud"
    using assms(2) unfolding pool_clear_def release_all by simp_all
  have sum: "sum_list (map unat ?ns) = pool_bytes p"
    by (simp add: pool_bytes_def blocks_def comp_def)
  have "pool_bytes empty_pool = 0"
    by (simp add: pool_bytes_def blocks_def empty_pool_def cached_blocks_def)
  moreover have "unat (bg_used (fold release ?ns b)) = 0" if "unat (bg_used b) = pool_bytes p" for b
    using budget.give_back_all [of ?ns b] that sum by presburger
  ultimately have "accounted bud' p'"
    using assms(1) by (cases bud) (simp_all add: accounted_def b' p' del: fold_append)
  then show ?thesis by (simp add: p' pool_inv_empty)
qed

lemma pool_allocate_accounted:
  assumes "pool_allocate mem n bud p = (r, bud', p')" and "pool_inv p" and "accounted bud p"
    and "\<forall>ptr. mem = Some ptr \<longrightarrow> ptr \<noteq> 0 \<and> ptr \<notin> fst ` set (blocks p)"
    and room: "pool_bytes p + unat (round_up_size n) < 2 ^ 64"
  shows "pool_inv p' \<and> accounted bud' p'"
  using assms(1,2,4)
proof (cases rule: pool_allocate_cases)
  case (reused ptr)
  then show ?thesis using assms(3) accounted_same [OF reused(5)] by blast
next
  case (fresh ptr)
  have "mset (map (unat \<circ> snd) (blocks p')) = mset (unat (round_up_size n) # map (unat \<circ> snd) (blocks p))"
    using fresh(5) by simp
  then have "sum_list (map (unat \<circ> snd) (blocks p')) =
      sum_list (unat (round_up_size n) # map (unat \<circ> snd) (blocks p))"
    by (metis sum_mset_sum_list)
  then have "pool_bytes p' = pool_bytes p + unat (round_up_size n)"
    by (simp add: pool_bytes_def)
  then have "accounted bud' p'"
    using acquire_accounted(1) [OF fresh(3) assms(3) room] by (cases bud') (simp_all add: accounted_def)
  then show ?thesis using fresh(6) by blast
next
  case (refused e)
  then show ?thesis using assms(3) accounted_same [OF refused(4)] by blast
next
  case (no_memory e bud1)
  have "accounted bud' p"
    using acquire_accounted(2) [OF no_memory(2) assms(3) room] no_memory(3) by blast
  then show ?thesis using accounted_same [OF no_memory(5)] no_memory(6) by blast
qed

lemma pool_step_inv:
  assumes "pool_step (bud, p) (bud', p')" and "pool_inv p" and "accounted bud p"
  shows "pool_inv p' \<and> accounted bud' p'"
  using assms(1)
proof (cases rule: pool_step.cases)
  case (allocate mem n r)
  then show ?thesis using pool_allocate_accounted [OF _ assms(2,3)] by blast
next
  case (deallocate ptr)
  then have "p' = pool_deallocate ptr p" "bud' = bud" by simp_all
  then show ?thesis
    using pool_deallocate_spec(1,2) [OF assms(2), of ptr] assms(3) accounted_same [of p' p bud] by blast
next
  case clear
  then have "pool_clear bud p = (bud', p')" by simp
  then show ?thesis using pool_clear_accounted [OF assms(3)] by blast
qed

lemma pool_reachable:
  assumes "rtranclp pool_step (bud0, empty_pool) s" and "accounted bud0 empty_pool"
  shows "pool_inv (snd s) \<and> accounted (fst s) (snd s)"
  using assms(1)
proof (induction rule: rtranclp_induct)
  case base
  then show ?case using assms(2) by (simp add: pool_inv_empty)
next
  case (step s s')
  then show ?case using pool_step_inv [of "fst s" "snd s" "fst s'" "snd s'"] by simp
qed

text \<open>C20. In every reachable state of the pool, a successful allocation returns a
  non-null pointer that no live buffer has, records it live with a size class of at least the
  bytes asked for, and leaves every other live buffer as it was; a failed one leaves the live
  buffers alone.\<close>

theorem pool_hands_out_fresh:
  assumes "rtranclp pool_step (None, empty_pool) (bud, p) \<or>
      rtranclp pool_step (Some (new_budget limit), empty_pool) (bud, p)"
    and "pool_allocate mem n bud p = (r, bud', p')"
    and "\<forall>ptr. mem = Some ptr \<longrightarrow> ptr \<noteq> 0 \<and> ptr \<notin> fst ` set (blocks p)"
  shows "case r of
      Inl e \<Rightarrow> pl_live p' = pl_live p
    | Inr ptr \<Rightarrow> ptr \<noteq> 0 \<and> map_of (pl_live p) ptr = None \<and> n \<le> round_up_size n \<and>
        map_of (pl_live p') = (map_of (pl_live p))(ptr \<mapsto> round_up_size n)"
proof -
  have "accounted None empty_pool" "accounted (Some (new_budget limit)) empty_pool"
    by (simp_all add: accounted_def new_budget_def pool_bytes_def blocks_def empty_pool_def
        cached_blocks_def)
  with assms(1) have inv: "pool_inv p" by (elim disjE) (drule pool_reachable, simp_all)+
  have snoc: "map_of (pl_live p @ [(x, k)]) = (map_of (pl_live p))(x \<mapsto> k)"
    if "map_of (pl_live p) x = None" for x k
    using that by (auto simp: map_add_def fun_eq_iff split: option.splits)
  have live_blocks: "fst ` set (pl_live p) \<subseteq> fst ` set (blocks p)"
    "fst ` set (cached_blocks p) \<subseteq> fst ` set (blocks p)"
    "fst ` set (pl_live p) \<inter> fst ` set (cached_blocks p) = {}" "0 \<notin> fst ` set (blocks p)"
    using inv by (auto simp: pool_inv_def blocks_def)
  from assms(2) inv assms(3) show ?thesis
  proof (cases rule: pool_allocate_cases)
    case (reused ptr)
    have "map_of (pl_live p) ptr = None"
      using reused(3) live_blocks(3) unfolding map_of_eq_None_iff by blast
    moreover have "ptr \<noteq> 0" using reused(3) live_blocks(2,4) by blast
    ultimately show ?thesis
      using reused(1,4) snoc [of ptr] by (simp add: round_up_size_spec(1) del: map_of_append)
  next
    case (fresh ptr)
    then have "ptr \<noteq> 0" "ptr \<notin> fst ` set (blocks p)" using assms(3) by auto
    moreover from this(2) have "map_of (pl_live p) ptr = None"
      using live_blocks(1) unfolding map_of_eq_None_iff by blast
    ultimately show ?thesis
      using fresh(1,4) snoc [of ptr] by (simp add: round_up_size_spec(1) del: map_of_append)
  qed simp_all
qed

text \<open>The limit of a pool's budget.\<close>

definition limited :: "u64 \<Rightarrow> budget option \<Rightarrow> bool" where
  "limited limit bud \<longleftrightarrow> (case bud of None \<Rightarrow> False
     | Some b \<Rightarrow> bg_limit b = limit \<and> (limit \<noteq> 0 \<longrightarrow> bg_used b \<le> limit))"

lemma limited_release: "limited l bud \<Longrightarrow> limited l (release_opt n bud)"
proof -
  have "bg_used (release n b) \<le> bg_used b" for b
    using budget.give_back_amount [of n b] by (simp add: word_le_nat_alt)
  then show "limited l bud \<Longrightarrow> limited l (release_opt n bud)"
    by (auto simp: limited_def release_opt_def intro: order_trans split: option.splits)
qed

lemma limited_reserve: "limited l bud \<Longrightarrow> reserve_opt n bud = Inr bud' \<Longrightarrow> limited l bud'"
  using reserve_bounds(1,3) by (fastforce simp: limited_def reserve_opt_def rbind_Inr_conv split: option.splits)

lemma limited_step:
  assumes "pool_step (bud, p) (bud', p')" and "pool_inv p" and "limited l bud"
  shows "limited l bud'"
  using assms(1)
proof (cases rule: pool_step.cases)
  case (allocate mem n r)
  from allocate(1) assms(2) allocate(2) show ?thesis
  proof (cases rule: pool_allocate_cases)
    case (fresh ptr)
    then show ?thesis using assms(3) limited_reserve by blast
  next
    case (no_memory e bud1)
    then show ?thesis using assms(3) limited_reserve limited_release by blast
  qed (use assms(3) in simp_all)
next
  case (deallocate ptr)
  then show ?thesis using assms(3) by simp
next
  case clear
  have "limited l (fold release_opt ns bud)" for ns
    using assms(3) by (induction ns arbitrary: bud) (simp_all add: limited_release)
  with clear show ?thesis by (simp add: pool_clear_def del: fold_append)
qed


definition demo_step :: "budget option \<times> pool" where
  "demo_step = snd (pool_allocate (Some 4096) 100 (Some (new_budget 1000)) empty_pool)"

lemma round_up_100: "round_up_size 100 = 128"
  by (simp add: round_up_size_def while_unfold)

lemma demo_step_eq:
  "pool_allocate (Some 4096) 100 (Some (new_budget 1000)) empty_pool =
     (Inr 4096, Some \<lparr>bg_limit = 1000, bg_used = 128, bg_peak = 128\<rparr>,
      \<lparr>pl_free = [(128, [])], pl_live = [(4096, 128)], pl_live_bytes = 128, pl_cached_bytes = 0\<rparr>)"
  by (simp add: pool_allocate_def round_up_100 Let_def free_list_def set_free_list_def
      empty_pool_def map_put_def reserve_opt_def reserve_def new_budget_def make_live_def)

lemma demo_step_reachable: "rtranclp pool_step (Some (new_budget 1000), empty_pool) demo_step"
proof -
  have "pool_step (Some (new_budget 1000), empty_pool)
      (fst demo_step, snd demo_step)"
    unfolding demo_step_def demo_step_eq
    by (simp, rule pool_step.allocate [OF demo_step_eq])
      (simp_all add: round_up_100 blocks_def cached_blocks_def empty_pool_def pool_bytes_def)
  then show ?thesis by simp
qed

theorem pool_hands_out_fresh_witness:
  "\<exists>ptr bud' p'. pool_allocate (Some 8192) 64 None empty_pool = (Inr ptr, bud', p') \<and>
     map_of (pl_live p') ptr = Some (round_up_size 64)"
proof -
  obtain r bud' p' where a: "pool_allocate (Some 8192) 64 None empty_pool = (r, bud', p')"
    by (metis prod_cases3)
  have "r = Inr 8192"
    using a round_up_size_spec(2) [of 64]
    by (auto simp: pool_allocate_def Let_def free_list_def empty_pool_def reserve_opt_def
        set_free_list_def map_put_def split: if_splits)
  moreover from pool_hands_out_fresh [OF disjI1 [OF rtranclp.rtrancl_refl] a]
  have "case r of Inl e \<Rightarrow> True | Inr ptr \<Rightarrow> map_of (pl_live p') ptr = Some (round_up_size 64)"
    by (auto simp: blocks_def cached_blocks_def empty_pool_def split: sum.splits)
  ultimately show ?thesis using a by auto
qed


end
