(* ===== verification/Memory_Arena.thy ===== *)
theory Memory_Arena
  imports Memory_Pool Ir_Types
begin

text \<open>
  The bump-pointer arena and the allocator that chooses between it and the pool
  (\<open>memory/arena.hpp\<close>, \<open>arena.cpp\<close>, \<open>memory/allocator.hpp\<close>, \<open>allocator.cpp\<close>, \<open>buffer.hpp\<close>).

  The address \<open>new\<close> returns for the \<open>i\<close>-th chunk is the parameter \<open>base i\<close>.  \<open>arena_place\<close> is
  the search of \<open>ArenaAllocator::allocate\<close> with its result as a chunk index and an offset;
  \<open>arena_allocate\<close> turns it into the pointer.  A \<open>std::bad_alloc\<close> is not modelled.
\<close>

unbundle bit_operations_syntax

section \<open>The arena\<close>

definition align_up :: "u64 \<Rightarrow> u64 \<Rightarrow> u64" where
  "align_up v al = (if al = 0 then v else (v + al - 1) AND NOT (al - 1))"

record chunk =
  ch_data :: u64
  ch_capacity :: u64
  ch_offset :: u64

record arena =
  ar_chunk_bytes :: u64
  ar_chunks :: "chunk list"
  ar_allocated :: u64

definition new_arena :: "u64 \<Rightarrow> arena" where
  "new_arena chunk_bytes = \<lparr>ar_chunk_bytes = max chunk_bytes 4096, ar_chunks = [], ar_allocated = 0\<rparr>"

definition new_chunk ::
    "(nat \<Rightarrow> u64) \<Rightarrow> u64 \<Rightarrow> budget option \<Rightarrow> arena \<Rightarrow> error + budget option \<times> arena" where
  "new_chunk base min_bytes bud a =
     (let cap = max (ar_chunk_bytes a) min_bytes
      in rbind (reserve_opt cap bud) (\<lambda>bud'.
           Inr (bud', a\<lparr>ar_chunks := ar_chunks a @
             [\<lparr>ch_data = base (length (ar_chunks a)), ch_capacity = cap, ch_offset = 0\<rparr>]\<rparr>)))"

text \<open>One pass of the loop body: bump the last chunk when the request fits.\<close>

definition bump :: "u64 \<Rightarrow> u64 \<Rightarrow> arena \<Rightarrow> ((nat \<times> u64) \<times> arena) option" where
  "bump n al a =
     (let c = last (ar_chunks a); aligned = align_up (ch_offset c) al
      in if aligned + n \<le> ch_capacity c
         then Some ((length (ar_chunks a) - 1, aligned),
           a\<lparr>ar_chunks := butlast (ar_chunks a) @ [c\<lparr>ch_offset := aligned + n\<rparr>],
             ar_allocated := ar_allocated a + n\<rparr>)
         else None)"

definition arena_place ::
    "(nat \<Rightarrow> u64) \<Rightarrow> u64 \<Rightarrow> u64 \<Rightarrow> budget option \<Rightarrow> arena
      \<Rightarrow> (error + nat \<times> u64) \<times> budget option \<times> arena" where
  "arena_place base n al0 bud a =
     (if n = 0 then (Inl (Error InvalidArgument ''arena allocate invalid args''), bud, a)
      else let al = (if al0 = 0 then 16 else al0)
       in case (if ar_chunks a = [] then new_chunk base (n + al) bud a else Inr (bud, a)) of
            Inl e \<Rightarrow> (Inl e, bud, a)
          | Inr (bud1, a1) \<Rightarrow> (case bump n al a1 of
              Some (loc, a2) \<Rightarrow> (Inr loc, bud1, a2)
            | None \<Rightarrow> (case new_chunk base (n + al) bud1 a1 of
                Inl e \<Rightarrow> (Inl e, bud1, a1)
              | Inr (bud2, a2) \<Rightarrow> (case bump n al a2 of
                  Some (loc, a3) \<Rightarrow> (Inr loc, bud2, a3)
                | None \<Rightarrow> (Inl (Error Internal ''arena allocation failed''), bud2, a2)))))"

definition arena_allocate ::
    "(nat \<Rightarrow> u64) \<Rightarrow> u64 \<Rightarrow> u64 \<Rightarrow> budget option \<Rightarrow> arena \<Rightarrow> (error + u64) \<times> budget option \<times> arena" where
  "arena_allocate base n al bud a = (case arena_place base n al bud a of
       (Inl e, bud', a') \<Rightarrow> (Inl e, bud', a')
     | (Inr (i, off), bud', a') \<Rightarrow> (Inr (ch_data (ar_chunks a' ! i) + off), bud', a'))"

definition arena_reset :: "budget option \<Rightarrow> arena \<Rightarrow> budget option \<times> arena" where
  "arena_reset bud a = (fold release_opt (map ch_capacity (ar_chunks a)) bud,
     a\<lparr>ar_chunks := [], ar_allocated := 0\<rparr>)"

section \<open>Alignment\<close>

definition power_of_two :: "u64 \<Rightarrow> bool" where
  "power_of_two al \<longleftrightarrow> (\<exists>k < 64. al = 2 ^ k)"

lemma clear_low_bits:
  "unat ((w :: u64) AND NOT (mask k)) = unat w div 2 ^ k * 2 ^ k"
proof -
  have "w AND NOT (mask k) = push_bit k (drop_bit k w)"
    by (rule bit_word_eqI) (auto simp: bit_and_iff bit_not_iff bit_mask_iff bit_push_bit_iff bit_drop_bit_eq)
  then have "unat (w AND NOT (mask k)) = take_bit 64 (push_bit k (drop_bit k (unat w)))"
    using unat_u64_less [of w]
    by (simp add: unsigned_push_bit_eq unsigned_drop_bit_eq take_bit_nat_eq_self)
  also have "push_bit k (drop_bit k (unat w)) = unat w div 2 ^ k * 2 ^ k"
    by (simp add: push_bit_eq_mult drop_bit_eq_div)
  also have "take_bit 64 (unat w div 2 ^ k * 2 ^ k) = unat w div 2 ^ k * 2 ^ k"
  proof (rule take_bit_nat_eq_self)
    have "unat w div 2 ^ k * 2 ^ k \<le> unat w" by simp
    then show "unat w div 2 ^ k * 2 ^ k < 2 ^ 64" using unat_u64_less [of w] by linarith
  qed
  finally show ?thesis .
qed

lemma unat_pow2: "k < 64 \<Longrightarrow> unat (2 ^ k :: u64) = 2 ^ k"
proof -
  assume k: "k < 64"
  have "(2 ^ k :: u64) = word_of_nat (2 ^ k)" by simp
  moreover have "(2::nat) ^ k < 2 ^ 64" using k by (rule power_strict_increasing) simp
  ultimately show ?thesis by (simp only: unat_of_nat) simp
qed

lemma align_up_spec:
  assumes "power_of_two al" and "unat v + unat al \<le> 2 ^ 64"
  shows "unat v \<le> unat (align_up v al)" and "unat (align_up v al) < unat v + unat al"
    and "unat al dvd unat (align_up v al)"
proof -
  obtain k where k: "k < 64" "al = 2 ^ k" using assms(1) by (auto simp: power_of_two_def)
  have al: "unat al = 2 ^ k" "al \<noteq> 0" using k unat_pow2 by (auto simp: unat_eq_0 [symmetric])
  have "unat (v + (al - 1)) = unat v + (2 ^ k - 1)"
  proof -
    have "unat (al - 1) = 2 ^ k - 1" using al by (simp add: unat_minus_one)
    moreover have "unat v + (2 ^ k - 1) < 2 ^ 64"
      using assms(2) al(1) zero_less_power [of "2::nat" k] by linarith
    ultimately show ?thesis using unat_add_exact [of v "al - 1"] by simp
  qed
  moreover have "align_up v al = (v + (al - 1)) AND NOT (mask k)"
    using al(2) k(2) by (simp add: align_up_def mask_eq_exp_minus_1 add_diff_eq)
  ultimately have eq: "unat (align_up v al) = (unat v + (2 ^ k - 1)) div 2 ^ k * 2 ^ k"
    by (simp add: clear_low_bits)
  show "unat al dvd unat (align_up v al)" by (simp add: eq al(1))
  have "(unat v + (2 ^ k - 1)) div 2 ^ k * 2 ^ k + (unat v + (2 ^ k - 1)) mod 2 ^ k =
      unat v + (2 ^ k - 1)"
    by (rule div_mult_mod_eq)
  moreover have "(unat v + (2 ^ k - 1)) mod 2 ^ k \<le> 2 ^ k - (1::nat)"
    by (metis One_nat_def Suc_pred le_simps(2) mod_less_divisor zero_less_numeral zero_less_power)
  ultimately show "unat v \<le> unat (align_up v al)" "unat (align_up v al) < unat v + unat al"
    unfolding eq al(1) using zero_less_power [of "2::nat" k] by linarith+
qed

section \<open>The chunk invariant\<close>

text \<open>Ranges handed out: chunk index, start and end.  \<open>used_ranges\<close> is the history since the
  last reset; the invariant keeps it inside the chunks and pairwise disjoint.\<close>

type_synonym range = "nat \<times> nat \<times> nat"

definition disjoint_ranges :: "range list \<Rightarrow> bool" where
  "disjoint_ranges rs \<longleftrightarrow>
     sorted_wrt (\<lambda>(c', s', e') (c, s, e). c \<noteq> c' \<or> e' \<le> s \<or> e \<le> s') rs"

definition arena_inv :: "range list \<Rightarrow> arena \<Rightarrow> bool" where
  "arena_inv rs a \<longleftrightarrow> (\<forall>c \<in> set (ar_chunks a). ch_offset c \<le> ch_capacity c) \<and>
     (\<forall>(i, s, e) \<in> set rs. i < length (ar_chunks a) \<and> s \<le> e \<and>
        e \<le> unat (ch_offset (ar_chunks a ! i))) \<and> disjoint_ranges rs"

lemma arena_inv_new [wf_intros]: "arena_inv [] (new_arena n)"
  by (simp add: arena_inv_def new_arena_def disjoint_ranges_def)

lemma disjoint_ranges_snoc:
  "disjoint_ranges (rs @ [(c, s, e)]) \<longleftrightarrow>
     disjoint_ranges rs \<and> (\<forall>(c', s', e') \<in> set rs. c \<noteq> c' \<or> e' \<le> s \<or> e \<le> s')"
  by (auto simp: disjoint_ranges_def sorted_wrt_append)

text \<open>A request that cannot wrap: the sizes involved stay below 2^64.\<close>

definition no_wrap :: "u64 \<Rightarrow> u64 \<Rightarrow> arena \<Rightarrow> bool" where
  "no_wrap n al a \<longleftrightarrow> 2 * (unat n + unat al) < 2 ^ 64 \<and>
     unat (ar_chunk_bytes a) + unat al + unat n < 2 ^ 64 \<and>
     (\<forall>c \<in> set (ar_chunks a). unat (ch_capacity c) + unat al + unat n < 2 ^ 64)"

lemma bump_Some:
  assumes "bump n al a = Some (loc, a')" and "ar_chunks a \<noteq> []" and "arena_inv rs a"
    and "power_of_two al" and "no_wrap n al a"
  obtains c off where "last (ar_chunks a) = c" "loc = (length (ar_chunks a) - 1, off)"
    "unat (ch_offset c) \<le> unat off" "unat off + unat n \<le> unat (ch_capacity c)"
    "unat al dvd unat off" "ar_chunks a' = butlast (ar_chunks a) @ [c\<lparr>ch_offset := off + n\<rparr>]"
    "arena_inv (rs @ [(length (ar_chunks a) - 1, unat off, unat off + unat n)]) a'"
proof -
  define c where "c = last (ar_chunks a)"
  define off where "off = align_up (ch_offset c) al"
  have cmem: "c \<in> set (ar_chunks a)" using assms(2) by (simp add: c_def)
  have offc: "unat (ch_offset c) \<le> unat (ch_capacity c)"
    using assms(3) cmem by (auto simp: arena_inv_def word_le_nat_alt)
  have caps: "unat (ch_capacity c) + unat al + unat n < 2 ^ 64"
    using assms(5) cmem by (auto simp: no_wrap_def)
  have al: "unat (ch_offset c) \<le> unat off" "unat off < unat (ch_offset c) + unat al"
    "unat al dvd unat off"
    using align_up_spec [OF assms(4), of "ch_offset c"] offc caps by (auto simp: off_def)
  have sum: "unat (off + n) = unat off + unat n"
    using al(2) offc caps by (intro unat_add_exact) simp
  from assms(1) have le: "off + n \<le> ch_capacity c" and loc: "loc = (length (ar_chunks a) - 1, off)"
    and a': "a' = a\<lparr>ar_chunks := butlast (ar_chunks a) @ [c\<lparr>ch_offset := off + n\<rparr>],
      ar_allocated := ar_allocated a + n\<rparr>"
    by (auto simp: bump_def Let_def c_def off_def split: if_splits)
  have fits: "unat off + unat n \<le> unat (ch_capacity c)"
    using le sum by (simp add: word_le_nat_alt)
  have len: "length (ar_chunks a') = length (ar_chunks a)" using assms(2) by (simp add: a')
  have nth: "ar_chunks a' ! i = (if i = length (ar_chunks a) - 1 then c\<lparr>ch_offset := off + n\<rparr>
      else ar_chunks a ! i)" if "i < length (ar_chunks a)" for i
    using that by (auto simp: a' nth_append nth_butlast)
  have lastn: "ar_chunks a ! (length (ar_chunks a) - 1) = c"
    using assms(2) by (simp add: c_def last_conv_nth)
  have old: "i < length (ar_chunks a) \<and> s \<le> e \<and> e \<le> unat (ch_offset (ar_chunks a ! i))"
    if "(i, s, e) \<in> set rs" for i s e
    using assms(3) that by (auto simp: arena_inv_def)
  have "arena_inv (rs @ [(length (ar_chunks a) - 1, unat off, unat off + unat n)]) a'"
    unfolding arena_inv_def disjoint_ranges_snoc
  proof (intro conjI)
    show "\<forall>c \<in> set (ar_chunks a'). ch_offset c \<le> ch_capacity c"
      using assms(3) le by (auto simp: a' arena_inv_def dest: in_set_butlastD)
    show "disjoint_ranges rs" using assms(3) by (simp add: arena_inv_def)
    show "\<forall>(c', s', e') \<in> set rs. length (ar_chunks a) - 1 \<noteq> c' \<or> e' \<le> unat off \<or>
        unat off + unat n \<le> s'"
      using old lastn al(1) by fastforce
    show "\<forall>(i, s, e) \<in> set (rs @ [(length (ar_chunks a) - 1, unat off, unat off + unat n)]).
        i < length (ar_chunks a') \<and> s \<le> e \<and> e \<le> unat (ch_offset (ar_chunks a' ! i))"
    proof (intro ballI, unfold split_paired_all, clarify)
      fix i s e assume "(i, s, e) \<in> set (rs @ [(length (ar_chunks a) - 1, unat off, unat off + unat n)])"
      then consider "(i, s, e) \<in> set rs" | "i = length (ar_chunks a) - 1" "s = unat off" "e = unat off + unat n"
        by auto
      then show "i < length (ar_chunks a') \<and> s \<le> e \<and> e \<le> unat (ch_offset (ar_chunks a' ! i))"
      proof cases
        case 1
        with old [OF 1] lastn al(1) show ?thesis
          by (auto simp: len nth sum intro: le_trans)
      next
        case 2
        with assms(2) sum show ?thesis by (simp add: len nth)
      qed
    qed
  qed
  with that [of c off] show thesis
    using al fits loc by (simp add: c_def a')
qed

lemma new_chunk_spec:
  assumes "new_chunk base m bud a = Inr (bud', a')" and "arena_inv rs a"
  shows "arena_inv rs a'" and "ar_chunks a' \<noteq> []" and "ch_offset (last (ar_chunks a')) = 0"
    and "ch_capacity (last (ar_chunks a')) = max (ar_chunk_bytes a) m"
    and "m = n + al \<Longrightarrow> no_wrap n al a \<Longrightarrow> no_wrap n al a'"
proof -
  have a': "a' = a\<lparr>ar_chunks := ar_chunks a @ [\<lparr>ch_data = base (length (ar_chunks a)),
      ch_capacity = max (ar_chunk_bytes a) m, ch_offset = 0\<rparr>]\<rparr>"
    using assms(1) by (auto simp: new_chunk_def Let_def rbind_Inr_conv)
  have "e \<le> unat (ch_offset ((ar_chunks a @ cs) ! i)) \<and> i < length (ar_chunks a @ cs)"
    if "i < length (ar_chunks a)" "e \<le> unat (ch_offset (ar_chunks a ! i))" for i e cs
    using that by (simp add: nth_append)
  with assms(2) show "arena_inv rs a'"
    by (auto simp: arena_inv_def a' nth_append)
  show "ar_chunks a' \<noteq> []" "ch_offset (last (ar_chunks a')) = 0"
    "ch_capacity (last (ar_chunks a')) = max (ar_chunk_bytes a) m"
    by (simp_all add: a')
  show "no_wrap n al a'" if m: "m = n + al" and w: "no_wrap n al a"
  proof -
    have "unat m = unat n + unat al" using w m by (simp add: no_wrap_def unat_add_exact)
    then have "unat (max (ar_chunk_bytes a) m) + unat al + unat n < 2 ^ 64"
      using w by (auto simp: max_def no_wrap_def)
    with w show ?thesis by (simp add: no_wrap_def a')
  qed
qed

lemma bump_fresh:
  assumes "ar_chunks a \<noteq> []" "ch_offset (last (ar_chunks a)) = 0"
    "ch_capacity (last (ar_chunks a)) = max k (n + al)" "power_of_two al" "no_wrap n al a"
  shows "bump n al a \<noteq> None"
proof -
  let ?off = "align_up 0 al"
  have "unat al < 2 ^ 64" by (rule unat_u64_less)
  then have "unat ?off < unat al" "unat al dvd unat ?off"
    using align_up_spec [OF assms(4), of 0] by auto
  then have z: "?off = 0" by (metis nat_dvd_not_less neq0_conv unat_eq_0)
  have "unat (n + al) = unat n + unat al" using assms(5) by (simp add: no_wrap_def unat_add_exact)
  then have "n \<le> n + al" by (simp add: word_le_nat_alt)
  then have "n \<le> max k (n + al)" by (simp add: le_max_iff_disj)
  then show ?thesis by (simp add: bump_def Let_def assms(2,3) z)
qed

text \<open>The alignment in force: zero stands for \<open>alignof(std::max_align_t)\<close>.\<close>

definition alignment :: "u64 \<Rightarrow> u64" where
  "alignment al = (if al = 0 then 16 else al)"

lemma arena_place_spec:
  assumes "arena_inv rs a" and "power_of_two (alignment al0)" and "no_wrap n (alignment al0) a" and "n \<noteq> 0"
    and place: "arena_place base n al0 bud a = (r, bud', a')"
  shows "case r of
      Inl e \<Rightarrow> err_code e \<noteq> Internal \<and> arena_inv rs a'
    | Inr (i, off) \<Rightarrow> i < length (ar_chunks a') \<and> unat (alignment al0) dvd unat off \<and>
        unat off + unat n \<le> unat (ch_capacity (ar_chunks a' ! i)) \<and>
        arena_inv (rs @ [(i, unat off, unat off + unat n)]) a'"
proof -
  define al where "al = alignment al0"
  note w = assms(3) [folded al_def] and p2 = assms(2) [folded al_def]
  have err: "err_code e = InvalidArgument" if "new_chunk base m b x = Inl e" for m b x e
    using that by (auto simp: new_chunk_def Let_def reserve_opt_def reserve_def rbind_Inl_conv
        split: option.splits if_splits)
  define good where "good i off x' \<longleftrightarrow> i < length (ar_chunks x') \<and> unat al dvd unat off \<and>
        unat off + unat n \<le> unat (ch_capacity (ar_chunks x' ! i)) \<and>
        arena_inv (rs @ [(i, unat off, unat off + unat n)]) x'" for i and off :: u64 and x'
  have ok: "good i off x'"
    if b: "bump n al x = Some ((i, off), x')" and ne: "ar_chunks x \<noteq> []" and iv: "arena_inv rs x"
      and nw: "no_wrap n al x" for x x' i off
  proof -
    obtain c off' where *: "(i, off) = (length (ar_chunks x) - 1, off')"
      "unat off' + unat n \<le> unat (ch_capacity c)" "unat al dvd unat off'"
      "ar_chunks x' = butlast (ar_chunks x) @ [c\<lparr>ch_offset := off' + n\<rparr>]"
      "arena_inv (rs @ [(length (ar_chunks x) - 1, unat off', unat off' + unat n)]) x'"
      by (rule bump_Some [OF b ne iv p2 nw])
    have "ar_chunks x' ! (length (ar_chunks x) - 1) = c\<lparr>ch_offset := off' + n\<rparr>"
      "length (ar_chunks x') = length (ar_chunks x)"
      using *(4) ne by (simp_all add: nth_append)
    with * ne show ?thesis by (simp add: good_def)
  qed
  have second: "case (case new_chunk base (n + al) b x of
        Inl e \<Rightarrow> (Inl e, b, x)
      | Inr (bud2, a2) \<Rightarrow> (case bump n al a2 of
          Some (loc, a3) \<Rightarrow> (Inr loc, bud2, a3)
        | None \<Rightarrow> (Inl (Error Internal ''arena allocation failed''), bud2, a2))) of
        (Inl e, _, x') \<Rightarrow> err_code e \<noteq> Internal \<and> arena_inv rs x'
      | (Inr (i, off), _, x') \<Rightarrow> good i off x'"
    if "arena_inv rs x" "no_wrap n al x" for b x
  proof (cases "new_chunk base (n + al) b x")
    case (Inl e)
    then show ?thesis using err [OF Inl] that(1) by simp
  next
    case (Inr s)
    obtain b2 x2 where s: "s = (b2, x2)" by (cases s)
    note nc = new_chunk_spec [OF Inr [unfolded s] that(1)]
    have w2: "no_wrap n al x2" by (rule nc(5) [OF refl that(2)])
    obtain i off x3 where bm: "bump n al x2 = Some ((i, off), x3)"
      using bump_fresh [OF nc(2,3,4) p2 w2] by (metis not_None_eq old.prod.exhaust)
    show ?thesis using ok [OF bm nc(2,1) w2] by (simp add: Inr s bm)
  qed
  have first: "case (case bump n al x of
        Some (loc, a2) \<Rightarrow> (Inr loc, b, a2)
      | None \<Rightarrow> (case new_chunk base (n + al) b x of
          Inl e \<Rightarrow> (Inl e, b, x)
        | Inr (bud2, a2) \<Rightarrow> (case bump n al a2 of
            Some (loc, a3) \<Rightarrow> (Inr loc, bud2, a3)
          | None \<Rightarrow> (Inl (Error Internal ''arena allocation failed''), bud2, a2)))) of
        (Inl e, _, x') \<Rightarrow> err_code e \<noteq> Internal \<and> arena_inv rs x'
      | (Inr (i, off), _, x') \<Rightarrow> good i off x'"
    if "arena_inv rs x" "no_wrap n al x" "ar_chunks x \<noteq> []" for b x
  proof (cases "bump n al x")
    case None
    then show ?thesis using second [OF that(1,2), of b] by simp
  next
    case (Some s)
    obtain i off x' where s: "s = ((i, off), x')" by (metis old.prod.exhaust)
    show ?thesis using ok [OF Some [unfolded s] that(3,1,2)] by (simp add: Some s)
  qed
  have def: "arena_place base n al0 bud a =
      (case (if ar_chunks a = [] then new_chunk base (n + al) bud a else Inr (bud, a)) of
        Inl e \<Rightarrow> (Inl e, bud, a)
      | Inr (bud1, a1) \<Rightarrow> (case bump n al a1 of
          Some (loc, a2) \<Rightarrow> (Inr loc, bud1, a2)
        | None \<Rightarrow> (case new_chunk base (n + al) bud1 a1 of
            Inl e \<Rightarrow> (Inl e, bud1, a1)
          | Inr (bud2, a2) \<Rightarrow> (case bump n al a2 of
              Some (loc, a3) \<Rightarrow> (Inr loc, bud2, a3)
            | None \<Rightarrow> (Inl (Error Internal ''arena allocation failed''), bud2, a2)))))"
    unfolding arena_place_def Let_def al_def alignment_def if_not_P [OF assms(4)] ..
  have "case arena_place base n al0 bud a of
        (Inl e, _, x') \<Rightarrow> err_code e \<noteq> Internal \<and> arena_inv rs x'
      | (Inr (i, off), _, x') \<Rightarrow> good i off x'"
  proof (cases "ar_chunks a = []")
    case False
    then show ?thesis
      using first [OF assms(1) w False, of bud] by (simp add: def)
  next
    case True
    show ?thesis
    proof (cases "new_chunk base (n + al) bud a")
      case (Inl e)
      then show ?thesis using err [OF Inl] assms(1) True by (simp add: def)
    next
      case (Inr s)
      obtain b2 x2 where s: "s = (b2, x2)" by (cases s)
      note nc = new_chunk_spec [OF Inr [unfolded s] assms(1)]
      have "no_wrap n al x2" by (rule nc(5) [OF refl w])
      then show ?thesis
        using first [OF nc(1) _ nc(2), of b2] True Inr by (simp add: def s)
    qed
  qed
  then show ?thesis
    unfolding place by (simp add: good_def al_def split: sum.splits prod.splits)
qed

text \<open>Runs of the arena: requests with a power-of-two alignment that cannot wrap, and resets.
  The third component is the history of ranges since the last reset.\<close>

inductive arena_step ::
    "(nat \<Rightarrow> u64) \<Rightarrow> budget option \<times> arena \<times> range list \<Rightarrow> budget option \<times> arena \<times> range list \<Rightarrow> bool"
  for base where
  place: "arena_place base n al bud a = (Inr (i, off), bud', a') \<Longrightarrow> power_of_two (alignment al) \<Longrightarrow>
    no_wrap n (alignment al) a \<Longrightarrow>
    arena_step base (bud, a, rs) (bud', a', rs @ [(i, unat off, unat off + unat n)])"
| fail: "arena_place base n al bud a = (Inl e, bud', a') \<Longrightarrow> power_of_two (alignment al) \<Longrightarrow>
    no_wrap n (alignment al) a \<Longrightarrow> arena_step base (bud, a, rs) (bud', a', rs)"
| reset: "arena_reset bud a = (bud', a') \<Longrightarrow> arena_step base (bud, a, rs) (bud', a', [])"

lemma arena_step_inv:
  assumes "arena_step base (bud, a, rs) (bud', a', rs')" and "arena_inv rs a"
  shows "arena_inv rs' a'"
  using assms(1)
proof (cases rule: arena_step.cases)
  case (place n al i off)
  then have "n \<noteq> 0" by (auto simp: arena_place_def)
  from arena_place_spec [OF assms(2) place(3,4) this place(2)] show ?thesis
    using place(1) by simp
next
  case (fail n al e)
  show ?thesis
  proof (cases "n = 0")
    case True
    with fail assms(2) show ?thesis by (simp add: arena_place_def)
  next
    case False
    from arena_place_spec [OF assms(2) fail(3,4) False fail(2)] show ?thesis
      using fail(1) by simp
  qed
next
  case reset
  then show ?thesis by (auto simp: arena_reset_def arena_inv_def disjoint_ranges_def)
qed

lemma arena_reachable:
  assumes "rtranclp (arena_step base) (bud0, new_arena k, []) s"
  shows "arena_inv (snd (snd s)) (fst (snd s))"
  using assms
proof (induction rule: rtranclp_induct)
  case base
  then show ?case by (simp add: arena_inv_new)
next
  case (step s s')
  then show ?case
    using arena_step_inv [of base "fst s" "fst (snd s)" "snd (snd s)" "fst s'" "fst (snd s')" "snd (snd s')"]
    by simp
qed


text \<open>C27. From any reachable state, a non-empty request whose sizes do not wrap is
  either placed, at an offset that is a multiple of the alignment and inside its chunk, or
  refused by the budget: the error after the second pass of the loop is never returned.\<close>

theorem arena_never_internal:
  assumes "rtranclp (arena_step base) (bud0, new_arena k, []) (bud, a, rs)"
    and "power_of_two (alignment al)" and "no_wrap n (alignment al) a" and "n \<noteq> 0"
    and "arena_place base n al bud a = (r, bud', a')"
  shows "case r of Inl e \<Rightarrow> err_code e \<noteq> Internal
    | Inr (i, off) \<Rightarrow> i < length (ar_chunks a') \<and> unat (alignment al) dvd unat off \<and>
        unat off + unat n \<le> unat (ch_capacity (ar_chunks a' ! i))"
proof -
  have "arena_inv rs a" using arena_reachable [OF assms(1)] by simp
  from arena_place_spec [OF this assms(2-5)] show ?thesis by (auto split: sum.splits)
qed

text \<open>C32. Without the bound on the sizes the guard of \<open>allocate\<close> wraps: a request whose
  end \<open>aligned + bytes\<close> wraps to at most the current offset is granted from the current chunk, and the
  chunk's offset moves back, so that the next request overlaps ranges already handed out.\<close>

theorem arena_overflow_overlaps:
  assumes "ar_chunks a = cs @ [c]" and "n \<noteq> 0" and "al \<noteq> 0"
    and "align_up (ch_offset c) al + n \<le> ch_offset c" and "ch_offset c \<le> ch_capacity c"
  shows "\<exists>a'. arena_place base n al bud a = (Inr (length cs, align_up (ch_offset c) al), bud, a') \<and>
    ch_offset (last (ar_chunks a')) \<le> ch_offset c"
  using assms by (auto simp: arena_place_def bump_def Let_def)

text \<open>C33. The pointer an allocation returns is aligned only as far as the chunk's base
  address is: \<open>align_up\<close> rounds the offset, not the address, so a request for 64-byte alignment
  from a chunk whose base is a multiple of 16 only need not be 64-byte aligned.\<close>

theorem arena_pointer_alignment:
  assumes "arena_inv rs a" and "power_of_two (alignment al)" and "no_wrap n (alignment al) a" and "n \<noteq> 0"
    and "arena_allocate base n al bud a = (Inr ptr, bud', a')"
  shows "\<exists>c \<in> set (ar_chunks a'). unat ptr mod unat (alignment al) = unat (ch_data c) mod unat (alignment al)"
proof -
  obtain i off where pl: "arena_place base n al bud a = (Inr (i, off), bud', a')"
    and ptr: "ptr = ch_data (ar_chunks a' ! i) + off"
    using assms(5) by (auto simp: arena_allocate_def split: prod.splits sum.splits)
  from arena_place_spec [OF assms(1-4) pl] have i: "i < length (ar_chunks a')"
    and d: "unat (alignment al) dvd unat off" by auto
  obtain k where k: "k < 64" "alignment al = 2 ^ k" using assms(2) by (auto simp: power_of_two_def)
  then have al: "unat (alignment al) = 2 ^ k" using unat_pow2 by simp
  have "unat ptr mod 2 ^ k = (unat (ch_data (ar_chunks a' ! i)) + unat off) mod 2 ^ 64 mod 2 ^ k"
    by (simp add: ptr unat_word_ariths(1))
  also have "\<dots> = (unat (ch_data (ar_chunks a' ! i)) + unat off) mod 2 ^ k"
    by (rule mod_mod_cancel, rule le_imp_power_dvd) (use k(1) in simp)
  also have "\<dots> = unat (ch_data (ar_chunks a' ! i)) mod 2 ^ k"
    using d unfolding al by (metis add.right_neutral mod_add_right_eq dvd_imp_mod_0)
  finally show ?thesis using i unfolding al by (metis nth_mem)
qed

section \<open>The allocator\<close>

datatype alloc_strategy = StrategyPool | StrategyArena

record tensor_buffer =
  tb_id :: u64
  tb_dtype :: dtype
  tb_shape :: shape
  tb_data :: u64
  tb_nbytes :: u64
  tb_owned :: bool
  tb_quant_format :: quant_format
  tb_quant_rows :: i64
  tb_quant_cols :: i64

record allocator =
  al_strategy :: alloc_strategy
  al_budget :: budget
  al_pool :: pool
  al_arena :: arena

definition new_allocator :: "alloc_strategy \<Rightarrow> u64 \<Rightarrow> u64 \<Rightarrow> allocator" where
  "new_allocator strategy budget_bytes chunk_bytes = \<lparr>al_strategy = strategy,
     al_budget = new_budget budget_bytes, al_pool = empty_pool, al_arena = new_arena chunk_bytes\<rparr>"

text \<open>\<open>pool_\<close> and \<open>arena_\<close> hold the address of \<open>budget_\<close>: they read and write that one budget.\<close>

definition allocate_bytes ::
    "u64 option \<Rightarrow> (nat \<Rightarrow> u64) \<Rightarrow> u64 \<Rightarrow> allocator \<Rightarrow> (error + u64) \<times> allocator" where
  "allocate_bytes mem base n a = (case al_strategy a of
       StrategyArena \<Rightarrow> (case arena_allocate base n 16 (Some (al_budget a)) (al_arena a) of
         (r, bud, ar) \<Rightarrow> (r, a\<lparr>al_budget := the bud, al_arena := ar\<rparr>))
     | StrategyPool \<Rightarrow> (case pool_allocate mem n (Some (al_budget a)) (al_pool a) of
         (r, bud, p) \<Rightarrow> (r, a\<lparr>al_budget := the bud, al_pool := p\<rparr>)))"

definition deallocate_bytes :: "u64 \<Rightarrow> allocator \<Rightarrow> allocator" where
  "deallocate_bytes ptr a = (case al_strategy a of
       StrategyArena \<Rightarrow> a
     | StrategyPool \<Rightarrow> a\<lparr>al_pool := pool_deallocate ptr (al_pool a)\<rparr>)"

definition allocate_tensor ::
    "u64 option \<Rightarrow> (nat \<Rightarrow> u64) \<Rightarrow> tensor \<Rightarrow> tensor_buffer \<Rightarrow> allocator
      \<Rightarrow> (error + tensor_buffer) \<times> allocator" where
  "allocate_tensor mem base t out a =
     (let n = estimate_tensor_bytes t
      in if n = 0 then (Inl (Error InvalidArgument
             (''cannot allocate tensor with unknown size: '' @ t_name t)), a)
         else case allocate_bytes mem base n a of
           (Inl e, a') \<Rightarrow> (Inl e, a')
         | (Inr ptr, a') \<Rightarrow> (Inr (out\<lparr>tb_id := t_id t, tb_dtype := t_dtype t, tb_shape := t_shape t,
               tb_data := ptr, tb_nbytes := n, tb_owned := True\<rparr>), a'))"

definition deallocate_tensor :: "tensor_buffer \<Rightarrow> allocator \<Rightarrow> tensor_buffer \<times> allocator" where
  "deallocate_tensor b a =
     (if \<not> tb_owned b \<or> tb_data b = 0 then (b, a)
      else (b\<lparr>tb_data := 0, tb_nbytes := 0, tb_owned := False\<rparr>, deallocate_bytes (tb_data b) a))"

definition allocator_reset :: "allocator \<Rightarrow> allocator" where
  "allocator_reset a = (case al_strategy a of
       StrategyArena \<Rightarrow> (case arena_reset (Some (al_budget a)) (al_arena a) of
         (bud, ar) \<Rightarrow> a\<lparr>al_budget := the bud, al_arena := ar\<rparr>)
     | StrategyPool \<Rightarrow> (case pool_clear (Some (al_budget a)) (al_pool a) of
         (bud, p) \<Rightarrow> a\<lparr>al_budget := the bud, al_pool := p\<rparr>))"

definition allocator_stats :: "allocator \<Rightarrow> string" where
  "allocator_stats a =
     ''budget_used='' @ u64_dec (bg_used (al_budget a)) @ '' peak='' @ u64_dec (bg_peak (al_budget a)) @
     (if bg_limit (al_budget a) \<noteq> 0 then '' limit='' @ u64_dec (bg_limit (al_budget a)) else []) @
     (case al_strategy a of
        StrategyPool \<Rightarrow> '' pool_live='' @ u64_dec (pl_live_bytes (al_pool a)) @
          '' pool_cached='' @ u64_dec (pl_cached_bytes (al_pool a))
      | StrategyArena \<Rightarrow> '' arena_alloc='' @ u64_dec (ar_allocated (al_arena a)) @
          '' arena_chunks='' @ nat_dec (length (ar_chunks (al_arena a))))"

text \<open>With the pool strategy, a tensor that was allocated and is freed twice
  leaves the allocator as one free does; the first free takes the block out of the live table
  and keeps every other live block.\<close>

theorem tensor_free_returns_block:
  assumes "al_strategy a = StrategyPool" and "pool_inv (al_pool a)"
    and "deallocate_tensor b a = (b1, a1)"
  shows "deallocate_tensor b1 a1 = (b1, a1) \<and> pool_inv (al_pool a1) \<and>
    (tb_owned b \<longrightarrow> map_of (pl_live (al_pool a1)) = (map_of (pl_live (al_pool a)))(tb_data b := None)) \<and>
    mset (blocks (al_pool a1)) = mset (blocks (al_pool a))"
proof (cases "\<not> tb_owned b \<or> tb_data b = 0")
  case True
  then have "b1 = b" "a1 = a" using assms(3) by (auto simp: deallocate_tensor_def)
  moreover have "map_of (pl_live (al_pool a)) 0 = None"
    using assms(2) by (force simp: pool_inv_def blocks_def map_of_eq_None_iff)
  ultimately show ?thesis
    using True assms(2) by (auto simp: deallocate_tensor_def fun_upd_idem)
next
  case False
  then have b1: "b1 = b\<lparr>tb_data := 0, tb_nbytes := 0, tb_owned := False\<rparr>"
    and a1: "a1 = a\<lparr>al_pool := pool_deallocate (tb_data b) (al_pool a)\<rparr>"
    using assms(1,3) by (auto simp: deallocate_tensor_def deallocate_bytes_def)
  have "deallocate_tensor b1 a1 = (b1, a1)" by (simp add: deallocate_tensor_def b1)
  then show ?thesis
    using pool_deallocate_spec [OF assms(2), of "tb_data b"] by (simp add: a1)
qed

text \<open>Resetting a pool allocator whose budget counts exactly its blocks brings
  the budget's usage back to zero and leaves no block behind; the limit and the peak stay.\<close>

theorem allocator_reset_frees_all:
  assumes "al_strategy a = StrategyPool" and "accounted (Some (al_budget a)) (al_pool a)"
  shows "bg_used (al_budget (allocator_reset a)) = 0 \<and> al_pool (allocator_reset a) = empty_pool \<and>
    bg_limit (al_budget (allocator_reset a)) = bg_limit (al_budget a) \<and>
    bg_peak (al_budget (allocator_reset a)) = bg_peak (al_budget a)"
proof -
  let ?ns = "map snd (pl_live (al_pool a)) @ map snd (cached_blocks (al_pool a))"
  have r: "al_budget (allocator_reset a) = fold release ?ns (al_budget a)"
    "al_pool (allocator_reset a) = empty_pool"
    using assms(1) unfolding allocator_reset_def pool_clear_def release_all by simp_all
  have keep: "bg_limit (fold release ns b) = bg_limit b \<and> bg_peak (fold release ns b) = bg_peak b" for ns b
    by (induction ns arbitrary: b) simp_all
  have "accounted (Some (fold release ?ns (al_budget a))) empty_pool"
    using pool_clear_accounted [OF assms(2)] unfolding pool_clear_def release_all by simp
  then have "bg_used (fold release ?ns (al_budget a)) = 0"
    by (simp add: accounted_def pool_bytes_def blocks_def empty_pool_def cached_blocks_def unat_eq_0
        del: fold_append)
  then show ?thesis using r keep by simp
qed

section \<open>Witnesses\<close>

definition demo_base :: "nat \<Rightarrow> u64" where
  "demo_base i = word_of_nat (65536 * Suc i + 16)"

lemma align_up_0 [simp]: "align_up 0 64 = 0" "align_up 0 16 = 0"
  by (simp_all add: align_up_def)

lemma demo_place:
  "arena_place demo_base 100 64 None (new_arena 4096) =
     (Inr (0, 0), None, \<lparr>ar_chunk_bytes = 4096,
        ar_chunks = [\<lparr>ch_data = demo_base 0, ch_capacity = 4096, ch_offset = 100\<rparr>], ar_allocated = 100\<rparr>)"
  by (simp add: arena_place_def new_arena_def new_chunk_def reserve_opt_def bump_def Let_def max_def)

lemma power_of_two_64: "power_of_two 64" "alignment 64 = 64"
  unfolding power_of_two_def by (auto simp: alignment_def intro!: exI [of _ 6])

lemma no_wrap_demo: "no_wrap 100 64 (new_arena 4096)"
  by (simp add: no_wrap_def new_arena_def)


theorem arena_never_internal_witness:
  "\<exists>i off. fst (arena_place demo_base 100 64 None (new_arena 4096)) = Inr (i, off) \<and> 64 dvd unat off"
proof -
  from arena_never_internal [OF rtranclp.rtrancl_refl [of "arena_step demo_base"], of 64 100 4096 None]
  show ?thesis
    using demo_place power_of_two_64 no_wrap_demo by fastforce
qed

theorem arena_overflow_overlaps_witness:
  "\<exists>a'. arena_place demo_base (2 ^ 64 - 16) 16 None
      \<lparr>ar_chunk_bytes = 4096, ar_chunks = [\<lparr>ch_data = demo_base 0, ch_capacity = 4096, ch_offset = 32\<rparr>],
       ar_allocated = 32\<rparr> = (Inr (0, 32), None, a') \<and> ch_offset (last (ar_chunks a')) \<le> 32"
  using arena_overflow_overlaps [of "\<lparr>ar_chunk_bytes = 4096, ar_chunks =
      [\<lparr>ch_data = demo_base 0, ch_capacity = 4096, ch_offset = 32\<rparr>], ar_allocated = 32\<rparr>" "[]"
      "\<lparr>ch_data = demo_base 0, ch_capacity = 4096, ch_offset = 32\<rparr>" "2 ^ 64 - 16" 16 demo_base None]
  by (simp add: align_up_def)

theorem arena_pointer_alignment_witness:
  "\<exists>ptr bud a'. arena_allocate demo_base 100 64 None (new_arena 4096) = (Inr ptr, bud, a') \<and>
     unat ptr mod 64 \<noteq> 0"
proof -
  have e: "arena_allocate demo_base 100 64 None (new_arena 4096) = (Inr (demo_base 0 + 0), None,
      \<lparr>ar_chunk_bytes = 4096,
        ar_chunks = [\<lparr>ch_data = demo_base 0, ch_capacity = 4096, ch_offset = 100\<rparr>], ar_allocated = 100\<rparr>)"
    by (simp add: arena_allocate_def demo_place)
  have "unat (demo_base 0) mod 64 = 16" by (simp add: demo_base_def)
  moreover have "unat (demo_base 0 + 0) mod 64 = unat (demo_base 0) mod 64"
    using arena_pointer_alignment [OF arena_inv_new _ _ _ e] power_of_two_64 no_wrap_demo by simp
  ultimately show ?thesis using e by simp
qed

definition demo_allocator :: allocator where
  "demo_allocator = (new_allocator StrategyPool 1000 4096)\<lparr>al_budget :=
     \<lparr>bg_limit = 1000, bg_used = 128, bg_peak = 128\<rparr>, al_pool :=
     \<lparr>pl_free = [(128, [])], pl_live = [(4096, 128)], pl_live_bytes = 128, pl_cached_bytes = 0\<rparr>\<rparr>"

definition demo_buffer :: tensor_buffer where
  "demo_buffer = \<lparr>tb_id = 1, tb_dtype = DT_F32, tb_shape = [32], tb_data = 4096, tb_nbytes = 128,
     tb_owned = True, tb_quant_format = QF_F32, tb_quant_rows = 0, tb_quant_cols = 0\<rparr>"

lemma demo_allocator_ok:
  "al_strategy demo_allocator = StrategyPool" "pool_inv (al_pool demo_allocator)"
  "accounted (Some (al_budget demo_allocator)) (al_pool demo_allocator)"
  by (simp_all add: demo_allocator_def new_allocator_def pool_inv_def blocks_def cached_blocks_def
      accounted_def pool_bytes_def)

theorem tensor_free_returns_block_witness:
  "map_of (pl_live (al_pool (snd (deallocate_tensor demo_buffer demo_allocator)))) 4096 = None \<and>
   deallocate_tensor (fst (deallocate_tensor demo_buffer demo_allocator))
     (snd (deallocate_tensor demo_buffer demo_allocator)) = deallocate_tensor demo_buffer demo_allocator"
  using tensor_free_returns_block [OF demo_allocator_ok(1,2), of demo_buffer
      "fst (deallocate_tensor demo_buffer demo_allocator)"
      "snd (deallocate_tensor demo_buffer demo_allocator)"]
  by (simp add: demo_buffer_def)

theorem allocator_reset_frees_all_witness:
  "bg_used (al_budget demo_allocator) = 128 \<and> bg_used (al_budget (allocator_reset demo_allocator)) = 0"
  using allocator_reset_frees_all [OF demo_allocator_ok(1,3)]
  by (simp add: demo_allocator_def)

end
