(* ===== verification/Plan_Cache.thy ===== *)
theory Plan_Cache
  imports Exec_Plan Binary_Ir Double_Text
begin

text \<open>
  The plan cache (\<open>planner/cache.hpp\<close>, \<open>cache.cpp\<close>): an in-memory table of execution plans and, when
  \<open>UAII_PLAN_CACHE_DIR\<close> is set, one text file per plan.  The formatted reads and writes of
  \<open>std::istream\<close> and \<open>std::ostream\<close> are modelled on strings: the stream's state is the text still
  to be read, and \<open>None\<close> is a stream that has failed.  Files are a map from paths to contents,
  \<open>can_write\<close> says which paths the file system lets the process write, and \<open>std::hash\<close> is the parameter \<open>hash\<close>.
  Running out of memory on a huge element count is not modelled.
\<close>

section \<open>Formatted input\<close>

definition getline :: "string \<Rightarrow> (string \<times> string) option" where
  "getline r = (if r = [] then None
     else Some (takeWhile (\<lambda>c. c \<noteq> CHR 0x0A) r, drop 1 (dropWhile (\<lambda>c. c \<noteq> CHR 0x0A) r)))"

definition split_sign :: "string \<Rightarrow> bool \<times> string" where
  "split_sign r = (case r of [] \<Rightarrow> (False, [])
     | c # cs \<Rightarrow> if c = CHR ''-'' then (True, cs) else if c = CHR ''+'' then (False, cs) else (False, r))"

text \<open>\<open>in >> x\<close> for unsigned and for signed integers; a value out of range sets the fail bit.\<close>

definition read_word :: "string \<Rightarrow> ('a::len word \<times> string) option" where
  "read_word r = (let (neg, s) = split_sign (skip_ws r); ds = takeWhile is_digit s; v = digits_value ds in
     if ds = [] \<or> 2 ^ LENGTH('a) \<le> v then None
     else Some ((if neg then - word_of_nat v else word_of_nat v), dropWhile is_digit s))"

definition read_int :: "string \<Rightarrow> (int \<times> string) option" where
  "read_int r = (let (neg, s) = split_sign (skip_ws r); ds = takeWhile is_digit s;
       v = (if neg then - int (digits_value ds) else int (digits_value ds)) in
     if ds = [] \<or> v < - (2 ^ 31) \<or> 2 ^ 31 \<le> v then None else Some (v, dropWhile is_digit s))"

fun read_many :: "(string \<Rightarrow> ('a \<times> string) option) \<Rightarrow> nat \<Rightarrow> string \<Rightarrow> ('a list \<times> string) option" where
  "read_many f 0 r = Some ([], r)"
| "read_many f (Suc n) r = Option.bind (f r) (\<lambda>(x, r).
     Option.bind (read_many f n r) (\<lambda>(xs, r). Some (x # xs, r)))"

section \<open>The plan file\<close>

definition line :: "string \<Rightarrow> string" where
  "line s = s @ [CHR 0x0A]"

definition write_id_list :: "u64 list \<Rightarrow> string" where
  "write_id_list ids = line (nat_dec (length ids) @ concat (map (\<lambda>i. CHR '' '' # u64_dec i) ids))"

definition read_id_list :: "string \<Rightarrow> (u64 list \<times> string) option" where
  "read_id_list r = Option.bind (getline r) (\<lambda>(l, r).
     Option.bind (read_word l) (\<lambda>(n :: u64, s).
     Option.bind (read_many read_word (unat n) s) (\<lambda>(ids, _). Some (ids, r))))"

fun device_num :: "device_type \<Rightarrow> int" where
  "device_num DevUnknown = 0" | "device_num DevCpu = 1" | "device_num DevCuda = 2"
| "device_num DevMetal = 3" | "device_num DevVulkan = 4" | "device_num DevWebGpu = 5"
| "device_num DevRocm = 6" | "device_num DevNpu = 7" | "device_num DevCustom = 8"
| "device_num (DevRaw w) = sint w"

definition device_of_num :: "int \<Rightarrow> device_type" where
  "device_of_num i = (if i = 0 then DevUnknown else if i = 1 then DevCpu else if i = 2 then DevCuda
     else if i = 3 then DevMetal else if i = 4 then DevVulkan else if i = 5 then DevWebGpu
     else if i = 6 then DevRocm else if i = 7 then DevNpu else if i = 8 then DevCustom
     else DevRaw (word_of_int i))"

definition write_op :: "planned_op \<Rightarrow> string" where
  "write_op op = line (u64_dec (po_node_id op)) @ line (po_node_name op) @ line (po_op_name op) @
     line (po_op_version op) @ line (int_dec (device_num (po_preferred_device op))) @
     line (po_selected_kernel op) @ write_id_list (po_dependencies op) @ write_id_list (po_inputs op) @
     write_id_list (po_outputs op)"

definition flag :: "bool \<Rightarrow> string" where
  "flag b = (if b then ''1'' else ''0'')"

definition write_hint :: "memory_plan_hint \<Rightarrow> string" where
  "write_hint h = line (u64_dec (mh_tensor_id h)) @ line (mh_name h) @ line (u64_dec (mh_estimated_bytes h)) @
     line (flag (mh_is_graph_input h) @ '' '' @ flag (mh_is_graph_output h) @ '' '' @ flag (mh_is_weight h))"

definition plan_magic :: string where "plan_magic = ''UAIIPLAN1''"

definition write_plan :: "execution_plan \<Rightarrow> string" where
  "write_plan p = line plan_magic @ line (ep_graph_name p) @
     line (u64_dec (ver_major (ep_ir_version p)) @ '' '' @ u64_dec (ver_minor (ep_ir_version p))) @
     line (nat_dec (length (ep_ops p))) @ concat (map write_op (ep_ops p)) @
     line (nat_dec (length (ep_memory_hints p))) @ concat (map write_hint (ep_memory_hints p)) @
     write_id_list (ep_graph_inputs p) @ write_id_list (ep_graph_outputs p)"

text \<open>\<open>in.get()\<close> takes the end of the line after a number.\<close>

definition read_op :: "string \<Rightarrow> (planned_op \<times> string) option" where
  "read_op r = Option.bind (read_word r) (\<lambda>(i, r). Option.bind (getline (drop 1 r)) (\<lambda>(name, r).
     Option.bind (getline r) (\<lambda>(opn, r). Option.bind (getline r) (\<lambda>(ver, r).
     Option.bind (read_int r) (\<lambda>(dev, r). Option.bind (getline (drop 1 r)) (\<lambda>(ker, r).
     Option.bind (read_id_list r) (\<lambda>(deps, r). Option.bind (read_id_list r) (\<lambda>(ins, r).
     Option.bind (read_id_list r) (\<lambda>(outs, r).
       Some (\<lparr>po_node_id = i, po_node_name = name, po_op_name = opn, po_op_version = ver,
         po_dependencies = deps, po_preferred_device = device_of_num dev, po_selected_kernel = ker,
         po_inputs = ins, po_outputs = outs\<rparr>, r))))))))))"

definition read_hint :: "string \<Rightarrow> (memory_plan_hint \<times> string) option" where
  "read_hint r = Option.bind (read_word r) (\<lambda>(i, r). Option.bind (getline (drop 1 r)) (\<lambda>(name, r).
     Option.bind (read_word r) (\<lambda>(bytes, r). Option.bind (read_int r) (\<lambda>(a, r).
     Option.bind (read_int r) (\<lambda>(b, r). Option.bind (read_int r) (\<lambda>(c, r).
       Some (\<lparr>mh_tensor_id = i, mh_name = name, mh_estimated_bytes = bytes, mh_is_graph_input = (a \<noteq> 0),
         mh_is_graph_output = (b \<noteq> 0), mh_is_weight = (c \<noteq> 0)\<rparr>, drop 1 r)))))))"

definition read_plan :: "string \<Rightarrow> execution_plan option" where
  "read_plan r = Option.bind (getline r) (\<lambda>(magic, r). if magic \<noteq> plan_magic then None else
     Option.bind (getline r) (\<lambda>(name, r).
     Option.bind (read_word r) (\<lambda>(major, r). Option.bind (read_word r) (\<lambda>(minor, r).
     Option.bind (read_word r) (\<lambda>(nops :: u64, r).
     Option.bind (read_many read_op (unat nops) (drop 1 r)) (\<lambda>(ops, r).
     Option.bind (read_word r) (\<lambda>(nh :: u64, r).
     Option.bind (read_many read_hint (unat nh) (drop 1 r)) (\<lambda>(hints, r).
     Option.bind (read_id_list r) (\<lambda>(ins, r). Option.bind (read_id_list r) (\<lambda>(outs, r).
       Some \<lparr>ep_ir_version = IrVersion major minor, ep_graph_name = name, ep_ops = ops,
         ep_memory_hints = hints, ep_graph_inputs = ins, ep_graph_outputs = outs\<rparr>))))))))))"

section \<open>The cache\<close>

record plan_cache =
  pc_entries :: "(string \<times> execution_plan) list"
  pc_files :: "string \<rightharpoonup> string"

definition plan_path :: "string \<Rightarrow> string \<Rightarrow> string" where
  "plan_path dir key = dir @ ''/'' @ key @ ''.plan''"

definition cache_get :: "string \<Rightarrow> string \<Rightarrow> plan_cache \<Rightarrow> execution_plan option \<times> plan_cache" where
  "cache_get dir key c = (case map_of (pc_entries c) key of Some p \<Rightarrow> (Some p, c)
     | None \<Rightarrow> if dir = [] then (None, c)
         else (case Option.bind (pc_files c (plan_path dir key)) read_plan of None \<Rightarrow> (None, c)
           | Some p \<Rightarrow> (Some p, c\<lparr>pc_entries := map_put key p (pc_entries c)\<rparr>)))"

definition cache_put ::
  "(string \<Rightarrow> bool) \<Rightarrow> string \<Rightarrow> string \<Rightarrow> execution_plan \<Rightarrow> plan_cache \<Rightarrow> plan_cache" where
  "cache_put can_write dir key p c =
     (let c = c\<lparr>pc_entries := map_put key p (pc_entries c)\<rparr> in
      if dir = [] \<or> \<not> can_write (plan_path dir key) then c
      else c\<lparr>pc_files := (pc_files c)(plan_path dir key \<mapsto> write_plan p)\<rparr>)"

definition cache_clear :: "plan_cache \<Rightarrow> plan_cache" where
  "cache_clear c = c\<lparr>pc_entries := []\<rparr>"

definition cache_size :: "plan_cache \<Rightarrow> nat" where
  "cache_size c = length (pc_entries c)"

section \<open>Fingerprints\<close>

definition hex_char :: "nat \<Rightarrow> char" where
  "hex_char d = (if d < 10 then char_of (48 + d) else char_of (87 + d))"

fun nat_hex :: "nat \<Rightarrow> string" where
  "nat_hex n = (if n < 16 then [hex_char n] else nat_hex (n div 16) @ [hex_char (n mod 16)])"

declare nat_hex.simps [simp del]

definition node_print :: "node \<Rightarrow> string" where
  "node_print n = '';n'' @ u64_dec (n_id n) @ '':'' @ n_op_name n @ ''@'' @ n_op_version n @
     concat (map (\<lambda>i. ''<'' @ u64_dec i) (n_inputs n)) @ concat (map (\<lambda>i. ''>'' @ u64_dec i) (n_outputs n)) @
     concat (map (\<lambda>a. ''|a'' @ a_key a @ ''='' @ u64_dec (attr_type_code (attribute_type a))) (n_attributes n))"

definition tensor_print :: "tensor \<Rightarrow> string" where
  "tensor_print t = ''|t'' @ u64_dec (t_id t) @ '':'' @ u64_dec (dtype_code (t_dtype t)) @ '':w'' @
     flag (t_is_weight t) @ concat (map (\<lambda>d. ''x'' @ i64_dec d) (t_shape t)) @
     (if t_weight_ref t \<noteq> [] then ''#ref:'' @ t_weight_ref t else [])"

definition raw_fingerprint :: "graph \<Rightarrow> bool \<Rightarrow> string" where
  "raw_fingerprint g fusion = ''v2|'' @ g_name g @ ''|'' @ nat_dec (length (g_nodes g)) @ ''|'' @
     nat_dec (length (g_tensors g)) @ ''|f='' @ flag fusion @ ''|ver='' @ u64_dec (ver_major (g_version g)) @
     ''.'' @ u64_dec (ver_minor (g_version g)) @ concat (map node_print (g_nodes g)) @
     concat (map tensor_print (g_tensors g))"

definition fingerprint :: "(string \<Rightarrow> u64) \<Rightarrow> graph \<Rightarrow> bool \<Rightarrow> string" where
  "fingerprint hash g fusion = (let raw = raw_fingerprint g fusion in
     nat_hex (unat (hash raw)) @ nat_hex (unat (hash (raw @ ''#salt''))) @ ''_'' @ nat_hex (length raw))"

section \<open>Reading back a plan file\<close>

definition no_newline :: "string \<Rightarrow> bool" where
  "no_newline s \<longleftrightarrow> CHR 0x0A \<notin> set s"

lemma line_append: "line s @ r = s @ CHR 0x0A # r"
  by (simp add: line_def)

lemma getline_line [simp]: "no_newline s \<Longrightarrow> getline (s @ CHR 0x0A # r) = Some (s, r)"
  by (auto simp: getline_def no_newline_def takeWhile_append dropWhile_append)

lemma split_sign_digits: "\<forall>c \<in> set ds. is_digit c \<Longrightarrow> ds \<noteq> [] \<Longrightarrow> split_sign (ds @ r) = (False, ds @ r)"
  by (cases ds) (auto simp: split_sign_def is_digit_def)

lemma skip_ws_digits: "\<forall>c \<in> set ds. is_digit c \<Longrightarrow> ds \<noteq> [] \<Longrightarrow> skip_ws (ds @ r) = ds @ r"
  by (cases ds) (auto simp: is_space_not)

definition ends_number :: "string \<Rightarrow> bool" where
  "ends_number r \<longleftrightarrow> (case r of [] \<Rightarrow> True | c # _ \<Rightarrow> \<not> is_digit c)"

lemma ends_number_simps [simp]: "ends_number []" "ends_number (CHR 0x0A # r)" "ends_number (CHR '' '' # r)"
  by (simp_all add: ends_number_def is_digit_def)

lemma span_number:
  assumes "ends_number r"
  shows "takeWhile is_digit (nat_dec n @ r) = nat_dec n" "dropWhile is_digit (nat_dec n @ r) = r"
proof -
  have d: "\<forall>c \<in> set (nat_dec n). is_digit c" using nat_dec_digits by blast
  have "takeWhile is_digit r = []" "dropWhile is_digit r = r"
    using assms by (auto simp: ends_number_def split: list.splits)
  with d show "takeWhile is_digit (nat_dec n @ r) = nat_dec n" "dropWhile is_digit (nat_dec n @ r) = r"
    by (simp_all add: takeWhile_append dropWhile_append)
qed

lemma number_prefix: "skip_ws (nat_dec n @ r) = nat_dec n @ r" "split_sign (nat_dec n @ r) = (False, nat_dec n @ r)"
  using nat_dec_digits by (auto intro!: skip_ws_digits split_sign_digits)

lemma unat_less_exp: "unat (w :: 'a::len word) < 2 ^ LENGTH('a)"
  by (rule unsigned_less)

lemma unat_of_nat_less: "n < 2 ^ LENGTH('a) \<Longrightarrow> unat (word_of_nat n :: 'a::len word) = n"
  by (rule of_nat_inverse) auto

lemma read_word_dec [simp]:
  "ends_number r \<Longrightarrow> read_word (u64_dec w @ r) = Some ((w :: 'a::len word), r)"
  using unat_less_exp [of w]
  by (simp add: read_word_def u64_dec_def number_prefix span_number not_le Let_def)

lemma read_word_nat [simp]:
  "ends_number r \<Longrightarrow> n < 2 ^ LENGTH('a) \<Longrightarrow> read_word (nat_dec n @ r) = Some (word_of_nat n :: 'a::len word, r)"
  by (simp add: read_word_def number_prefix span_number not_le)

lemma read_word_blank [simp]: "is_space c \<Longrightarrow> read_word (c # r) = read_word r"
  by (simp add: read_word_def)

lemma read_int_blank [simp]: "is_space c \<Longrightarrow> read_int (c # r) = read_int r"
  by (simp add: read_int_def)

lemma read_int_dec:
  assumes "ends_number r" and "- (2 ^ 31) \<le> i" "i < 2 ^ 31"
  shows "read_int (int_dec i @ r) = Some (i, r)"
proof (cases "i < 0")
  case True
  have "skip_ws (CHR ''-'' # s) = CHR ''-'' # s" for s by (simp add: is_space_def)
  with True assms show ?thesis
    by (simp add: read_int_def int_dec_def split_sign_def span_number Let_def)
next
  case False
  with assms show ?thesis by (simp add: read_int_def int_dec_def number_prefix span_number Let_def)
qed

text \<open>
  The contract of one reader and writer pair: a value written is read back, with what follows it left
  on the stream, provided the rest of the text begins as \<open>sep\<close> demands.
\<close>

locale stream_codec =
  fixes put :: "'a \<Rightarrow> string" and get :: "string \<Rightarrow> ('a \<times> string) option"
    and ok :: "'a \<Rightarrow> bool" and sep :: "string \<Rightarrow> bool"
  assumes get_put: "ok x \<Longrightarrow> sep r \<Longrightarrow> get (put x @ r) = Some (x, r)"
    and sep_put: "sep r \<Longrightarrow> sep (put x @ r)"
begin

lemma sep_concat: "sep r \<Longrightarrow> sep (concat (map put xs) @ r)"
  by (induction xs) (auto intro: sep_put)

lemma read_many_put:
  "list_all ok xs \<Longrightarrow> sep r \<Longrightarrow> read_many get (length xs) (concat (map put xs) @ r) = Some (xs, r)"
proof (induction xs)
  case (Cons x xs)
  then show ?case using get_put [of x "concat (map put xs) @ r"] sep_concat [of r xs] by simp
qed simp

end

interpretation id_codec: stream_codec "\<lambda>i :: u64. CHR '' '' # u64_dec i" read_word "\<lambda>_. True" ends_number
  by unfold_locales (simp_all add: is_space_def)

lemma no_newline_append [simp]: "no_newline (s @ t) \<longleftrightarrow> no_newline s \<and> no_newline t"
  by (auto simp: no_newline_def)

lemma no_newline_dec [simp]: "no_newline (nat_dec n)" "no_newline (u64_dec w)"
proof -
  show "no_newline (nat_dec n)" for n
    using nat_dec_digits [of "CHR 0x0A" n] by (auto simp: no_newline_def is_digit_def)
  then show "no_newline (u64_dec w)" by (simp add: u64_dec_def)
qed

lemma no_newline_ids: "no_newline (concat (map (\<lambda>i. CHR '' '' # u64_dec (i :: u64)) ids))"
  using no_newline_dec(2) by (induction ids) (auto simp: no_newline_def)

lemma read_id_list_put [simp]:
  assumes "length ids < 2 ^ 64"
  shows "read_id_list (write_id_list ids @ r) = Some (ids, r)"
proof -
  let ?t = "concat (map (\<lambda>i. CHR '' '' # u64_dec (i :: u64)) ids)"
  have "ends_number ?t" using id_codec.sep_concat [of "[]" ids] by simp
  moreover have "read_many read_word (length ids) ?t = Some (ids, [])"
    using id_codec.read_many_put [of ids "[]"] by (simp add: list_all_iff)
  moreover have "unat (word_of_nat (length ids) :: u64) = length ids"
    using assms by (simp add: unat_of_nat_less)
  ultimately show ?thesis
    using assms getline_line [of "nat_dec (length ids) @ ?t" r]
    by (simp add: read_id_list_def write_id_list_def line_append no_newline_ids)
qed

lemmas read_id_list_put_end [simp] = read_id_list_put [where r = "[]", unfolded append_Nil2]

text \<open>The devices a plan can carry: the enumerators, and any other value of the underlying type.\<close>

definition device_ok :: "device_type \<Rightarrow> bool" where
  "device_ok d \<longleftrightarrow> (case d of DevRaw w \<Rightarrow> \<not> (0 \<le> sint w \<and> sint w \<le> 8) | _ \<Rightarrow> True)"

lemma device_num_back: "device_ok d \<Longrightarrow> device_of_num (device_num d) = d"
  by (cases d) (auto simp: device_of_num_def device_ok_def)

lemma device_num_range: "- (2 ^ 31) \<le> device_num d" "device_num d < 2 ^ 31"
  using sint_range_size [of "w :: 32 word" for w] sint_greater_eq [of "w :: 32 word" for w] sint_lt [of "w :: 32 word" for w]
  by (cases d; simp)+

definition op_ok :: "planned_op \<Rightarrow> bool" where
  "op_ok op \<longleftrightarrow> no_newline (po_node_name op) \<and> no_newline (po_op_name op) \<and> no_newline (po_op_version op) \<and>
     no_newline (po_selected_kernel op) \<and> device_ok (po_preferred_device op) \<and>
     length (po_dependencies op) < 2 ^ 64 \<and> length (po_inputs op) < 2 ^ 64 \<and> length (po_outputs op) < 2 ^ 64"

interpretation op_codec: stream_codec write_op read_op op_ok "\<lambda>_. True"
proof unfold_locales
  fix op r assume "op_ok op"
  then show "read_op (write_op op @ r) = Some (op, r)"
    using device_num_range [of "po_preferred_device op"]
    by (simp add: read_op_def write_op_def line_append op_ok_def read_int_dec device_num_back)
qed simp

lemma read_flag:
  assumes "ends_number r"
  shows "read_int (flag b @ r) = Some (of_bool b, r)"
proof -
  have "int_dec 0 = ''0''" "int_dec 1 = ''1''" by code_simp+
  then have "flag b = int_dec (of_bool b)" by (simp add: flag_def)
  then show ?thesis
    using assms read_int_dec [of r "of_bool b"] by (cases b) simp_all
qed

interpretation hint_codec: stream_codec write_hint read_hint "\<lambda>h. no_newline (mh_name h)" "\<lambda>_. True"
  by unfold_locales (simp_all add: read_hint_def write_hint_def line_append read_flag is_space_def)

definition plan_ok :: "execution_plan \<Rightarrow> bool" where
  "plan_ok p \<longleftrightarrow> no_newline (ep_graph_name p) \<and> list_all op_ok (ep_ops p) \<and>
     list_all (\<lambda>h. no_newline (mh_name h)) (ep_memory_hints p) \<and>
     length (ep_ops p) < 2 ^ 64 \<and> length (ep_memory_hints p) < 2 ^ 64 \<and>
     length (ep_graph_inputs p) < 2 ^ 64 \<and> length (ep_graph_outputs p) < 2 ^ 64"

lemma no_newline_magic [simp]: "no_newline plan_magic"
  by (simp add: no_newline_def plan_magic_def)

lemma read_plan_write: "plan_ok p \<Longrightarrow> read_plan (write_plan p) = Some p"
  by (cases p, cases "ep_ir_version p")
     (simp add: read_plan_def write_plan_def line_append plan_ok_def op_codec.read_many_put
       hint_codec.read_many_put is_space_def unat_of_nat_less)

section \<open>The cache keeps what is put into it\<close>

text \<open>C18. A plan put into the cache is what the next lookup of its key returns.  When a
  cache directory is set and the plan's file can be written, a process that starts with an empty
  table finds it again, field for field, provided no name in the plan contains a line break.\<close>

theorem plan_cache_persists:
  assumes "plan_ok p" and "dir \<noteq> []" and "can_write (plan_path dir key)"
  shows "fst (cache_get dir key (cache_put can_write dir key p c)) = Some p \<and>
    cache_get dir key (cache_clear (cache_put can_write dir key p c)) =
      (Some p, (cache_clear (cache_put can_write dir key p c))\<lparr>pc_entries := [(key, p)]\<rparr>)"
proof -
  have "map_put key p [] = [(key, p)]" by (simp add: map_put_def)
  with assms show ?thesis
    by (simp add: cache_get_def cache_put_def cache_clear_def Let_def read_plan_write)
qed

definition demo_op :: planned_op where
  "demo_op = \<lparr>po_node_id = 3, po_node_name = ''relu'', po_op_name = ''Relu'', po_op_version = ''1.0'',
     po_dependencies = [], po_preferred_device = DevCpu, po_selected_kernel = [], po_inputs = [1],
     po_outputs = [2]\<rparr>"

definition demo_plan_file :: "string \<Rightarrow> execution_plan" where
  "demo_plan_file name = \<lparr>ep_ir_version = IrVersion 1 0, ep_graph_name = name, ep_ops = [demo_op],
     ep_memory_hints = [], ep_graph_inputs = [1], ep_graph_outputs = [2]\<rparr>"

theorem plan_cache_persists_witness:
  "fst (cache_get ''/tmp'' ''k'' (cache_clear (cache_put (\<lambda>_. True) ''/tmp'' ''k'' (demo_plan_file ''net'')
     \<lparr>pc_entries = [], pc_files = Map.empty\<rparr>))) = Some (demo_plan_file ''net'')"
proof -
  have "plan_ok (demo_plan_file ''net'')"
    by (simp add: plan_ok_def demo_plan_file_def demo_op_def op_ok_def no_newline_def device_ok_def)
  from plan_cache_persists [OF this, of "''/tmp''" "\<lambda>_. True" "''k''" "\<lparr>pc_entries = [], pc_files = Map.empty\<rparr>"]
  show ?thesis by simp
qed

definition forged_name :: string where
  "forged_name = line ''net'' @ line ''1 0'' @ line ''0'' @ line ''0'' @ line ''0'' @ ''0''"

text \<open>C37. The plan file does not escape names.  A plan with a graph name that contains line
  breaks and numbers is written without complaint, and the file is read back as another plan,
  whatever the rest of the plan is: here one without operations, inputs and outputs.\<close>

theorem plan_file_injected:
  "read_plan (write_plan (p\<lparr>ep_graph_name := forged_name\<rparr>)) =
     Some \<lparr>ep_ir_version = IrVersion 1 0, ep_graph_name = ''net'', ep_ops = [], ep_memory_hints = [],
       ep_graph_inputs = [], ep_graph_outputs = []\<rparr>"
proof -
  have num: "u64_dec (0 :: u64) = ''0''" "nat_dec 1 = ''1''" "u64_dec (0 :: 32 word) = ''0''" by code_simp+
  have zero: "read_word (CHR ''0'' # r) = Some (0 :: u64, r)" "read_word (CHR ''0'' # r) = Some (0 :: 32 word, r)"
    and one: "read_word (CHR ''1'' # r) = Some (1 :: 32 word, r)" if "ends_number r" for r
    using read_word_dec [OF that, of "0 :: u64"] read_word_dec [OF that, of "0 :: 32 word"]
      read_word_nat [OF that, of 1, where 'a = 32] num by simp_all
  have ids: "read_id_list (CHR ''0'' # CHR 0x0A # r) = Some ([], r)" for r
    using read_id_list_put [of "[]" r] by (simp add: write_id_list_def line_def num(1) [unfolded u64_dec_def, simplified])
  have "getline (''net'' @ CHR 0x0A # r) = Some (''net'', r)" for r
    by (rule getline_line) (simp add: no_newline_def)
  then show ?thesis
    by (simp add: read_plan_def write_plan_def forged_name_def line_append line_def zero one ids is_space_def)
qed

end
