(* ===== verification/Fusion.thy ===== *)
theory Fusion
  imports Exec_Plan
begin

text \<open>
  The graph rewrites of \<open>planner/fusion.cpp\<close>: pass 1 drops \<open>Identity\<close> nodes and rewires their
  consumers, pass 2 merges \<open>MatMul\<close> followed by its only consumer \<open>Relu\<close> into \<open>MatMulRelu\<close>.
  The counters of \<open>FusionStats\<close> are kept as \<open>nat\<close>.

  A graph means the valuations of its tensors that satisfy every node (\<open>sat\<close>), for any meaning
  \<open>sem\<close> of the operators; \<open>op_laws\<close> is what the two rewrites assume of it.  Tensors without a
  producer (graph inputs and weights) are free in a valuation, so that two graphs with the
  same valuations, up to removed intermediates, compute the same outputs.
\<close>

section \<open>Helpers of the source\<close>

record fusion_stats =
  fs_identity_removed :: nat
  fs_matmul_relu_fused :: nat
  fs_nodes_before :: nat
  fs_nodes_after :: nat

definition count_consumers :: "graph \<Rightarrow> u64 \<Rightarrow> nat" where
  "count_consumers g tid =
     sum_list (map (\<lambda>n. count_list (n_inputs n) tid) (g_nodes g)) + count_list (g_outputs g) tid"

definition is_graph_io :: "graph \<Rightarrow> u64 \<Rightarrow> bool" where
  "is_graph_io g tid \<longleftrightarrow> tid \<in> set (g_inputs g) \<or> tid \<in> set (g_outputs g)"

text \<open>Replace the nodes and drop the tensors that neither they nor the graph's interface name.\<close>

definition live_ids :: "graph \<Rightarrow> node list \<Rightarrow> u64 set" where
  "live_ids g kept = set (g_inputs g) \<union> set (g_outputs g) \<union>
     (\<Union>n \<in> set kept. set (n_inputs n) \<union> set (n_outputs n))"

definition with_nodes :: "node list \<Rightarrow> graph \<Rightarrow> graph" where
  "with_nodes kept g = g\<lparr>g_tensors := filter (\<lambda>t. t_id t \<in> live_ids g kept) (g_tensors g),
     g_nodes := kept\<rparr>"

section \<open>Pass 1: Identity\<close>

definition removable :: "graph \<Rightarrow> node \<Rightarrow> bool" where
  "removable g n \<longleftrightarrow> n_op_name n = ''Identity'' \<and> length (n_inputs n) = 1 \<and>
     length (n_outputs n) = 1 \<and> \<not> is_graph_io g (hd (n_outputs n))"

definition replacement :: "graph \<Rightarrow> u64 \<rightharpoonup> u64" where
  "replacement g = fold (\<lambda>n m. if removable g n then m(hd (n_outputs n) \<mapsto> hd (n_inputs n)) else m)
     (g_nodes g) Map.empty"

definition redirect :: "(u64 \<rightharpoonup> u64) \<Rightarrow> u64 \<Rightarrow> u64" where
  "redirect r t = (case r t of None \<Rightarrow> t | Some t' \<Rightarrow> t')"

definition remove_identities :: "graph \<Rightarrow> graph \<times> nat" where
  "remove_identities g =
     (let removed = filter (removable g) (g_nodes g);
          kept = filter (\<lambda>n. \<not> removable g n) (g_nodes g); r = replacement g
      in (if removed = [] then g
          else with_nodes (map (\<lambda>n. n\<lparr>n_inputs := map (redirect r) (n_inputs n)\<rparr>) kept)
                 (g\<lparr>g_outputs := map (redirect r) (g_outputs g)\<rparr>),
          length removed))"

section \<open>Pass 2: MatMul and Relu\<close>

definition producer_node :: "node list \<Rightarrow> u64 \<rightharpoonup> node" where
  "producer_node ns = fold (\<lambda>n m. fold (\<lambda>tid m. m(tid \<mapsto> n)) (n_outputs n) m) ns Map.empty"

definition fusible :: "graph \<Rightarrow> node \<Rightarrow> node option" where
  "fusible g relu =
     (if n_op_name relu \<noteq> ''Relu'' \<or> length (n_inputs relu) \<noteq> 1 \<or> length (n_outputs relu) \<noteq> 1
      then None
      else case producer_node (g_nodes g) (hd (n_inputs relu)) of
        None \<Rightarrow> None
      | Some mm \<Rightarrow>
          if n_op_name mm \<noteq> ''MatMul'' \<or> length (n_outputs mm) \<noteq> 1 then None
          else if count_consumers g (hd (n_outputs mm)) \<noteq> 1 then None
          else if is_graph_io g (hd (n_outputs mm)) then None
          else Some mm)"

definition fusions :: "graph \<Rightarrow> (node \<times> node) list" where
  "fusions g = concat (map (\<lambda>relu. case fusible g relu of None \<Rightarrow> [] | Some mm \<Rightarrow> [(mm, relu)])
     (g_nodes g))"

definition fused_node :: "node \<times> node \<Rightarrow> node" where
  "fused_node = (\<lambda>(mm, relu). mm\<lparr>n_name := n_name mm @ ''_relu'', n_op_name := ''MatMulRelu'',
     n_outputs := n_outputs relu\<rparr>)"

definition fused_ids :: "graph \<Rightarrow> u64 set" where
  "fused_ids g = set (concat (map (\<lambda>(mm, relu). [n_id mm, n_id relu]) (fusions g)))"

definition fuse_matmul_relu :: "graph \<Rightarrow> graph \<times> nat" where
  "fuse_matmul_relu g =
     (let fs = fusions g
      in (if fs = [] then g
          else with_nodes (filter (\<lambda>n. n_id n \<notin> fused_ids g) (g_nodes g) @ map fused_node fs) g,
          length fs))"

definition apply_fusion_passes :: "graph \<Rightarrow> graph \<times> fusion_stats" where
  "apply_fusion_passes g =
     (let (g1, removed) = remove_identities g; (g2, fused) = fuse_matmul_relu g1
      in (g2, \<lparr>fs_identity_removed = removed, fs_matmul_relu_fused = fused,
               fs_nodes_before = length (g_nodes g), fs_nodes_after = length (g_nodes g2)\<rparr>))"

section \<open>Meaning of a graph\<close>

type_synonym 'v semantics = "string \<Rightarrow> string \<Rightarrow> attribute list \<Rightarrow> 'v list \<Rightarrow> 'v list"

definition node_sat :: "'v semantics \<Rightarrow> (u64 \<Rightarrow> 'v) \<Rightarrow> node \<Rightarrow> bool" where
  "node_sat sem env n \<longleftrightarrow> map env (n_outputs n) =
     sem (n_op_name n) (n_op_version n) (n_attributes n) (map env (n_inputs n))"

definition sat :: "'v semantics \<Rightarrow> (u64 \<Rightarrow> 'v) \<Rightarrow> graph \<Rightarrow> bool" where
  "sat sem env g \<longleftrightarrow> (\<forall>n \<in> set (g_nodes g). node_sat sem env n)"

definition op_laws :: "'v semantics \<Rightarrow> bool" where
  "op_laws sem \<longleftrightarrow> (\<forall>ver as x. sem ''Identity'' ver as [x] = [x]) \<and>
     (\<forall>ver as ver' as' xs z. sem ''MatMulRelu'' ver as xs = [z] \<longleftrightarrow>
        (\<exists>y. sem ''MatMul'' ver as xs = [y] \<and> sem ''Relu'' ver' as' [y] = [z]))"

lemma with_nodes_fields [simp]:
  "g_nodes (with_nodes kept g) = kept" "g_inputs (with_nodes kept g) = g_inputs g"
  "g_outputs (with_nodes kept g) = g_outputs g"
  by (simp_all add: with_nodes_def)

lemma length_1_hd: "length xs = 1 \<Longrightarrow> xs = [hd xs]"
  by (cases xs) auto

lemma replacement_fold:
  "fold (\<lambda>n m. if removable g n then m(hd (n_outputs n) \<mapsto> hd (n_inputs n)) else m) ns m0 t = Some i \<Longrightarrow>
     m0 t = Some i \<or> (\<exists>n \<in> set ns. removable g n \<and> hd (n_outputs n) = t \<and> hd (n_inputs n) = i)"
proof (induction ns arbitrary: m0)
  case (Cons n ns)
  then have "(if removable g n then m0(hd (n_outputs n) \<mapsto> hd (n_inputs n)) else m0) t = Some i \<or>
      (\<exists>n \<in> set ns. removable g n \<and> hd (n_outputs n) = t \<and> hd (n_inputs n) = i)"
    by simp
  then show ?case by (auto split: if_splits)
qed simp

lemma replacement_SomeD:
  "replacement g t = Some i \<Longrightarrow>
     \<exists>n \<in> set (g_nodes g). removable g n \<and> n_outputs n = [t] \<and> n_inputs n = [i]"
proof -
  assume "replacement g t = Some i"
  then obtain n where n: "n \<in> set (g_nodes g)" "removable g n" "hd (n_outputs n) = t" "hd (n_inputs n) = i"
    using replacement_fold [of g "g_nodes g" Map.empty t i] by (auto simp: replacement_def)
  then have "n_outputs n = [t]" "n_inputs n = [i]"
    using length_1_hd [of "n_outputs n"] length_1_hd [of "n_inputs n"] by (simp_all add: removable_def)
  with n show ?thesis by blast
qed

lemma replacement_dom_fold:
  "n \<in> set ns \<Longrightarrow> removable g n \<Longrightarrow>
     fold (\<lambda>n m. if removable g n then m(hd (n_outputs n) \<mapsto> hd (n_inputs n)) else m) ns m0
       (hd (n_outputs n)) \<noteq> None"
proof -
  have keep: "m0 t \<noteq> None \<Longrightarrow>
      fold (\<lambda>n m. if removable g n then m(hd (n_outputs n) \<mapsto> hd (n_inputs n)) else m) ns m0 t \<noteq> None"
    for ns m0 t
  proof (induction ns arbitrary: m0)
    case (Cons n ns)
    then have "(if removable g n then m0(hd (n_outputs n) \<mapsto> hd (n_inputs n)) else m0) t \<noteq> None"
      by auto
    then show ?case using Cons.IH by simp
  qed simp
  show "n \<in> set ns \<Longrightarrow> removable g n \<Longrightarrow>
     fold (\<lambda>n m. if removable g n then m(hd (n_outputs n) \<mapsto> hd (n_inputs n)) else m) ns m0
       (hd (n_outputs n)) \<noteq> None"
  proof (induction ns arbitrary: m0)
    case (Cons k ns)
    show ?case
    proof (cases "n = k")
      case True
      with Cons.prems(2) show ?thesis using keep by simp
    next
      case False
      with Cons show ?thesis by simp
    qed
  qed simp
qed

lemma replacement_dom:
  "n \<in> set (g_nodes g) \<Longrightarrow> removable g n \<Longrightarrow> replacement g (hd (n_outputs n)) \<noteq> None"
  unfolding replacement_def by (rule replacement_dom_fold)

lemma replacement_not_io: "is_graph_io g t \<Longrightarrow> replacement g t = None"
  using replacement_SomeD [of g t] by (cases "replacement g t") (auto simp: removable_def)

text \<open>The outputs of a graph never change: no removed tensor is one.\<close>

lemma redirect_outputs: "map (redirect (replacement g)) (g_outputs g) = g_outputs g"
  by (auto simp: redirect_def replacement_not_io is_graph_io_def intro: map_idI)

lemma remove_identities_io [simp]:
  "g_inputs (fst (remove_identities g)) = g_inputs g"
  "g_outputs (fst (remove_identities g)) = g_outputs g"
  by (simp_all add: remove_identities_def Let_def redirect_outputs)

lemma replacement_none: "filter (removable g) (g_nodes g) = [] \<Longrightarrow> replacement g = Map.empty"
proof (rule ext)
  fix t assume "filter (removable g) (g_nodes g) = []"
  then show "replacement g t = None"
    using replacement_SomeD [of g t] by (cases "replacement g t") (auto simp: filter_empty_conv)
qed

lemma remove_identities_nodes:
  "g_nodes (fst (remove_identities g)) =
     map (\<lambda>n. n\<lparr>n_inputs := map (redirect (replacement g)) (n_inputs n)\<rparr>)
       (filter (\<lambda>n. \<not> removable g n) (g_nodes g))"
proof (cases "filter (removable g) (g_nodes g) = []")
  case True
  then have "redirect (replacement g) = (\<lambda>t. t)" "filter (\<lambda>n. \<not> removable g n) (g_nodes g) = g_nodes g"
    by (auto simp: replacement_none redirect_def filter_empty_conv)
  with True show ?thesis by (simp add: remove_identities_def)
next
  case False
  then show ?thesis by (simp add: remove_identities_def Let_def)
qed

lemma fuse_matmul_relu_io [simp]:
  "g_inputs (fst (fuse_matmul_relu g)) = g_inputs g"
  "g_outputs (fst (fuse_matmul_relu g)) = g_outputs g"
  by (simp_all add: fuse_matmul_relu_def Let_def)

lemma fuse_matmul_relu_nodes:
  "g_nodes (fst (fuse_matmul_relu g)) =
     filter (\<lambda>n. n_id n \<notin> fused_ids g) (g_nodes g) @ map fused_node (fusions g)"
  by (simp add: fuse_matmul_relu_def Let_def fused_ids_def)

lemma producer_node_SomeD:
  "producer_node ns t = Some n \<Longrightarrow> n \<in> set ns \<and> t \<in> set (n_outputs n)"
proof (induction ns rule: rev_induct)
  case (snoc m ns)
  have "fold (\<lambda>tid mp. mp(tid \<mapsto> m)) ts mp t = (if t \<in> set ts then Some m else mp t)" for ts mp
    by (induction ts arbitrary: mp) auto
  with snoc show ?case by (auto simp: producer_node_def split: if_splits)
qed (simp add: producer_node_def)

lemma fusions_mem:
  assumes "(mm, relu) \<in> set (fusions g)"
  obtains u z where "mm \<in> set (g_nodes g)" "relu \<in> set (g_nodes g)" "n_op_name mm = ''MatMul''"
    "n_op_name relu = ''Relu''" "n_outputs mm = [u]" "n_inputs relu = [u]" "n_outputs relu = [z]"
    "count_consumers g u = 1" "\<not> is_graph_io g u"
proof -
  from assms have r: "relu \<in> set (g_nodes g)" and f: "fusible g relu = Some mm"
    by (auto simp: fusions_def split: option.splits)
  then have len: "n_op_name relu = ''Relu''" "length (n_inputs relu) = 1" "length (n_outputs relu) = 1"
    "producer_node (g_nodes g) (hd (n_inputs relu)) = Some mm" "n_op_name mm = ''MatMul''"
    "length (n_outputs mm) = 1" "count_consumers g (hd (n_outputs mm)) = 1"
    "\<not> is_graph_io g (hd (n_outputs mm))"
    by (auto simp: fusible_def split: if_splits option.splits)
  note eq = length_1_hd [OF len(2)] length_1_hd [OF len(3)] length_1_hd [OF len(6)]
  have "mm \<in> set (g_nodes g)" "hd (n_inputs relu) \<in> set (n_outputs mm)"
    using producer_node_SomeD [OF len(4)] by auto
  moreover from this eq(3) have "hd (n_inputs relu) = hd (n_outputs mm)" by (metis empty_iff set_ConsD list.set(1))
  ultimately show thesis
    using that [of "hd (n_outputs mm)" "hd (n_outputs relu)"] eq len r by metis
qed

section \<open>Every run of the graph is a run of the fused graph\<close>

lemma remove_identities_sound:
  assumes "op_laws sem" and "sat sem env g"
  shows "sat sem env (fst (remove_identities g))"
proof -
  have same: "env (redirect (replacement g) t) = env t" for t
  proof (cases "replacement g t")
    case (Some i)
    then obtain n where n: "n \<in> set (g_nodes g)" "removable g n" "n_outputs n = [t]" "n_inputs n = [i]"
      using replacement_SomeD by blast
    then have "node_sat sem env n" using assms(2) by (simp add: sat_def)
    with n assms(1) show ?thesis
      by (simp add: node_sat_def removable_def op_laws_def redirect_def Some)
  qed (simp add: redirect_def)
  have "map env (map (redirect (replacement g)) ts) = map env ts" for ts
    by (simp add: same)
  then show ?thesis
    using assms(2) by (auto simp: sat_def remove_identities_nodes node_sat_def simp del: map_map)
qed

lemma fuse_matmul_relu_sound:
  assumes "op_laws sem" and "sat sem env g"
  shows "sat sem env (fst (fuse_matmul_relu g))"
proof -
  have "node_sat sem env (fused_node p)" if mem: "p \<in> set (fusions g)" for p
  proof -
    obtain mm relu where p: "p = (mm, relu)" by (cases p)
    obtain u z where f: "mm \<in> set (g_nodes g)" "relu \<in> set (g_nodes g)" "n_op_name mm = ''MatMul''"
      "n_op_name relu = ''Relu''" "n_outputs mm = [u]" "n_inputs relu = [u]" "n_outputs relu = [z]"
      "count_consumers g u = 1" "\<not> is_graph_io g u"
      using mem unfolding p by (rule fusions_mem)
    have "node_sat sem env mm" "node_sat sem env relu"
      using assms(2) f(1,2) by (simp_all add: sat_def)
    then show ?thesis
      using f assms(1) unfolding op_laws_def by (simp add: p fused_node_def node_sat_def) metis
  qed
  then show ?thesis using assms(2) by (auto simp: sat_def fuse_matmul_relu_nodes)
qed


section \<open>Every run of the fused graph comes from a run of the graph\<close>

definition well_formed :: "graph \<Rightarrow> bool" where
  "well_formed g \<longleftrightarrow> distinct (map n_id (g_nodes g)) \<and> distinct (concat (map n_outputs (g_nodes g)))"

text \<open>The input of a removed Identity is not the output of another removed Identity.\<close>

definition no_identity_chain :: "graph \<Rightarrow> bool" where
  "no_identity_chain g \<longleftrightarrow> (\<forall>n \<in> set (g_nodes g). \<forall>m \<in> set (g_nodes g).
     removable g n \<longrightarrow> removable g m \<longrightarrow> hd (n_inputs n) \<noteq> hd (n_outputs m))"

lemma unique_producer:
  assumes "distinct (concat (map n_outputs ns))" and "n \<in> set ns" and "m \<in> set ns"
    and "t \<in> set (n_outputs n)" and "t \<in> set (n_outputs m)"
  shows "n = m"
  using assms
proof (induction ns)
  case (Cons k ns)
  then show ?case by (cases "n = k"; cases "m = k") auto
qed simp

lemma remove_identities_well_formed:
  assumes "well_formed g"
  shows "well_formed (fst (remove_identities g))"
proof -
  have ids: "map n_id (map (\<lambda>n. n\<lparr>n_inputs := f n\<rparr>) ns) = map n_id ns"
    and outs: "map n_outputs (map (\<lambda>n. n\<lparr>n_inputs := f n\<rparr>) ns) = map n_outputs ns"
    for f and ns :: "node list"
    by simp_all
  have sub: "distinct (concat (map n_outputs ns)) \<Longrightarrow> distinct (concat (map n_outputs (filter P ns)))"
    for P and ns :: "node list"
    by (induction ns) auto
  show ?thesis
    using assms unfolding well_formed_def remove_identities_nodes ids outs
    by (simp add: distinct_map_filter sub)
qed

lemma remove_identities_complete:
  assumes "op_laws sem" and "well_formed g" and "no_identity_chain g"
    and "sat sem env' (fst (remove_identities g))"
  shows "\<exists>env. sat sem env g \<and> (\<forall>t. replacement g t = None \<longrightarrow> env t = env' t)"
proof -
  define env where "env t = env' (redirect (replacement g) t)" for t
  have un: "\<And>n m t. n \<in> set (g_nodes g) \<Longrightarrow> m \<in> set (g_nodes g) \<Longrightarrow> t \<in> set (n_outputs n) \<Longrightarrow>
      t \<in> set (n_outputs m) \<Longrightarrow> n = m"
    using assms(2) unique_producer by (auto simp: well_formed_def)
  have "node_sat sem env n" if n: "n \<in> set (g_nodes g)" for n
  proof (cases "removable g n")
    case True
    then obtain i u where iu: "n_inputs n = [i]" "n_outputs n = [u]"
      by (metis length_1_hd removable_def)
    have "replacement g u \<noteq> None" using replacement_dom [OF n True] iu by simp
    then obtain j where j: "replacement g u = Some j" by auto
    from replacement_SomeD [OF j] obtain m where m: "m \<in> set (g_nodes g)" "n_outputs m = [u]"
      "n_inputs m = [j]" by blast
    then have "m = n" using un [OF m(1) n] iu by simp
    then have "j = i" using m iu by simp
    have "replacement g i = None"
    proof (rule ccontr)
      assume "replacement g i \<noteq> None"
      then obtain k where "replacement g i = Some k" by auto
      from replacement_SomeD [OF this] obtain q where "q \<in> set (g_nodes g)" "removable g q"
        "n_outputs q = [i]" by blast
      with n True iu assms(3) show False by (force simp: no_identity_chain_def)
    qed
    then have "env i = env' i" "env u = env' i"
      using j \<open>j = i\<close> by (simp_all add: env_def redirect_def)
    then show ?thesis
      using iu True assms(1) by (simp add: node_sat_def removable_def op_laws_def)
  next
    case False
    have "env t = env' t" if t: "t \<in> set (n_outputs n)" for t
    proof -
      have "replacement g t = None"
      proof (rule ccontr)
        assume "replacement g t \<noteq> None"
        then obtain k where "replacement g t = Some k" by auto
        from replacement_SomeD [OF this] obtain q where "q \<in> set (g_nodes g)" "removable g q"
          "n_outputs q = [t]" by blast
        with un [OF n this(1) t] False show False by auto
      qed
      then show ?thesis by (simp add: env_def redirect_def)
    qed
    then have outs: "map env (n_outputs n) = map env' (n_outputs n)" by simp
    have "node_sat sem env' (n\<lparr>n_inputs := map (redirect (replacement g)) (n_inputs n)\<rparr>)"
      using assms(4) n False by (auto simp: sat_def remove_identities_nodes)
    moreover have "map env' (map (redirect (replacement g)) (n_inputs n)) = map env (n_inputs n)"
      by (simp add: env_def)
    ultimately show ?thesis unfolding node_sat_def outs by (simp del: map_map)
  qed
  then have "sat sem env g" by (simp add: sat_def)
  moreover have "env t = env' t" if "replacement g t = None" for t
    using that by (simp add: env_def redirect_def)
  ultimately show ?thesis by blast
qed

text \<open>Only the Relu consumes a fused MatMul's output.\<close>

lemma sum_two_le:
  "n \<in> set ns \<Longrightarrow> m \<in> set ns \<Longrightarrow> n \<noteq> m \<Longrightarrow> (f n :: nat) + f m \<le> sum_list (map f ns)"
proof (induction ns)
  case (Cons k ns)
  have one: "x \<in> set ns \<Longrightarrow> f x \<le> sum_list (map f ns)" for x
    by (induction ns) auto
  show ?case
  proof (cases "n = k \<or> m = k")
    case True
    then show ?thesis using Cons.prems one [of n] one [of m] by auto
  next
    case False
    then show ?thesis using Cons by auto
  qed
qed simp

lemma count_pos: "t \<in> set ts \<Longrightarrow> 0 < count_list ts t"
  using count_list_0_iff [of ts t] by auto

lemma sole_consumer:
  assumes "count_consumers g u = 1" and "relu \<in> set (g_nodes g)" and "u \<in> set (n_inputs relu)"
    and "n \<in> set (g_nodes g)" and "u \<in> set (n_inputs n)"
  shows "n = relu"
proof (rule ccontr)
  assume "n \<noteq> relu"
  with sum_two_le [OF assms(4,2), of "\<lambda>n. count_list (n_inputs n) u"] count_pos [OF assms(3)]
    count_pos [OF assms(5)] assms(1)
  show False by (simp add: count_consumers_def)
qed

lemma fuse_matmul_relu_complete:
  assumes "op_laws sem" and "well_formed g" and "sat sem env' (fst (fuse_matmul_relu g))"
  shows "\<exists>env. sat sem env g \<and> (\<forall>t. (\<forall>(mm, relu) \<in> set (fusions g). t \<notin> set (n_outputs mm)) \<longrightarrow> env t = env' t)"
proof -
  let ?F = "set (fusions g)"
  have un: "\<And>n m t. n \<in> set (g_nodes g) \<Longrightarrow> m \<in> set (g_nodes g) \<Longrightarrow> t \<in> set (n_outputs n) \<Longrightarrow>
      t \<in> set (n_outputs m) \<Longrightarrow> n = m"
    using assms(2) unique_producer by (auto simp: well_formed_def)
  have ids: "n \<in> set (g_nodes g) \<Longrightarrow> m \<in> set (g_nodes g) \<Longrightarrow> n_id n = n_id m \<Longrightarrow> n = m" for n m
    using assms(2) by (auto simp: well_formed_def distinct_map dest: inj_onD)
  define mm_of where "mm_of t = find (\<lambda>p. t \<in> set (n_outputs (fst p))) (fusions g)" for t
  define val_of where "val_of n = hd (sem (n_op_name n) (n_op_version n) (n_attributes n)
      (map env' (n_inputs n)))" for n :: node
  define env where "env t = (case mm_of t of None \<Rightarrow> env' t | Some p \<Rightarrow> val_of (fst p))" for t
  have other: "env t = env' t" if "\<forall>(mm, relu) \<in> ?F. t \<notin> set (n_outputs mm)" for t
  proof -
    have "mm_of t = None" using that by (auto simp: mm_of_def find_None_iff)
    then show ?thesis by (simp add: env_def)
  qed
  have at: "env t = val_of mm" if f: "(mm, relu) \<in> ?F" and t: "t \<in> set (n_outputs mm)" for mm relu t
  proof -
    obtain p where p: "mm_of t = Some p"
      using f t by (cases "mm_of t") (auto simp: mm_of_def find_None_iff)
    then have "p \<in> ?F" "t \<in> set (n_outputs (fst p))"
      using find_Some_mem [of _ "fusions g" p] by (auto simp: mm_of_def)
    then have "fst p = mm" using f t un by (metis fusions_mem prod.collapse)
    with p show ?thesis by (simp add: env_def)
  qed
  have inputs: "map env (n_inputs n) = map env' (n_inputs n)"
    if n: "n \<in> set (g_nodes g)" and nr: "\<forall>(mm, relu) \<in> ?F. n \<noteq> relu" for n
  proof -
    have "env t = env' t" if t: "t \<in> set (n_inputs n)" for t
    proof (rule other, clarify)
      fix mm relu assume f: "(mm, relu) \<in> ?F" and tm: "t \<in> set (n_outputs mm)"
      obtain u z where u: "relu \<in> set (g_nodes g)" "n_outputs mm = [u]" "n_inputs relu = [u]"
        "count_consumers g u = 1"
        using f by (rule fusions_mem)
      have "n = relu" using sole_consumer [OF u(4,1) _ n] u(2,3) t tm by simp
      then show False using nr f by blast
    qed
    then show ?thesis by simp
  qed
  have "node_sat sem env n" if n: "n \<in> set (g_nodes g)" for n
  proof (cases "n_id n \<in> fused_ids g")
    case False
    then have nf: "n \<noteq> mm" "n \<noteq> relu" if "(mm, relu) \<in> ?F" for mm relu
      using that by (auto simp: fused_ids_def)
    have "env t = env' t" if t: "t \<in> set (n_outputs n)" for t
    proof (rule other, clarify)
      fix mm relu assume f: "(mm, relu) \<in> ?F" and tm: "t \<in> set (n_outputs mm)"
      have "mm \<in> set (g_nodes g)" using f by (rule fusions_mem)
      then have "n = mm" using un [OF n _ t tm] by blast
      then show False using nf(1) f by blast
    qed
    then have outs: "map env (n_outputs n) = map env' (n_outputs n)" by simp
    have "node_sat sem env' n"
      using assms(3) n False by (auto simp: sat_def fuse_matmul_relu_nodes)
    moreover have ins: "map env (n_inputs n) = map env' (n_inputs n)"
      using inputs [OF n] nf(2) by blast
    ultimately show ?thesis unfolding node_sat_def outs ins by blast
  next
    case True
    then obtain mm relu where f: "(mm, relu) \<in> ?F" and idn: "n_id n = n_id mm \<or> n_id n = n_id relu"
      by (auto simp: fused_ids_def)
    obtain u z where m: "mm \<in> set (g_nodes g)" "relu \<in> set (g_nodes g)" "n_op_name mm = ''MatMul''"
      "n_op_name relu = ''Relu''" "n_outputs mm = [u]" "n_inputs relu = [u]" "n_outputs relu = [z]"
      using f by (rule fusions_mem)
    have "node_sat sem env' (fused_node (mm, relu))"
      using assms(3) f by (auto simp: sat_def fuse_matmul_relu_nodes)
    then have "sem ''MatMulRelu'' (n_op_version mm) (n_attributes mm) (map env' (n_inputs mm)) = [env' z]"
      using m by (simp add: node_sat_def fused_node_def)
    then obtain y where y: "sem ''MatMul'' (n_op_version mm) (n_attributes mm) (map env' (n_inputs mm)) = [y]"
      "sem ''Relu'' (n_op_version relu) (n_attributes relu) [y] = [env' z]"
      using assms(1) unfolding op_laws_def by blast
    have eu: "env u = y" using at [OF f, of u] m y by (simp add: val_of_def)
    have "env z = env' z"
    proof (rule other, clarify)
      fix mm' relu' assume f': "(mm', relu') \<in> ?F" and zm: "z \<in> set (n_outputs mm')"
      have "mm' \<in> set (g_nodes g)" "n_op_name mm' = ''MatMul''" using f' by (rule fusions_mem, simp)+
      then have "relu = mm'" using un [OF m(2) _ _ zm] m(7) by simp
      then show False using m(4) \<open>n_op_name mm' = ''MatMul''\<close> by simp
    qed
    have ins: "map env (n_inputs mm) = map env' (n_inputs mm)"
    proof (rule inputs [OF m(1)], clarify)
      fix mm' assume "(mm', mm) \<in> ?F"
      then have "n_op_name mm = ''Relu''" by (rule fusions_mem)
      with m(3) show False by simp
    qed
    have "node_sat sem env mm" "node_sat sem env relu"
      unfolding node_sat_def m(3-7) ins using y eu \<open>env z = env' z\<close> by simp_all
    moreover have "n = mm \<or> n = relu" using idn ids n m(1,2) by blast
    ultimately show ?thesis by blast
  qed
  then show ?thesis using other by (auto simp: sat_def)
qed

text \<open>C5. For a graph with unique node ids, one producer per tensor and no chain of removable
  Identity nodes, every valuation of the fused graph comes from a valuation of the original
  graph that agrees with it on the graph's inputs and outputs and on every tensor without a
  producer: fusion introduces no result the original graph could not compute.\<close>

theorem fusion_complete:
  assumes "op_laws sem" and "well_formed g" and "no_identity_chain g"
    and "apply_fusion_passes g = (g', st)" and "sat sem env' g'"
  shows "\<exists>env. sat sem env g \<and> (\<forall>t \<in> set (g_inputs g) \<union> set (g_outputs g). env t = env' t) \<and>
    (\<forall>t. (\<forall>n \<in> set (g_nodes g). t \<notin> set (n_outputs n)) \<longrightarrow> env t = env' t)"
proof -
  define g1 where "g1 = fst (remove_identities g)"
  have g': "g' = fst (fuse_matmul_relu g1)"
    using assms(4) by (auto simp: apply_fusion_passes_def Let_def case_prod_beta g1_def)
  obtain env1 where e1: "sat sem env1 g1"
    and a1: "\<And>t. (\<forall>(mm, relu) \<in> set (fusions g1). t \<notin> set (n_outputs mm)) \<Longrightarrow> env1 t = env' t"
    using fuse_matmul_relu_complete [OF assms(1) remove_identities_well_formed [OF assms(2)]]
      assms(5) unfolding g' g1_def by blast
  obtain env where e: "sat sem env g" and a: "\<And>t. replacement g t = None \<Longrightarrow> env t = env1 t"
    using remove_identities_complete [OF assms(1-3)] e1 unfolding g1_def by blast
  have mm_out: "\<exists>n \<in> set (g_nodes g). t \<in> set (n_outputs n)" "\<not> is_graph_io g t"
    if f: "(mm, relu) \<in> set (fusions g1)" and tm: "t \<in> set (n_outputs mm)" for mm relu t
  proof -
    obtain u where u: "mm \<in> set (g_nodes g1)" "n_outputs mm = [u]" "\<not> is_graph_io g1 u"
      using f by (rule fusions_mem)
    then show "\<exists>n \<in> set (g_nodes g). t \<in> set (n_outputs n)"
      using tm by (auto simp: g1_def remove_identities_nodes intro: bexI [rotated])
    show "\<not> is_graph_io g t" using u tm by (simp add: is_graph_io_def g1_def)
  qed
  have "env t = env' t" if "is_graph_io g t \<or> (\<forall>n \<in> set (g_nodes g). t \<notin> set (n_outputs n))" for t
  proof -
    have "replacement g t = None"
    proof (rule ccontr)
      assume "replacement g t \<noteq> None"
      then obtain i where i: "replacement g t = Some i" by auto
      then have "\<not> is_graph_io g t" using replacement_not_io by fastforce
      moreover from replacement_SomeD [OF i] have "\<exists>n \<in> set (g_nodes g). t \<in> set (n_outputs n)" by force
      ultimately show False using that by blast
    qed
    moreover have "env1 t = env' t"
      by (rule a1) (use that mm_out in blast)
    ultimately show ?thesis using a by simp
  qed
  then have "\<forall>t \<in> set (g_inputs g) \<union> set (g_outputs g). env t = env' t"
    "\<forall>t. (\<forall>n \<in> set (g_nodes g). t \<notin> set (n_outputs n)) \<longrightarrow> env t = env' t"
    by (auto simp: is_graph_io_def)
  with e show ?thesis by blast
qed

text \<open>C34. The hypothesis on chains is needed: when a removed Identity reads the output of
  another removed Identity, a surviving consumer of the second is rewired to the first one's
  output, which no node of the rewritten graph produces and which is no graph input.\<close>

theorem identity_chain_dangles:
  assumes "well_formed g" and "i1 \<in> set (g_nodes g)" "removable g i1" "n_outputs i1 = [b]"
    and "i2 \<in> set (g_nodes g)" "removable g i2" "n_inputs i2 = [b]" "n_outputs i2 = [c]"
    and "n \<in> set (g_nodes g)" "\<not> removable g n" "c \<in> set (n_inputs n)"
  shows "(\<exists>n' \<in> set (g_nodes (fst (remove_identities g))). n_id n' = n_id n \<and> b \<in> set (n_inputs n')) \<and>
    (\<forall>m \<in> set (g_nodes (fst (remove_identities g))). b \<notin> set (n_outputs m)) \<and>
    b \<notin> set (g_inputs (fst (remove_identities g)))"
proof -
  have un: "\<And>n m t. n \<in> set (g_nodes g) \<Longrightarrow> m \<in> set (g_nodes g) \<Longrightarrow> t \<in> set (n_outputs n) \<Longrightarrow>
      t \<in> set (n_outputs m) \<Longrightarrow> n = m"
    using assms(1) unique_producer by (auto simp: well_formed_def)
  obtain j where j: "replacement g c = Some j"
    using replacement_dom [OF assms(5,6)] assms(8) by auto
  from replacement_SomeD [OF j] obtain m where m: "m \<in> set (g_nodes g)" "n_outputs m = [c]" "n_inputs m = [j]"
    by blast
  have "m = i2" using un [OF m(1) assms(5)] m(2) assms(8) by simp
  then have jb: "replacement g c = Some b" using j m(3) assms(7) by simp
  let ?n = "n\<lparr>n_inputs := map (redirect (replacement g)) (n_inputs n)\<rparr>"
  have "?n \<in> set (g_nodes (fst (remove_identities g)))"
    using assms(9,10) by (auto simp: remove_identities_nodes)
  moreover have "b \<in> set (n_inputs ?n)"
    using jb assms(11) by (auto simp: redirect_def intro!: image_eqI [of _ _ c])
  moreover have "b \<notin> set (n_outputs m)" if "m \<in> set (g_nodes (fst (remove_identities g)))" for m
  proof
    assume b: "b \<in> set (n_outputs m)"
    from that obtain k where "k \<in> set (g_nodes g)" "\<not> removable g k" "n_outputs m = n_outputs k"
      by (auto simp: remove_identities_nodes)
    with un [OF this(1) assms(2), of b] b assms(3,4) show False by simp
  qed
  moreover have "b \<notin> set (g_inputs (fst (remove_identities g)))"
    using assms(3,4) by (simp add: removable_def is_graph_io_def)
  ultimately show ?thesis by (metis node.select_convs(1) node.surjective node.update_convs(5))
qed

section \<open>Witnesses\<close>

definition int_sem :: "int semantics" where
  "int_sem op ver as xs =
     (if op = ''Identity'' then xs
      else if op = ''MatMul'' \<and> length xs = 2 then [xs ! 0 * xs ! 1]
      else if op = ''Relu'' \<and> length xs = 1 then [max 0 (xs ! 0)]
      else if op = ''MatMulRelu'' \<and> length xs = 2 then [max 0 (xs ! 0 * xs ! 1)]
      else [])"

lemma int_sem_laws: "op_laws int_sem"
  by (auto simp: op_laws_def int_sem_def)

text \<open>x, w -> MatMul -> Identity -> Relu -> y, and the same with two Identity nodes in a row.\<close>

definition simple_node :: "u64 \<Rightarrow> string \<Rightarrow> u64 list \<Rightarrow> u64 list \<Rightarrow> node" where
  "simple_node i op ins outs = \<lparr>n_id = i, n_name = [], n_op_name = op, n_op_version = ''1'',
     n_inputs = ins, n_outputs = outs, n_attributes = []\<rparr>"

definition mm_graph :: graph where
  "mm_graph = graph_default\<lparr>g_nodes := [simple_node 1 ''MatMul'' [1, 2] [3],
     simple_node 2 ''Identity'' [3] [4], simple_node 3 ''Relu'' [4] [5]],
     g_inputs := [1], g_outputs := [5]\<rparr>"

definition chain2_graph :: graph where
  "chain2_graph = graph_default\<lparr>g_nodes := [simple_node 1 ''Identity'' [1] [2],
     simple_node 2 ''Identity'' [2] [3], simple_node 3 ''Relu'' [3] [4]],
     g_inputs := [1], g_outputs := [4]\<rparr>"

lemma mm_graph_fields: "g_nodes mm_graph = [simple_node 1 ''MatMul'' [1, 2] [3],
     simple_node 2 ''Identity'' [3] [4], simple_node 3 ''Relu'' [4] [5]]"
  "g_inputs mm_graph = [1]" "g_outputs mm_graph = [5]"
  by (simp_all add: mm_graph_def)

lemma mm_graph_fused:
  "map n_op_name (g_nodes (fst (apply_fusion_passes mm_graph))) = [''MatMulRelu'']"
proof -
  have r: "filter (removable mm_graph) (g_nodes mm_graph) = [simple_node 2 ''Identity'' [3] [4]]"
    "filter (\<lambda>n. \<not> removable mm_graph n) (g_nodes mm_graph) =
       [simple_node 1 ''MatMul'' [1, 2] [3], simple_node 3 ''Relu'' [4] [5]]"
    by (simp_all add: mm_graph_fields removable_def simple_node_def is_graph_io_def)
  have rep: "replacement mm_graph = [4 \<mapsto> 3]"
    by (rule ext) (simp add: replacement_def mm_graph_fields removable_def simple_node_def is_graph_io_def)
  have n1: "g_nodes (fst (remove_identities mm_graph)) =
      [simple_node 1 ''MatMul'' [1, 2] [3], simple_node 3 ''Relu'' [3] [5]]"
    by (simp add: remove_identities_nodes r rep) (simp add: simple_node_def redirect_def)
  have f: "fusions (fst (remove_identities mm_graph)) =
      [(simple_node 1 ''MatMul'' [1, 2] [3], simple_node 3 ''Relu'' [3] [5])]"
    by (simp add: fusions_def n1 fusible_def producer_node_def count_consumers_def is_graph_io_def
        mm_graph_fields simple_node_def)
  show ?thesis
    by (simp add: apply_fusion_passes_def Let_def case_prod_beta fuse_matmul_relu_nodes n1 f
        fused_ids_def fused_node_def simple_node_def)
qed

lemma mm_graph_ok: "well_formed mm_graph" "no_identity_chain mm_graph"
  by (simp_all add: well_formed_def no_identity_chain_def mm_graph_fields simple_node_def removable_def)

definition mm_env :: "u64 \<Rightarrow> int" where
  "mm_env t = (if t = 1 then 2 else if t = 2 then -3 else if t = 3 then -6 else if t = 4 then -6 else 0)"

lemma mm_env_sat: "sat int_sem mm_env mm_graph"
  by (simp add: sat_def mm_graph_fields simple_node_def node_sat_def int_sem_def mm_env_def)


theorem fusion_complete_witness:
  "\<exists>env. sat int_sem env mm_graph \<and> env 5 = mm_env 5"
proof -
  have "sat int_sem mm_env (fst (apply_fusion_passes mm_graph))"
    using fuse_matmul_relu_sound [OF int_sem_laws remove_identities_sound [OF int_sem_laws mm_env_sat]]
    by (simp add: apply_fusion_passes_def Let_def case_prod_beta)
  from fusion_complete [OF int_sem_laws mm_graph_ok surjective_pairing this]
  show ?thesis by (auto simp: mm_graph_fields)
qed

theorem identity_chain_dangles_witness:
  "(\<exists>n \<in> set (g_nodes (fst (remove_identities chain2_graph))). 2 \<in> set (n_inputs n)) \<and>
   2 \<notin> (\<Union>m \<in> set (g_nodes (fst (remove_identities chain2_graph))). set (n_outputs m))"
proof -
  have nodes: "g_nodes chain2_graph = [simple_node 1 ''Identity'' [1] [2],
     simple_node 2 ''Identity'' [2] [3], simple_node 3 ''Relu'' [3] [4]]"
    "g_inputs chain2_graph = [1]" "g_outputs chain2_graph = [4]"
    by (simp_all add: chain2_graph_def)
  have "well_formed chain2_graph" by (simp add: well_formed_def nodes simple_node_def)
  from identity_chain_dangles [OF this, of "simple_node 1 ''Identity'' [1] [2]" 2
      "simple_node 2 ''Identity'' [2] [3]" 3 "simple_node 3 ''Relu'' [3] [4]"]
  show ?thesis by (auto simp: nodes removable_def is_graph_io_def simple_node_def)
qed

end
