(* ===== verification/Memory_Plan.thy ===== *)
theory Memory_Plan
  imports Exec_Plan "HOL-Library.Product_Lexorder"
begin

text \<open>
  Lifetime analysis and greedy buffer reuse (\<open>planner/memory_plan.hpp\<close>, \<open>memory_plan.cpp\<close>).
  \<open>lives\<close> is an \<open>unordered_map\<close>: a partial function, iterated in the order \<open>h\<close> of its keys.  Slot
  ids are the positions in \<open>slots\<close> (\<open>next_slot\<close> is its length) and are kept as \<open>nat\<close>; op indices
  are \<open>int\<close>, -1 standing for "never used".
\<close>

section \<open>State\<close>

record lifetime =
  lt_tensor_id :: u64
  lt_first_use :: int
  lt_last_use :: int
  lt_bytes :: u64
  lt_is_weight :: bool
  lt_is_graph_io :: bool

record buffer_slot =
  bs_slot_id :: nat
  bs_bytes :: u64
  bs_tenants :: "u64 list"

record memory_reuse_plan =
  mr_lifetimes :: "lifetime list"
  mr_slots :: "buffer_slot list"
  mr_tensor_to_slot :: "u64 \<rightharpoonup> nat"
  mr_naive_bytes :: u64
  mr_peak_bytes :: u64
  mr_weight_bytes :: u64
  mr_summary :: string

record free_slot =
  fr_slot_id :: nat
  fr_bytes :: u64
  fr_free_after :: int

section \<open>Lifetimes\<close>

definition init_lifetime :: "graph \<Rightarrow> execution_plan \<Rightarrow> tensor \<Rightarrow> lifetime" where
  "init_lifetime g p t =
     (let io = (t_id t \<in> set (g_inputs g) \<or> t_id t \<in> set (g_outputs g));
          pinned = (io \<or> t_is_weight t)
      in \<lparr>lt_tensor_id = t_id t, lt_first_use = (if pinned then 0 else -1),
          lt_last_use = (if pinned then int (length (ep_ops p)) else -1),
          lt_bytes = estimate_tensor_bytes t, lt_is_weight = t_is_weight t, lt_is_graph_io = io\<rparr>)"

definition init_lives :: "graph \<Rightarrow> execution_plan \<Rightarrow> u64 \<rightharpoonup> lifetime" where
  "init_lives g p = fold (\<lambda>t m. m(t_id t \<mapsto> init_lifetime g p t)) (g_tensors g) Map.empty"

definition use_input :: "int \<Rightarrow> lifetime \<Rightarrow> lifetime" where
  "use_input oi l =
     l\<lparr>lt_first_use := (if lt_first_use l < 0 \<or> oi < lt_first_use l then oi else lt_first_use l),
       lt_last_use := (if oi > lt_last_use l then oi else lt_last_use l)\<rparr>"

definition use_output :: "int \<Rightarrow> lifetime \<Rightarrow> lifetime" where
  "use_output oi l =
     l\<lparr>lt_first_use := (if lt_first_use l < 0 then oi else lt_first_use l),
       lt_last_use := (if oi > lt_last_use l then oi else lt_last_use l)\<rparr>"

definition update_life :: "(lifetime \<Rightarrow> lifetime) \<Rightarrow> u64 \<Rightarrow> (u64 \<rightharpoonup> lifetime) \<Rightarrow> (u64 \<rightharpoonup> lifetime)" where
  "update_life f i m = (case m i of None \<Rightarrow> m | Some l \<Rightarrow> m(i \<mapsto> f l))"

definition scan_op :: "nat \<times> planned_op \<Rightarrow> (u64 \<rightharpoonup> lifetime) \<Rightarrow> (u64 \<rightharpoonup> lifetime)" where
  "scan_op = (\<lambda>(oi, op) m. fold (update_life (use_output (int oi))) (po_outputs op)
     (fold (update_life (use_input (int oi))) (po_inputs op) m))"

definition lives_of :: "graph \<Rightarrow> execution_plan \<Rightarrow> u64 \<rightharpoonup> lifetime" where
  "lives_of g p = fold scan_op (enumerate 0 (ep_ops p)) (init_lives g p)"

section \<open>Slots\<close>

record reuse_state =
  ru_free :: "free_slot list"
  ru_slots :: "buffer_slot list"
  ru_to_slot :: "u64 \<rightharpoonup> nat"

text \<open>A fresh slot at the end of \<open>slots\<close>.\<close>

definition new_slot :: "lifetime \<Rightarrow> reuse_state \<Rightarrow> reuse_state" where
  "new_slot l s = s\<lparr>ru_slots := ru_slots s @ [\<lparr>bs_slot_id = length (ru_slots s), bs_bytes = lt_bytes l,
       bs_tenants = [lt_tensor_id l]\<rparr>],
     ru_to_slot := (ru_to_slot s)(lt_tensor_id l \<mapsto> length (ru_slots s))\<rparr>"

definition dedicated :: "lifetime \<Rightarrow> bool" where
  "dedicated l \<longleftrightarrow> lt_is_weight l \<or> lt_is_graph_io l"

definition assign_dedicated :: "lifetime \<Rightarrow> reuse_state \<Rightarrow> reuse_state" where
  "assign_dedicated l s = (if dedicated l then new_slot l s else s)"

definition slot_free_for :: "lifetime \<Rightarrow> free_slot \<Rightarrow> bool" where
  "slot_free_for l f \<longleftrightarrow> fr_free_after f < lt_first_use l \<and> fr_bytes f \<ge> lt_bytes l"

definition assign_activation :: "lifetime \<Rightarrow> reuse_state \<Rightarrow> reuse_state" where
  "assign_activation l s =
     (case dropWhile (\<lambda>f. \<not> slot_free_for l f) (ru_free s) of
        f # rest \<Rightarrow>
          (let sid = fr_slot_id f; slot = ru_slots s ! sid;
               bytes = (if lt_bytes l > bs_bytes slot then lt_bytes l else bs_bytes slot)
           in \<lparr>ru_free = takeWhile (\<lambda>f. \<not> slot_free_for l f) (ru_free s) @ rest @
                 [\<lparr>fr_slot_id = sid, fr_bytes = bytes, fr_free_after = lt_last_use l\<rparr>],
               ru_slots = (ru_slots s)[sid := slot\<lparr>bs_tenants := bs_tenants slot @ [lt_tensor_id l],
                 bs_bytes := bytes\<rparr>],
               ru_to_slot = (ru_to_slot s)(lt_tensor_id l \<mapsto> sid)\<rparr>)
      | [] \<Rightarrow> (new_slot l s)\<lparr>ru_free := ru_free s @ [\<lparr>fr_slot_id = length (ru_slots s),
            fr_bytes = lt_bytes l, fr_free_after = lt_last_use l\<rparr>]\<rparr>)"

definition sorted_activations :: "lifetime list \<Rightarrow> lifetime list" where
  "sorted_activations ls =
     sort_key (\<lambda>l. (lt_first_use l, lt_tensor_id l)) (filter (\<lambda>l. \<not> dedicated l) ls)"

definition assign_slots :: "lifetime list \<Rightarrow> reuse_state" where
  "assign_slots ls = fold assign_activation (sorted_activations ls)
     (fold assign_dedicated ls \<lparr>ru_free = [], ru_slots = [], ru_to_slot = Map.empty\<rparr>)"

definition lifetimes_of :: "(u64 list \<Rightarrow> u64 \<Rightarrow> nat) \<Rightarrow> graph \<Rightarrow> execution_plan \<Rightarrow> lifetime list" where
  "lifetimes_of h g p = concat (map (\<lambda>i. case lives_of g p i of None \<Rightarrow> [] | Some l \<Rightarrow> [l])
     (hash_iter h (map t_id (g_tensors g))))"

definition build_memory_reuse_plan ::
    "(u64 list \<Rightarrow> u64 \<Rightarrow> nat) \<Rightarrow> graph \<Rightarrow> execution_plan \<Rightarrow> memory_reuse_plan" where
  "build_memory_reuse_plan h g p =
     (let ls = lifetimes_of h g p; s = assign_slots ls;
          naive = sum_u64 (map estimate_tensor_bytes (g_tensors g));
          weights = sum_u64 (map estimate_tensor_bytes (filter t_is_weight (g_tensors g)));
          peak = sum_u64 (map bs_bytes (ru_slots s))
      in \<lparr>mr_lifetimes = ls, mr_slots = ru_slots s, mr_tensor_to_slot = ru_to_slot s,
          mr_naive_bytes = naive, mr_peak_bytes = peak, mr_weight_bytes = weights,
          mr_summary = ''naive='' @ u64_dec naive @ ''B peak_reuse='' @ u64_dec peak @
            ''B weights='' @ u64_dec weights @ ''B slots='' @ nat_dec (length (ru_slots s)) @
            ''/'' @ nat_dec (length ls)\<rparr>)"

section \<open>Lifetimes are intervals\<close>

definition lives_ok :: "(u64 \<rightharpoonup> tensor) \<Rightarrow> (u64 \<rightharpoonup> lifetime) \<Rightarrow> bool" where
  "lives_ok tab m \<longleftrightarrow> (\<forall>i. case m i of
       None \<Rightarrow> tab i = None
     | Some l \<Rightarrow> lt_tensor_id l = i \<and> lt_first_use l \<le> lt_last_use l \<and> -1 \<le> lt_first_use l \<and>
         (\<exists>t. tab i = Some t \<and> lt_bytes l = estimate_tensor_bytes t))"

definition last_tensor :: "tensor list \<Rightarrow> u64 \<rightharpoonup> tensor" where
  "last_tensor ts = fold (\<lambda>t m. m(t_id t \<mapsto> t)) ts Map.empty"

lemma last_tensor_snoc: "last_tensor (ts @ [t]) = (last_tensor ts)(t_id t \<mapsto> t)"
  by (simp add: last_tensor_def)

lemma last_tensor_dom: "(last_tensor ts i \<noteq> None) = (i \<in> t_id ` set ts)"
  by (induction ts rule: rev_induct) (auto simp: last_tensor_def)

lemma lives_ok_init: "lives_ok (last_tensor (g_tensors g)) (init_lives g p)"
proof -
  have "lives_ok (last_tensor ts) (fold (\<lambda>t m. m(t_id t \<mapsto> init_lifetime g p t)) ts Map.empty)" for ts
  proof (induction ts rule: rev_induct)
    case Nil
    then show ?case by (simp add: lives_ok_def last_tensor_def)
  next
    case (snoc t ts)
    then show ?case
      by (auto simp: lives_ok_def last_tensor_snoc init_lifetime_def Let_def split: option.splits)
  qed
  then show ?thesis by (simp add: init_lives_def)
qed

lemma lives_ok_update:
  assumes "lives_ok tab m" and "\<And>l. lt_first_use l \<le> lt_last_use l \<Longrightarrow> -1 \<le> lt_first_use l \<Longrightarrow>
      lt_tensor_id (f l) = lt_tensor_id l \<and> lt_bytes (f l) = lt_bytes l \<and>
      lt_first_use (f l) \<le> lt_last_use (f l) \<and> -1 \<le> lt_first_use (f l)"
  shows "lives_ok tab (update_life f i m)"
proof (cases "m i")
  case None
  then show ?thesis using assms(1) by (simp add: update_life_def)
next
  case (Some l)
  with assms(1) have l: "lt_tensor_id l = i" "lt_first_use l \<le> lt_last_use l" "-1 \<le> lt_first_use l"
    "\<exists>t. tab i = Some t \<and> lt_bytes l = estimate_tensor_bytes t"
    by (auto simp: lives_ok_def dest!: spec [of _ i])
  have "case (update_life f i m) j of None \<Rightarrow> tab j = None
     | Some l \<Rightarrow> lt_tensor_id l = j \<and> lt_first_use l \<le> lt_last_use l \<and> -1 \<le> lt_first_use l \<and>
         (\<exists>t. tab j = Some t \<and> lt_bytes l = estimate_tensor_bytes t)" for j
  proof (cases "j = i")
    case True
    then show ?thesis using Some l assms(2) [OF l(2,3)] by (simp add: update_life_def)
  next
    case False
    then show ?thesis using Some assms(1) by (simp add: update_life_def lives_ok_def)
  qed
  then show ?thesis by (simp add: lives_ok_def)
qed

lemma lives_ok_fold:
  assumes "\<And>l. lt_first_use l \<le> lt_last_use l \<Longrightarrow> -1 \<le> lt_first_use l \<Longrightarrow>
      lt_tensor_id (f l) = lt_tensor_id l \<and> lt_bytes (f l) = lt_bytes l \<and>
      lt_first_use (f l) \<le> lt_last_use (f l) \<and> -1 \<le> lt_first_use (f l)"
  shows "lives_ok tab m \<Longrightarrow> lives_ok tab (fold (update_life f) is m)"
proof (induction "is" arbitrary: m)
  case (Cons i "is")
  have "lives_ok tab (update_life f i m)" by (rule lives_ok_update [OF Cons.prems assms])
  then show ?case using Cons.IH by simp
qed simp

lemma lives_ok_scan: "lives_ok tab m \<Longrightarrow> lives_ok tab (scan_op (oi, op) m)"
  unfolding scan_op_def prod.case
  by (intro lives_ok_fold) (auto simp: use_input_def use_output_def)

lemma lives_ok_lives_of: "lives_ok (last_tensor (g_tensors g)) (lives_of g p)"
proof -
  have "lives_ok tab m \<Longrightarrow> lives_ok tab (fold scan_op xs m)" for tab m xs
    by (induction xs arbitrary: m) (auto intro: lives_ok_scan)
  then show ?thesis using lives_ok_init by (simp add: lives_of_def)
qed

lemma lifetimes_of_spec:
  shows "map lt_tensor_id (lifetimes_of h g p) = hash_iter h (map t_id (g_tensors g))"
    and "l \<in> set (lifetimes_of h g p) \<Longrightarrow> lives_of g p (lt_tensor_id l) = Some l \<and>
      lt_first_use l \<le> lt_last_use l"
proof -
  note ok = lives_ok_lives_of [of g p]
  have some: "\<exists>l. lives_of g p i = Some l \<and> lt_tensor_id l = i \<and> lt_first_use l \<le> lt_last_use l"
    if "i \<in> t_id ` set (g_tensors g)" for i
    using that ok last_tensor_dom [of "g_tensors g" i]
    by (auto simp: lives_ok_def dest!: spec [of _ i] split: option.splits)
  have "map lt_tensor_id (concat (map (\<lambda>i. case lives_of g p i of None \<Rightarrow> [] | Some l \<Rightarrow> [l]) is)) = is"
    if "set is \<subseteq> t_id ` set (g_tensors g)" for "is"
    using that by (induction "is") (use some in fastforce)+
  then show "map lt_tensor_id (lifetimes_of h g p) = hash_iter h (map t_id (g_tensors g))"
    by (simp add: lifetimes_of_def)
  show "lives_of g p (lt_tensor_id l) = Some l \<and> lt_first_use l \<le> lt_last_use l"
    if "l \<in> set (lifetimes_of h g p)"
  proof -
    from that obtain i where i: "i \<in> set (hash_iter h (map t_id (g_tensors g)))"
      "l \<in> set (case lives_of g p i of None \<Rightarrow> [] | Some l \<Rightarrow> [l])"
      by (auto simp: lifetimes_of_def)
    then have "i \<in> t_id ` set (g_tensors g)" "lives_of g p i = Some l"
      by (auto split: option.splits)
    with some [of i] show ?thesis by auto
  qed
qed

section \<open>The slot invariant\<close>

definition ends_before :: "(u64 \<rightharpoonup> lifetime) \<Rightarrow> u64 \<Rightarrow> u64 \<Rightarrow> bool" where
  "ends_before L a b \<longleftrightarrow> lt_last_use (the (L a)) < lt_first_use (the (L b))"

definition slot_ok :: "(u64 \<rightharpoonup> lifetime) \<Rightarrow> buffer_slot \<Rightarrow> bool" where
  "slot_ok L sl \<longleftrightarrow> bs_tenants sl \<noteq> [] \<and> sorted_wrt (ends_before L) (bs_tenants sl) \<and>
     (\<forall>t \<in> set (bs_tenants sl). lt_bytes (the (L t)) \<le> bs_bytes sl)"

definition free_ok :: "(u64 \<rightharpoonup> lifetime) \<Rightarrow> buffer_slot list \<Rightarrow> free_slot \<Rightarrow> bool" where
  "free_ok L slots f \<longleftrightarrow> fr_slot_id f < length slots \<and>
     fr_bytes f = bs_bytes (slots ! fr_slot_id f) \<and>
     (\<forall>t \<in> set (bs_tenants (slots ! fr_slot_id f)). lt_last_use (the (L t)) \<le> fr_free_after f)"

definition slot_bytes :: "buffer_slot list \<Rightarrow> nat" where
  "slot_bytes slots = sum_list (map (unat \<circ> bs_bytes) slots)"

definition life_bytes :: "lifetime list \<Rightarrow> nat" where
  "life_bytes ls = sum_list (map (unat \<circ> lt_bytes) ls)"

definition reuse_inv :: "(u64 \<rightharpoonup> lifetime) \<Rightarrow> lifetime list \<Rightarrow> reuse_state \<Rightarrow> bool" where
  "reuse_inv L done s \<longleftrightarrow>
     (\<forall>k < length (ru_slots s). slot_ok L (ru_slots s ! k) \<and> bs_slot_id (ru_slots s ! k) = k) \<and>
     (\<forall>f \<in> set (ru_free s). free_ok L (ru_slots s) f) \<and>
     distinct (map fr_slot_id (ru_free s)) \<and>
     (\<forall>l \<in> set done. \<exists>k. ru_to_slot s (lt_tensor_id l) = Some k \<and> k < length (ru_slots s) \<and>
        lt_tensor_id l \<in> set (bs_tenants (ru_slots s ! k))) \<and>
     slot_bytes (ru_slots s) \<le> life_bytes done"

lemma reuse_inv_empty: "reuse_inv L [] \<lparr>ru_free = [], ru_slots = [], ru_to_slot = Map.empty\<rparr>"
  by (simp add: reuse_inv_def slot_bytes_def)

lemma new_slot_inv:
  assumes inv: "reuse_inv L done s" and L: "L (lt_tensor_id l) = Some l"
    and new: "lt_tensor_id l \<notin> lt_tensor_id ` set done"
  shows "reuse_inv L (l # done) (new_slot l s)"
    and "free_ok L (ru_slots (new_slot l s)) \<lparr>fr_slot_id = length (ru_slots s),
      fr_bytes = lt_bytes l, fr_free_after = lt_last_use l\<rparr>"
proof -
  define s' where "s' = new_slot l s"
  have slots: "ru_slots s' = ru_slots s @ [\<lparr>bs_slot_id = length (ru_slots s), bs_bytes = lt_bytes l,
      bs_tenants = [lt_tensor_id l]\<rparr>]"
    and to: "ru_to_slot s' = (ru_to_slot s)(lt_tensor_id l \<mapsto> length (ru_slots s))"
    and free: "ru_free s' = ru_free s"
    by (simp_all add: s'_def new_slot_def)
  have nth: "k < length (ru_slots s) \<Longrightarrow> ru_slots s' ! k = ru_slots s ! k" for k
    by (simp add: slots nth_append)
  have 1: "slot_ok L (ru_slots s' ! k) \<and> bs_slot_id (ru_slots s' ! k) = k"
    if "k < length (ru_slots s')" for k
  proof (cases "k < length (ru_slots s)")
    case True
    then show ?thesis using inv nth by (simp add: reuse_inv_def)
  next
    case False
    then have "k = length (ru_slots s)" using that by (simp add: slots)
    then show ?thesis by (simp add: slots slot_ok_def L)
  qed
  have 2: "free_ok L (ru_slots s') f" if "f \<in> set (ru_free s)" for f
    using inv that nth by (auto simp: reuse_inv_def free_ok_def slots)
  have 3: "\<exists>k. ru_to_slot s' (lt_tensor_id x) = Some k \<and> k < length (ru_slots s') \<and>
      lt_tensor_id x \<in> set (bs_tenants (ru_slots s' ! k))" if "x \<in> set (l # done)" for x
  proof (cases "x = l")
    case True
    then show ?thesis by (simp add: to slots)
  next
    case False
    then have "x \<in> set done" using that by simp
    moreover from this have "lt_tensor_id x \<noteq> lt_tensor_id l" using new by (metis image_eqI)
    ultimately have x: "x \<in> set done" "lt_tensor_id x \<noteq> lt_tensor_id l" by auto
    then obtain k where "ru_to_slot s (lt_tensor_id x) = Some k" "k < length (ru_slots s)"
      "lt_tensor_id x \<in> set (bs_tenants (ru_slots s ! k))"
      using inv by (auto simp: reuse_inv_def)
    then show ?thesis using x(2) nth by (intro exI [of _ k]) (simp add: to slots)
  qed
  show "reuse_inv L (l # done) (new_slot l s)"
    using inv 1 2 3 unfolding reuse_inv_def s'_def [symmetric] free
    by (simp add: slots slot_bytes_def life_bytes_def)
  show "free_ok L (ru_slots (new_slot l s)) \<lparr>fr_slot_id = length (ru_slots s),
      fr_bytes = lt_bytes l, fr_free_after = lt_last_use l\<rparr>"
    by (simp add: new_slot_def free_ok_def L)
qed

lemma assign_dedicated_inv:
  assumes "reuse_inv L done s" and "L (lt_tensor_id l) = Some l"
    and "lt_tensor_id l \<notin> lt_tensor_id ` set done"
  shows "reuse_inv L (if dedicated l then l # done else done) (assign_dedicated l s)"
  using assms new_slot_inv(1) by (simp add: assign_dedicated_def)

lemma reuse_slot_inv:
  assumes inv: "reuse_inv L done s" and L: "L (lt_tensor_id l) = Some l"
    and new: "lt_tensor_id l \<notin> lt_tensor_id ` set done" and le: "lt_first_use l \<le> lt_last_use l"
    and split: "ru_free s = pre @ f # rest" and f: "slot_free_for l f"
    and slot: "slot = ru_slots s ! fr_slot_id f"
  shows "reuse_inv L (l # done) \<lparr>ru_free = pre @ rest @
        [\<lparr>fr_slot_id = fr_slot_id f, fr_bytes = bs_bytes slot, fr_free_after = lt_last_use l\<rparr>],
      ru_slots = (ru_slots s)[fr_slot_id f := slot\<lparr>bs_tenants := bs_tenants slot @ [lt_tensor_id l]\<rparr>],
      ru_to_slot = (ru_to_slot s)(lt_tensor_id l \<mapsto> fr_slot_id f)\<rparr>"
proof -
  let ?sid = "fr_slot_id f"
  let ?slot' = "slot\<lparr>bs_tenants := bs_tenants slot @ [lt_tensor_id l]\<rparr>"
  let ?slots = "(ru_slots s)[?sid := ?slot']"
  have fo: "free_ok L (ru_slots s) f" using inv split by (simp add: reuse_inv_def)
  then have sid: "?sid < length (ru_slots s)" by (simp add: free_ok_def)
  have sok: "slot_ok L slot" "bs_slot_id slot = ?sid" using inv sid slot by (auto simp: reuse_inv_def)
  have before: "lt_last_use (the (L t)) \<le> fr_free_after f" "lt_last_use (the (L t)) < lt_first_use l"
    if "t \<in> set (bs_tenants slot)" for t
    using fo that f slot by (auto simp: free_ok_def slot_free_for_def)
  have fits: "lt_bytes l \<le> bs_bytes slot"
    using fo f slot by (simp add: free_ok_def slot_free_for_def)
  have ok': "slot_ok L ?slot'"
    using sok(1) before(2) fits
    by (auto simp: slot_ok_def sorted_wrt_append ends_before_def L)
  have 1: "slot_ok L (?slots ! k) \<and> bs_slot_id (?slots ! k) = k" if "k < length ?slots" for k
    using that inv ok' sok(2) by (cases "k = ?sid") (simp_all add: reuse_inv_def)
  have others: "free_ok L ?slots g" if g: "g \<in> set (pre @ rest)" for g
  proof -
    have "?sid \<notin> fr_slot_id ` set (pre @ rest)" using inv split by (auto simp: reuse_inv_def)
    then have "fr_slot_id g \<noteq> ?sid" using g by (metis image_eqI)
    moreover have "free_ok L (ru_slots s) g" using inv split g by (auto simp: reuse_inv_def)
    ultimately show ?thesis by (simp add: free_ok_def)
  qed
  have "lt_last_use (the (L t)) \<le> lt_last_use l" if "t \<in> set (bs_tenants ?slot')" for t
  proof (cases "t = lt_tensor_id l")
    case False
    then show ?thesis using that before(2) [of t] le by auto
  qed (simp add: L)
  then have last: "free_ok L ?slots \<lparr>fr_slot_id = ?sid, fr_bytes = bs_bytes slot,
      fr_free_after = lt_last_use l\<rparr>"
    using sid by (simp add: free_ok_def)
  have 3: "\<exists>k. ((ru_to_slot s)(lt_tensor_id l \<mapsto> ?sid)) (lt_tensor_id x) = Some k \<and> k < length ?slots \<and>
      lt_tensor_id x \<in> set (bs_tenants (?slots ! k))" if "x \<in> set (l # done)" for x
  proof (cases "x = l")
    case True
    then show ?thesis using sid by simp
  next
    case False
    then have "x \<in> set done" using that by simp
    moreover from this have "lt_tensor_id x \<noteq> lt_tensor_id l" using new by (metis image_eqI)
    ultimately have x: "x \<in> set done" "lt_tensor_id x \<noteq> lt_tensor_id l" by auto
    then obtain k where "ru_to_slot s (lt_tensor_id x) = Some k" "k < length (ru_slots s)"
      "lt_tensor_id x \<in> set (bs_tenants (ru_slots s ! k))"
      using inv by (auto simp: reuse_inv_def)
    then show ?thesis using x(2) slot
      by (intro exI [of _ k]) (cases "k = ?sid"; simp)
  qed
  have dist: "distinct (map fr_slot_id (pre @ rest @
      [\<lparr>fr_slot_id = ?sid, fr_bytes = bs_bytes slot, fr_free_after = lt_last_use l\<rparr>]))"
    using inv split by (auto simp: reuse_inv_def)
  have "map (unat \<circ> bs_bytes) ?slots = map (unat \<circ> bs_bytes) (ru_slots s)"
    using sid slot by (simp add: map_update list_update_id [symmetric])
      (metis list_update_id nth_map comp_apply)
  then have sum: "slot_bytes ?slots \<le> life_bytes (l # done)"
    using inv by (simp add: slot_bytes_def life_bytes_def reuse_inv_def)
  show ?thesis
    using 1 others last 3 dist sum by (auto simp: reuse_inv_def)
qed

lemma assign_activation_inv:
  assumes inv: "reuse_inv L done s" and L: "L (lt_tensor_id l) = Some l"
    and new: "lt_tensor_id l \<notin> lt_tensor_id ` set done" and le: "lt_first_use l \<le> lt_last_use l"
  shows "reuse_inv L (l # done) (assign_activation l s)"
proof (cases "dropWhile (\<lambda>f. \<not> slot_free_for l f) (ru_free s)")
  case Nil
  note n = new_slot_inv [OF inv L new]
  have "ru_free (new_slot l s) = ru_free s" by (simp add: new_slot_def)
  moreover have "\<forall>f \<in> set (ru_free s). fr_slot_id f < length (ru_slots s)"
    using inv by (auto simp: reuse_inv_def free_ok_def)
  moreover have "assign_activation l s = (new_slot l s)\<lparr>ru_free := ru_free s @
      [\<lparr>fr_slot_id = length (ru_slots s), fr_bytes = lt_bytes l, fr_free_after = lt_last_use l\<rparr>]\<rparr>"
    by (simp only: assign_activation_def Nil list.case)
  ultimately show ?thesis
    using n by (auto simp: reuse_inv_def)
next
  case (Cons f rest)
  then have f: "slot_free_for l f" by (metis dropWhile_eq_Cons_conv)
  have split: "ru_free s = takeWhile (\<lambda>f. \<not> slot_free_for l f) (ru_free s) @ f # rest"
    using Cons takeWhile_dropWhile_id [of "\<lambda>f. \<not> slot_free_for l f" "ru_free s"] by simp
  have "free_ok L (ru_slots s) f" using inv split by (metis reuse_inv_def in_set_conv_decomp)
  then have bytes: "\<not> lt_bytes l > bs_bytes (ru_slots s ! fr_slot_id f)"
    using f by (simp add: free_ok_def slot_free_for_def not_less)
  have "assign_activation l s = \<lparr>ru_free = takeWhile (\<lambda>f. \<not> slot_free_for l f) (ru_free s) @ rest @
        [\<lparr>fr_slot_id = fr_slot_id f, fr_bytes = bs_bytes (ru_slots s ! fr_slot_id f),
          fr_free_after = lt_last_use l\<rparr>],
      ru_slots = (ru_slots s)[fr_slot_id f := (ru_slots s ! fr_slot_id f)
        \<lparr>bs_tenants := bs_tenants (ru_slots s ! fr_slot_id f) @ [lt_tensor_id l]\<rparr>],
      ru_to_slot = (ru_to_slot s)(lt_tensor_id l \<mapsto> fr_slot_id f)\<rparr>"
    using bytes by (simp add: assign_activation_def Cons Let_def)
  then show ?thesis
    using reuse_slot_inv [OF inv L new le split f refl] by simp
qed

section \<open>The plan\<close>

lemma fold_inv:
  assumes "\<And>l done s. l \<in> set ls \<Longrightarrow> reuse_inv L done s \<Longrightarrow> lt_tensor_id l \<notin> lt_tensor_id ` set done \<Longrightarrow>
      reuse_inv L (if P l then l # done else done) (f l s)"
    and "reuse_inv L done s" and "distinct (map lt_tensor_id ls)"
    and "lt_tensor_id ` set ls \<inter> lt_tensor_id ` set done = {}"
  shows "\<exists>done'. reuse_inv L done' (fold f ls s) \<and> mset done' = mset done + mset (filter P ls)"
  using assms
proof (induction ls arbitrary: "done" s)
  case (Cons l ls)
  let ?done' = "if P l then l # done else done"
  have "reuse_inv L ?done' (f l s)"
    using Cons.prems(4) by (intro Cons.prems(1)) (auto simp: Cons.prems(2))
  moreover have "lt_tensor_id ` set ls \<inter> lt_tensor_id ` set ?done' = {}"
    using Cons.prems(3,4) by auto
  ultimately obtain done' where "reuse_inv L done' (fold f ls (f l s))"
    "mset done' = mset ?done' + mset (filter P ls)"
    using Cons.IH [of ?done' "f l s"] Cons.prems(1,3) by auto
  then show ?case by (auto split: if_splits)
qed auto

lemma assign_slots_inv:
  assumes ls: "\<And>l. l \<in> set ls \<Longrightarrow> L (lt_tensor_id l) = Some l \<and> lt_first_use l \<le> lt_last_use l"
    and d: "distinct (map lt_tensor_id ls)"
  shows "\<exists>done. reuse_inv L done (assign_slots ls) \<and> mset done = mset ls"
proof -
  let ?s0 = "\<lparr>ru_free = [], ru_slots = [], ru_to_slot = Map.empty\<rparr> :: reuse_state"
  obtain done1 where 1: "reuse_inv L done1 (fold assign_dedicated ls ?s0)"
    "mset done1 = mset (filter dedicated ls)"
  proof -
    have "\<exists>done'. reuse_inv L done' (fold assign_dedicated ls ?s0) \<and>
        mset done' = mset [] + mset (filter dedicated ls)"
      by (rule fold_inv) (use ls d in \<open>simp_all add: assign_dedicated_inv reuse_inv_empty\<close>)
    with that show thesis by auto
  qed
  let ?acts = "sorted_activations ls"
  have acts: "mset ?acts = mset (filter (\<lambda>l. \<not> dedicated l) ls)"
    by (simp add: sorted_activations_def)
  then have sacts: "set ?acts = {l \<in> set ls. \<not> dedicated l}"
    by (metis set_filter set_mset_mset)
  have inj: "inj_on lt_tensor_id (set ls)" using d by (simp add: distinct_map)
  have s1: "set done1 = {l \<in> set ls. dedicated l}"
    using 1(2) by (metis set_filter set_mset_mset)
  have "mset (map lt_tensor_id ?acts) = mset (map lt_tensor_id (filter (\<lambda>l. \<not> dedicated l) ls))"
    using acts by simp
  then have dacts: "distinct (map lt_tensor_id ?acts)"
    using mset_eq_imp_distinct_iff distinct_map_filter [OF d] by blast
  have disj: "lt_tensor_id ` set ?acts \<inter> lt_tensor_id ` set done1 = {}"
    unfolding sacts s1 using inj by (auto dest: inj_onD)
  obtain done2 where 2: "reuse_inv L done2 (fold assign_activation ?acts
      (fold assign_dedicated ls ?s0))" "mset done2 = mset done1 + mset ?acts"
  proof -
    have step: "reuse_inv L (if True then l # done else done) (assign_activation l s)"
      if "l \<in> set ?acts" "reuse_inv L done s" "lt_tensor_id l \<notin> lt_tensor_id ` set done" for l "done" s
      using assign_activation_inv [OF that(2) _ that(3)] ls [of l] that(1) sacts by simp
    have "\<exists>done'. reuse_inv L done' (fold assign_activation ?acts (fold assign_dedicated ls ?s0)) \<and>
        mset done' = mset done1 + mset (filter (\<lambda>_. True) ?acts)"
      by (rule fold_inv [OF step 1(1)]) (use dacts disj in simp_all)
    with that show thesis by auto
  qed
  then have "mset done2 = mset ls" unfolding 1(2) acts by (metis multiset_partition mset_filter)
  with 2(1) show ?thesis by (auto simp: assign_slots_def)
qed

text \<open>The sum over the distinct ids is at most the sum over the tensors.\<close>

lemma distinct_ids_bytes:
  "(\<Sum>i \<in> t_id ` set ts. f (the (last_tensor ts i))) \<le> sum_list (map (f :: tensor \<Rightarrow> nat) ts)"
proof (induction ts rule: rev_induct)
  case (snoc t ts)
  let ?I = "t_id ` set ts"
  have "(\<Sum>i \<in> t_id ` set (ts @ [t]). f (the (last_tensor (ts @ [t]) i))) =
      f t + (\<Sum>i \<in> ?I - {t_id t}. f (the (last_tensor ts i)))"
  proof -
    have ins: "t_id ` set (ts @ [t]) = insert (t_id t) (?I - {t_id t})" by auto
    have "(\<Sum>i \<in> t_id ` set (ts @ [t]). f (the (last_tensor (ts @ [t]) i))) =
        f (the (last_tensor (ts @ [t]) (t_id t))) +
        (\<Sum>i \<in> ?I - {t_id t}. f (the (last_tensor (ts @ [t]) i)))"
      unfolding ins by (rule sum.insert) simp_all
    also have "(\<Sum>i \<in> ?I - {t_id t}. f (the (last_tensor (ts @ [t]) i))) =
        (\<Sum>i \<in> ?I - {t_id t}. f (the (last_tensor ts i)))"
      by (intro sum.cong) (auto simp: last_tensor_snoc)
    finally show ?thesis by (simp add: last_tensor_snoc)
  qed
  also have "(\<Sum>i \<in> ?I - {t_id t}. f (the (last_tensor ts i))) \<le> (\<Sum>i \<in> ?I. f (the (last_tensor ts i)))"
    by (rule sum_mono2) auto
  finally show ?case using snoc by simp
qed simp

lemma lifetimes_bytes:
  "life_bytes (lifetimes_of h g p) \<le> sum_list (map (unat \<circ> estimate_tensor_bytes) (g_tensors g))"
proof -
  let ?ls = "lifetimes_of h g p"
  have b: "lt_bytes l = estimate_tensor_bytes (the (last_tensor (g_tensors g) (lt_tensor_id l)))"
    if "l \<in> set ?ls" for l
    using lifetimes_of_spec(2) [OF that] lives_ok_lives_of [of g p]
    by (auto simp: lives_ok_def dest!: spec [of _ "lt_tensor_id l"])
  have d: "distinct (map lt_tensor_id ?ls)" "set (map lt_tensor_id ?ls) = t_id ` set (g_tensors g)"
    unfolding lifetimes_of_spec(1) by simp_all
  have "life_bytes ?ls =
      sum_list (map (\<lambda>i. unat (estimate_tensor_bytes (the (last_tensor (g_tensors g) i))))
        (map lt_tensor_id ?ls))"
    using b by (auto simp: life_bytes_def intro!: arg_cong [of _ _ sum_list])
  also have "\<dots> = (\<Sum>i \<in> t_id ` set (g_tensors g).
      unat (estimate_tensor_bytes (the (last_tensor (g_tensors g) i))))"
    using d by (metis sum_list_distinct_conv_sum_set)
  also have "\<dots> \<le> sum_list (map (unat \<circ> estimate_tensor_bytes) (g_tensors g))"
    using distinct_ids_bytes [of "\<lambda>t. unat (estimate_tensor_bytes t)" "g_tensors g"]
    by (simp add: comp_def)
  finally show ?thesis .
qed

lemma reuse_plan_safe:
  assumes "m = build_memory_reuse_plan h g p"
  shows "(\<forall>t \<in> set (g_tensors g). \<exists>k < length (mr_slots m).
       mr_tensor_to_slot m (t_id t) = Some k \<and> t_id t \<in> set (bs_tenants (mr_slots m ! k))) \<and>
    (\<forall>sl \<in> set (mr_slots m). \<forall>i < length (bs_tenants sl). \<forall>j < i.
       lt_last_use (the (lives_of g p (bs_tenants sl ! j))) <
       lt_first_use (the (lives_of g p (bs_tenants sl ! i)))) \<and>
    (\<forall>sl \<in> set (mr_slots m). \<forall>t \<in> set (bs_tenants sl).
       lt_bytes (the (lives_of g p t)) \<le> bs_bytes sl)"
proof -
  let ?ls = "lifetimes_of h g p" let ?s = "assign_slots ?ls"
  have m: "mr_slots m = ru_slots ?s" "mr_tensor_to_slot m = ru_to_slot ?s"
    by (simp_all add: assms build_memory_reuse_plan_def Let_def)
  have ids: "set (map lt_tensor_id ?ls) = t_id ` set (g_tensors g)" "distinct (map lt_tensor_id ?ls)"
    unfolding lifetimes_of_spec(1) by simp_all
  obtain done' where inv: "reuse_inv (lives_of g p) done' ?s" and d: "mset done' = mset ?ls"
    using assign_slots_inv [of ?ls "lives_of g p"] lifetimes_of_spec(2) ids(2) by blast
  have "\<exists>k < length (ru_slots ?s). ru_to_slot ?s (t_id t) = Some k \<and>
      t_id t \<in> set (bs_tenants (ru_slots ?s ! k))" if "t \<in> set (g_tensors g)" for t
  proof -
    from that ids(1) obtain l where "l \<in> set ?ls" "lt_tensor_id l = t_id t"
      by (metis (no_types, lifting) image_eqI image_iff set_map)
    moreover from this d have "l \<in> set done'" by (metis set_mset_mset)
    ultimately show ?thesis using inv by (auto simp: reuse_inv_def)
  qed
  moreover have "slot_ok (lives_of g p) sl" if "sl \<in> set (ru_slots ?s)" for sl
    using that inv by (auto simp: reuse_inv_def in_set_conv_nth)
  ultimately show ?thesis
    unfolding m by (auto simp: slot_ok_def sorted_wrt_iff_nth_less ends_before_def)
qed

text \<open>C12. In the memory plan of any graph and execution plan, every tensor has a slot that lists
  it; of two tensors that share a slot, the earlier tenant's last use comes strictly before the
  later tenant's first use; and a slot is at least as large as each of its tenants.\<close>

theorem memory_plan_safe:
  assumes "m = build_memory_reuse_plan h g p"
  shows "(\<forall>t \<in> set (g_tensors g). \<exists>k < length (mr_slots m).
       mr_tensor_to_slot m (t_id t) = Some k \<and> t_id t \<in> set (bs_tenants (mr_slots m ! k))) \<and>
    (\<forall>sl \<in> set (mr_slots m). \<forall>i < length (bs_tenants sl). \<forall>j < i.
       lt_last_use (the (lives_of g p (bs_tenants sl ! j))) <
       lt_first_use (the (lives_of g p (bs_tenants sl ! i)))) \<and>
    (\<forall>sl \<in> set (mr_slots m). \<forall>t \<in> set (bs_tenants sl).
       lt_bytes (the (lives_of g p t)) \<le> bs_bytes sl)"
  using assms by (rule reuse_plan_safe)

text \<open>C25. The planned peak is at most the naive total, provided the sum of all tensor sizes is
  below 2^64.\<close>

theorem memory_plan_peak:
  assumes "m = build_memory_reuse_plan h g p"
    and "sum_list (map (unat \<circ> estimate_tensor_bytes) (g_tensors g)) < 2 ^ 64"
  shows "mr_peak_bytes m \<le> mr_naive_bytes m \<and>
    unat (mr_naive_bytes m) = sum_list (map (unat \<circ> estimate_tensor_bytes) (g_tensors g))"
proof -
  let ?ls = "lifetimes_of h g p" let ?s = "assign_slots ?ls"
  have m: "mr_peak_bytes m = sum_u64 (map bs_bytes (ru_slots ?s))"
    "mr_naive_bytes m = sum_u64 (map estimate_tensor_bytes (g_tensors g))"
    by (simp_all add: assms(1) build_memory_reuse_plan_def Let_def)
  have "distinct (map lt_tensor_id ?ls)" unfolding lifetimes_of_spec(1) by simp
  then obtain done' where inv: "reuse_inv (lives_of g p) done' ?s" and d: "mset done' = mset ?ls"
    using assign_slots_inv [of ?ls "lives_of g p"] lifetimes_of_spec(2) by blast
  have "life_bytes done' = life_bytes ?ls"
    unfolding life_bytes_def using d by (metis mset_map sum_mset_sum_list)
  then have le: "slot_bytes (ru_slots ?s) \<le> sum_list (map (unat \<circ> estimate_tensor_bytes) (g_tensors g))"
    using inv lifetimes_bytes [of h g p] by (simp add: reuse_inv_def)
  then have "unat (mr_peak_bytes m) = slot_bytes (ru_slots ?s)"
    using assms(2) by (simp add: m unat_sum_u64 slot_bytes_def)
  moreover have "unat (mr_naive_bytes m) = sum_list (map (unat \<circ> estimate_tensor_bytes) (g_tensors g))"
    using assms(2) by (simp add: m unat_sum_u64)
  ultimately show ?thesis using le by (simp add: word_le_nat_alt)
qed

definition demo_tensors :: graph where
  "demo_tensors =
     graph_default\<lparr>g_tensors := [tensor_default\<lparr>t_id := 7, t_dtype := DT_F32, t_shape := [4]\<rparr>]\<rparr>"

theorem memory_plan_safe_witness:
  "\<exists>k. mr_tensor_to_slot (build_memory_reuse_plan (\<lambda>_ _. 0) demo_tensors (plan_skeleton demo_tensors)) 7 =
     Some k"
  using memory_plan_safe [OF refl, of demo_tensors "\<lambda>_ _. 0" "plan_skeleton demo_tensors"]
  by (auto simp: demo_tensors_def)

theorem memory_plan_peak_witness:
  "(let m = build_memory_reuse_plan (\<lambda>_ _. 0) demo_tensors (plan_skeleton demo_tensors)
    in mr_peak_bytes m \<le> mr_naive_bytes m \<and> unat (mr_naive_bytes m) = 16)"
proof -
  have "sum_list (map (unat \<circ> estimate_tensor_bytes) (g_tensors demo_tensors)) = 16"
    by (simp add: demo_tensors_def estimate_tensor_bytes_def tensor_default_def shape_numel_def)
  with memory_plan_peak [OF refl, of demo_tensors "\<lambda>_ _. 0" "plan_skeleton demo_tensors"]
  show ?thesis by (simp add: Let_def)
qed

end
