(* ===== verification/Storage_Plan.thy ===== *)
theory Storage_Plan
  imports Ir_Graph
begin

text \<open>
  Weight placement under a RAM budget (\<open>planner/storage_plan.hpp\<close>, \<open>storage_plan.cpp\<close>): which
  weights stay pinned in RAM, which are streamed through the staging buffers, and how much is
  left for the expert cache.  \<open>dial\<close> holds the three local variables the tightening loop
  lowers.  The loop's bound of 64 steps is the source's.
\<close>

section \<open>Plan types\<close>

datatype storage_tier =
    TierUnknown | TierRam | TierMmap | TierDisk | TierNvme | TierObjectStore | TierRemote | TierCompressed

record storage_placement =
  sp_tensor_id :: u64
  sp_name :: string
  sp_tier :: storage_tier
  sp_stream :: bool
  sp_expert :: bool
  sp_bytes :: u64
  sp_uri :: string

record streaming_window =
  sw_tensor_id :: u64
  sw_offset :: u64
  sw_size :: u64

record storage_plan =
  st_placements :: "storage_placement list"
  st_windows :: "streaming_window list"
  st_ram_budget_bytes :: u64
  st_total_weight_bytes :: u64
  st_staging_bytes :: u64
  st_staging_slots :: int
  st_expert_cache_bytes :: u64
  st_expert_windows :: nat
  st_streaming_required :: bool
  st_summary :: string

record storage_plan_options =
  so_ram_budget_bytes :: u64
  so_prefer_mmap :: bool
  so_enable_streaming :: bool
  so_pin_layers :: int
  so_expert_cache_bytes :: u64
  so_staging_slots :: int

section \<open>Names\<close>

definition is_embed_name :: "string \<Rightarrow> bool" where
  "is_embed_name name = (let n = lower name in contains ''embed'' n \<or> contains ''token_embd'' n \<or>
     contains ''tok_embeddings'' n \<or> contains ''wte'' n)"

definition is_lm_head_name :: "string \<Rightarrow> bool" where
  "is_lm_head_name name = (let n = lower name in contains ''lm_head'' n \<or> n = ''output'' \<or>
     contains ''output.weight'' n)"

definition is_norm_name :: "string \<Rightarrow> bool" where
  "is_norm_name name = (let n = lower name in contains ''output_norm'' n \<or> contains ''rms_out'' n \<or>
     contains ''ln_f'' n \<or> contains ''final_layernorm'' n \<or> contains ''final_layer_norm'' n \<or>
     n = ''norm'' \<or> n = ''model.norm.weight'' \<or> n = ''model.norm.bias'')"

definition is_trunk_always_pin :: "string \<Rightarrow> bool" where
  "is_trunk_always_pin name \<longleftrightarrow> is_embed_name name \<or> is_lm_head_name name \<or> is_norm_name name"

definition layer_patterns :: "nat \<Rightarrow> string list" where
  "layer_patterns i = (let si = nat_dec i in
     [''blk.'' @ si @ ''.'', ''l'' @ si @ ''.'', ''model.layers.'' @ si @ ''.'',
      ''model.decoder.layers.'' @ si @ ''.'', ''transformer.h.'' @ si @ ''.'',
      ''transformer.layers.'' @ si @ ''.'', ''gpt_neox.layers.'' @ si @ ''.''])"

definition name_has_layer :: "string \<Rightarrow> nat \<Rightarrow> bool" where
  "name_has_layer name i = list_ex (\<lambda>p. contains p name) (layer_patterns i)"

definition is_moe_expert_weight_name :: "string \<Rightarrow> bool" where
  "is_moe_expert_weight_name name \<longleftrightarrow>
     contains ''ffn_gate_exps'' name \<or> contains ''ffn_up_exps'' name \<or>
     contains ''ffn_down_exps'' name \<or> contains ''block_sparse_moe.experts'' name \<or>
     contains ''.exp.'' name \<or> contains ''.experts.'' name"

definition weight_resident_bytes :: "tensor \<Rightarrow> u64" where
  "weight_resident_bytes t =
     (if t_is_weight t \<and> is_gguf_block_quant (t_quant_format t)
      then packed_nbytes (t_quant_format t) (shape_numel (t_shape t))
      else estimate_tensor_bytes t)"

section \<open>Placement and pinning\<close>

definition initial_placement :: "storage_plan_options \<Rightarrow> tensor \<Rightarrow> storage_placement" where
  "initial_placement opts t = \<lparr>sp_tensor_id = t_id t, sp_name = t_name t,
     sp_tier = (if t_is_weight t then (if so_prefer_mmap opts then TierMmap else TierDisk) else TierRam),
     sp_stream = False, sp_expert = (t_is_weight t \<and> is_moe_expert_weight_name (t_name t)),
     sp_bytes = weight_resident_bytes t, sp_uri = (if t_is_weight t then t_weight_ref t else [])\<rparr>"

record dial =
  d_pin_layers :: int
  d_pin_embed :: bool
  d_pin_lm :: bool

text \<open>\<open>p.bytes == 0\<close> and the tier test that the loops use to skip what is not a weight.\<close>

definition is_weight_placement :: "storage_placement \<Rightarrow> bool" where
  "is_weight_placement p \<longleftrightarrow> sp_bytes p \<noteq> 0 \<and> (sp_tier p = TierMmap \<or> sp_tier p = TierDisk)"

definition is_layer_pinned :: "dial \<Rightarrow> storage_placement \<Rightarrow> bool" where
  "is_layer_pinned d p \<longleftrightarrow> list_ex (name_has_layer (sp_name p)) [0..<nat (d_pin_layers d)]"

definition would_pin :: "bool \<Rightarrow> dial \<Rightarrow> storage_placement \<Rightarrow> bool" where
  "would_pin tight d p \<longleftrightarrow> \<not> sp_expert p \<and> is_weight_placement p \<and>
     (is_norm_name (sp_name p) \<or> (d_pin_embed d \<and> is_embed_name (sp_name p)) \<or>
      (d_pin_lm d \<and> is_lm_head_name (sp_name p)) \<or> is_layer_pinned d p \<or>
      (\<not> tight \<and> is_trunk_always_pin (sp_name p)))"

text \<open>One round of the loop of \<open>pin_and_staging\<close>: pinned bytes, largest streamed weight, its name.\<close>

definition pin_step ::
    "bool \<Rightarrow> dial \<Rightarrow> storage_placement \<Rightarrow> u64 \<times> u64 \<times> string \<Rightarrow> u64 \<times> u64 \<times> string" where
  "pin_step tight d p = (\<lambda>(pin, stage, big).
     if \<not> is_weight_placement p then (pin, stage, big)
     else if sp_expert p then
       (if sp_bytes p > stage then (pin, sp_bytes p, sp_name p) else (pin, stage, big))
     else if would_pin tight d p then (pin + sp_bytes p, stage, big)
     else if sp_bytes p > stage then (pin, sp_bytes p, sp_name p)
     else (pin, stage, big))"

definition pin_and_staging :: "bool \<Rightarrow> dial \<Rightarrow> storage_placement list \<Rightarrow> u64 \<times> u64 \<times> string" where
  "pin_and_staging tight d ps = fold (pin_step tight d) ps (0, 0, [])"

definition pin_need :: "u64 \<Rightarrow> dial \<Rightarrow> storage_placement list \<Rightarrow> u64" where
  "pin_need slot_n d ps = (case pin_and_staging True d ps of (pin, stage, _) \<Rightarrow> pin + stage * slot_n)"

fun tighten :: "nat \<Rightarrow> u64 \<Rightarrow> u64 \<Rightarrow> storage_placement list \<Rightarrow> dial \<Rightarrow> dial" where
  "tighten 0 slot_n budget ps d = d"
| "tighten (Suc k) slot_n budget ps d =
     (if pin_need slot_n d ps \<le> budget then d
      else if d_pin_layers d > 0
        then tighten k slot_n budget ps (d\<lparr>d_pin_layers := d_pin_layers d - 1\<rparr>)
      else if d_pin_lm d then tighten k slot_n budget ps (d\<lparr>d_pin_lm := False\<rparr>)
      else if d_pin_embed d then tighten k slot_n budget ps (d\<lparr>d_pin_embed := False\<rparr>)
      else d)"

text \<open>The last pass: a weight is streamed or moved to RAM.\<close>

definition settle :: "bool \<Rightarrow> dial \<Rightarrow> storage_placement \<Rightarrow> storage_placement" where
  "settle tight d p =
     (if \<not> is_weight_placement p then p
      else if sp_expert p \<or> \<not> would_pin tight d p then p\<lparr>sp_stream := True\<rparr>
      else p\<lparr>sp_stream := False, sp_tier := TierRam\<rparr>)"

definition window_of :: "storage_placement \<Rightarrow> streaming_window list" where
  "window_of p = (if sp_stream p then [\<lparr>sw_tensor_id = sp_tensor_id p, sw_offset = 0,
     sw_size = sp_bytes p\<rparr>] else [])"

definition max_bytes :: "u64 list \<Rightarrow> u64" where
  "max_bytes bs = fold (\<lambda>b m. max m b) bs 0"

definition clamp_slots :: "int \<Rightarrow> int" where
  "clamp_slots n = (if n \<le> 0 then 2 else if n > 2 then 2 else n)"

definition yes_no :: "bool \<Rightarrow> string" where
  "yes_no b = (if b then ''yes'' else ''no'')"

section \<open>The planner\<close>

definition weight_bytes :: "(tensor \<Rightarrow> bool) \<Rightarrow> graph \<Rightarrow> u64" where
  "weight_bytes P g =
     sum_u64 (map weight_resident_bytes (filter (\<lambda>t. t_is_weight t \<and> P t) (g_tensors g)))"

definition pressure :: "graph \<Rightarrow> storage_plan_options \<Rightarrow> bool" where
  "pressure g opts \<longleftrightarrow> so_enable_streaming opts \<and> so_ram_budget_bytes opts > 0 \<and>
     weight_bytes (\<lambda>_. True) g > so_ram_budget_bytes opts"

definition expert_page :: "graph \<Rightarrow> storage_plan_options \<Rightarrow> bool" where
  "expert_page g opts \<longleftrightarrow> so_enable_streaming opts \<and>
     weight_bytes (\<lambda>t. is_moe_expert_weight_name (t_name t)) g > 0 \<and>
     (pressure g opts \<or> so_expert_cache_bytes opts > 0)"

definition too_large_error :: "string \<Rightarrow> u64 \<Rightarrow> error" where
  "too_large_error biggest stage = Error InvalidArgument
     (''weight '' @ biggest @ '' is '' @ u64_dec stage @
      '' bytes which exceeds the memory preset. Convert to GGUF Q4_K or use --preset desktop|server.'')"

text \<open>What the tightening branch yields: the dial and the expert cache, or the error.\<close>

definition fit_budget ::
    "storage_plan_options \<Rightarrow> u64 \<Rightarrow> storage_placement list \<Rightarrow> dial \<Rightarrow> error + dial \<times> u64" where
  "fit_budget opts slot_n ps d0 =
     (let budget = so_ram_budget_bytes opts; d = tighten 64 slot_n budget ps d0;
          (pin, stage, biggest) = pin_and_staging True d ps; need = pin + stage * slot_n
      in if stage > 0 \<and> need > budget then Inl (too_large_error biggest stage)
         else let leftover = (if budget > need then budget - need else 0)
           in Inr (d, if so_expert_cache_bytes opts > leftover then leftover
                      else so_expert_cache_bytes opts))"

definition storage_summary :: "graph \<Rightarrow> dial \<Rightarrow> storage_plan \<Rightarrow> string" where
  "storage_summary g d s =
     ''weights='' @ u64_dec (st_total_weight_bytes s) @ ''B dense='' @
     u64_dec (weight_bytes (\<lambda>t. \<not> is_moe_expert_weight_name (t_name t)) g) @ ''B experts='' @
     u64_dec (weight_bytes (\<lambda>t. is_moe_expert_weight_name (t_name t)) g) @ ''B budget='' @
     u64_dec (st_ram_budget_bytes s) @ ''B staging='' @ u64_dec (st_staging_bytes s) @ ''B x'' @
     int_dec (st_staging_slots s) @ '' expert_cache='' @ u64_dec (st_expert_cache_bytes s) @
     ''B streaming='' @ yes_no (st_streaming_required s) @ '' pin_layers='' @ int_dec (d_pin_layers d) @
     '' pin_embed='' @ yes_no (d_pin_embed d) @ '' pin_lm_head='' @ yes_no (d_pin_lm d) @
     '' windows='' @ nat_dec (length (st_windows s)) @ '' expert_windows='' @
     nat_dec (st_expert_windows s)"

definition tight_budget :: "storage_plan_options \<Rightarrow> bool" where
  "tight_budget opts \<longleftrightarrow> so_ram_budget_bytes opts \<ge> 2 ^ 20"

definition placements_of :: "graph \<Rightarrow> storage_plan_options \<Rightarrow> storage_placement list" where
  "placements_of g opts = map (initial_placement opts) (g_tensors g)"

definition needs_streaming :: "graph \<Rightarrow> storage_plan_options \<Rightarrow> bool" where
  "needs_streaming g opts \<longleftrightarrow> pressure g opts \<or> expert_page g opts"

definition choose_dial :: "graph \<Rightarrow> storage_plan_options \<Rightarrow> error + dial \<times> u64" where
  "choose_dial g opts =
     (let d0 = \<lparr>d_pin_layers = so_pin_layers opts, d_pin_embed = True, d_pin_lm = True\<rparr>
      in if needs_streaming g opts \<and> tight_budget opts
         then fit_budget opts (word_of_int (clamp_slots (so_staging_slots opts)))
                (placements_of g opts) d0
         else Inr (d0, so_expert_cache_bytes opts))"

text \<open>The final pass and the summary, for a chosen dial and expert cache.\<close>

definition finish_plan :: "graph \<Rightarrow> storage_plan_options \<Rightarrow> dial \<Rightarrow> u64 \<Rightarrow> storage_plan" where
  "finish_plan g opts d cache =
     (let final = (if needs_streaming g opts then map (settle (tight_budget opts) d) (placements_of g opts)
                   else placements_of g opts);
          streamed = filter sp_stream final;
          biggest = max_bytes (map sp_bytes streamed);
          s = \<lparr>st_placements = final, st_windows = concat (map window_of final),
            st_ram_budget_bytes = so_ram_budget_bytes opts,
            st_total_weight_bytes = weight_bytes (\<lambda>_. True) g,
            st_staging_bytes = (if biggest > 0 then biggest
              else max_bytes (map weight_resident_bytes (filter t_is_weight (g_tensors g)))),
            st_staging_slots = clamp_slots (so_staging_slots opts), st_expert_cache_bytes = cache,
            st_expert_windows = length (filter sp_expert streamed),
            st_streaming_required = needs_streaming g opts, st_summary = []\<rparr>
      in s\<lparr>st_summary := storage_summary g d s\<rparr>)"

definition build_storage_plan :: "graph \<Rightarrow> storage_plan_options \<Rightarrow> error + storage_plan" where
  "build_storage_plan g opts = rbind (choose_dial g opts) (\<lambda>(d, cache). Inr (finish_plan g opts d cache))"

section \<open>What the loops compute\<close>

definition streams :: "bool \<Rightarrow> dial \<Rightarrow> storage_placement \<Rightarrow> bool" where
  "streams tight d p \<longleftrightarrow> is_weight_placement p \<and> \<not> would_pin tight d p"

lemma max_bytes_simps [simp]: "max_bytes [] = 0" "max_bytes (bs @ [b]) = max (max_bytes bs) b"
  by (simp_all add: max_bytes_def)

lemma max_bytes_ge: "b \<in> set bs \<Longrightarrow> b \<le> max_bytes bs"
  by (induction bs rule: rev_induct) (auto simp: le_max_iff_disj)

lemma max_bytes_mem: "max_bytes bs = 0 \<or> max_bytes bs \<in> set bs"
  by (induction bs rule: rev_induct) (auto simp: max_def)

lemma pin_and_staging_eq:
  "fst (pin_and_staging tight d ps) = sum_u64 (map sp_bytes (filter (would_pin tight d) ps))"
  "fst (snd (pin_and_staging tight d ps)) = max_bytes (map sp_bytes (filter (streams tight d) ps))"
proof -
  have wp: "would_pin tight d p \<Longrightarrow> is_weight_placement p \<and> \<not> sp_expert p" for p
    by (simp add: would_pin_def)
  have "fst (pin_and_staging tight d ps) = sum_u64 (map sp_bytes (filter (would_pin tight d) ps)) \<and>
      fst (snd (pin_and_staging tight d ps)) = max_bytes (map sp_bytes (filter (streams tight d) ps))"
  proof (induction ps rule: rev_induct)
    case Nil
    then show ?case by (simp add: pin_and_staging_def)
  next
    case (snoc p ps)
    obtain pin stage big where st: "pin_and_staging tight d ps = (pin, stage, big)"
      by (metis prod_cases3)
    have "pin_and_staging tight d (ps @ [p]) = pin_step tight d p (pin, stage, big)"
      using st by (simp add: pin_and_staging_def)
    then show ?case
      using snoc st wp [of p] by (auto simp: pin_step_def streams_def max_def not_less)
  qed
  then show "fst (pin_and_staging tight d ps) = sum_u64 (map sp_bytes (filter (would_pin tight d) ps))"
    "fst (snd (pin_and_staging tight d ps)) = max_bytes (map sp_bytes (filter (streams tight d) ps))"
    by simp_all
qed

lemma settle_fields [simp]:
  "sp_bytes (settle tight d p) = sp_bytes p" "sp_tensor_id (settle tight d p) = sp_tensor_id p"
  "sp_expert (settle tight d p) = sp_expert p" "sp_name (settle tight d p) = sp_name p"
  by (simp_all add: settle_def)

lemma settle_stream: "\<not> sp_stream p \<Longrightarrow> sp_stream (settle tight d p) \<longleftrightarrow> streams tight d p"
  by (auto simp: settle_def streams_def would_pin_def)

lemma initial_fields [simp]:
  "\<not> sp_stream (initial_placement opts t)"
  "sp_bytes (initial_placement opts t) = weight_resident_bytes t"
  "is_weight_placement (initial_placement opts t) \<longleftrightarrow> t_is_weight t \<and> weight_resident_bytes t \<noteq> 0"
  "sp_expert (initial_placement opts t) \<longleftrightarrow> t_is_weight t \<and> is_moe_expert_weight_name (t_name t)"
  "sp_name (initial_placement opts t) = t_name t"
  by (simp_all add: initial_placement_def is_weight_placement_def)

lemma settled_streams:
  "\<forall>p \<in> set ps. \<not> sp_stream p \<Longrightarrow>
     map sp_bytes (filter sp_stream (map (settle tight d) ps)) = map sp_bytes (filter (streams tight d) ps)"
  by (induction ps) (auto simp: settle_stream)

text \<open>The weight bytes a plan keeps resident.\<close>

definition resident_bytes :: "graph \<Rightarrow> storage_plan \<Rightarrow> nat" where
  "resident_bytes g s = sum_list (map (\<lambda>(t, p). if t_is_weight t \<and> \<not> sp_stream p
     then unat (sp_bytes p) else 0) (zip (g_tensors g) (st_placements s)))"

lemma resident_settled:
  "sum_list (map (\<lambda>(t, p). if t_is_weight t \<and> \<not> sp_stream p then unat (sp_bytes p) else 0)
     (zip ts (map (settle tight d) (map (initial_placement opts) ts)))) =
   sum_list (map (unat \<circ> sp_bytes) (filter (would_pin tight d) (map (initial_placement opts) ts)))"
proof (induction ts)
  case (Cons t ts)
  let ?p = "initial_placement opts t"
  have "(if t_is_weight t \<and> \<not> sp_stream (settle tight d ?p) then unat (weight_resident_bytes t) else 0) =
      (if would_pin tight d ?p then unat (weight_resident_bytes t) else 0)"
    by (simp add: settle_stream streams_def) (auto simp: would_pin_def)
  moreover have "sum_list (map (unat \<circ> sp_bytes) (filter (would_pin tight d)
      (map (initial_placement opts) (t # ts)))) =
      (if would_pin tight d ?p then unat (weight_resident_bytes t) else 0) +
      sum_list (map (unat \<circ> sp_bytes) (filter (would_pin tight d) (map (initial_placement opts) ts)))"
    by simp
  moreover have "sum_list (map (\<lambda>(t, p). if t_is_weight t \<and> \<not> sp_stream p then unat (sp_bytes p) else 0)
      (zip (t # ts) (map (settle tight d) (map (initial_placement opts) (t # ts))))) =
      (if t_is_weight t \<and> \<not> sp_stream (settle tight d ?p) then unat (weight_resident_bytes t) else 0) +
      sum_list (map (\<lambda>(t, p). if t_is_weight t \<and> \<not> sp_stream p then unat (sp_bytes p) else 0)
        (zip ts (map (settle tight d) (map (initial_placement opts) ts))))"
    by simp
  ultimately show ?case using Cons.IH by presburger
qed simp

definition total_weight :: "graph \<Rightarrow> nat" where
  "total_weight g = sum_list (map (unat \<circ> weight_resident_bytes) (filter t_is_weight (g_tensors g)))"

lemma pinned_le_total:
  "sum_list (map (unat \<circ> sp_bytes) (filter (would_pin tight d) (map (initial_placement opts) ts))) \<le>
     sum_list (map (unat \<circ> weight_resident_bytes) (filter t_is_weight ts))"
  by (induction ts) (auto simp: would_pin_def)

lemma streamed_le_total:
  assumes "p \<in> set (filter (streams tight d) (map (initial_placement opts) ts))"
  shows "unat (sp_bytes p) \<le> sum_list (map (unat \<circ> weight_resident_bytes) (filter t_is_weight ts))"
proof -
  obtain t where t: "t \<in> set ts" "p = initial_placement opts t" using assms by auto
  then have "t \<in> set (filter t_is_weight ts)" using assms by (auto simp: streams_def)
  then have "unat (weight_resident_bytes t) \<in> set (map (unat \<circ> weight_resident_bytes) (filter t_is_weight ts))"
    by auto
  then show ?thesis using t(2) member_le_sum_list by fastforce
qed

lemma clamp_slots_range: "clamp_slots n = 1 \<or> clamp_slots n = 2"
  by (auto simp: clamp_slots_def)

lemma build_cases:
  assumes "build_storage_plan g opts = Inr s"
  obtains d cache where "choose_dial g opts = Inr (d, cache)" "s = finish_plan g opts d cache"
  using assms unfolding build_storage_plan_def rbind_Inr_conv by auto

lemma finish_fields [simp]:
  "st_placements (finish_plan g opts d cache) = (if needs_streaming g opts
     then map (settle (tight_budget opts) d) (placements_of g opts) else placements_of g opts)"
  "st_windows (finish_plan g opts d cache) =
     concat (map window_of (st_placements (finish_plan g opts d cache)))"
  "st_staging_slots (finish_plan g opts d cache) = clamp_slots (so_staging_slots opts)"
  "st_expert_cache_bytes (finish_plan g opts d cache) = cache"
  "st_expert_windows (finish_plan g opts d cache) =
     length (filter sp_expert (filter sp_stream (st_placements (finish_plan g opts d cache))))"
  "st_streaming_required (finish_plan g opts d cache) = needs_streaming g opts"
  "st_staging_bytes (finish_plan g opts d cache) =
     (if max_bytes (map sp_bytes (filter sp_stream (st_placements (finish_plan g opts d cache)))) > 0
      then max_bytes (map sp_bytes (filter sp_stream (st_placements (finish_plan g opts d cache))))
      else max_bytes (map weight_resident_bytes (filter t_is_weight (g_tensors g))))"
  by (simp_all add: finish_plan_def Let_def)

lemma placements_unstreamed: "\<forall>p \<in> set (placements_of g opts). \<not> sp_stream p"
  by (simp add: placements_of_def)

text \<open>C13. When planning succeeds under a budget of at least 1 MiB and some weight is
  streamed, everything the plan asks for fits: the resident weights, the staging buffers and the
  expert cache together are at most the RAM budget.  The weights are assumed to total less than
  2^62 bytes, so that no sum of the planner wraps.\<close>

theorem storage_plan_fits:
  assumes "build_storage_plan g opts = Inr s" and "2 ^ 20 \<le> so_ram_budget_bytes opts"
    and "\<exists>p \<in> set (st_placements s). sp_stream p" and "total_weight g < 2 ^ 62"
  shows "resident_bytes g s + nat (st_staging_slots s) * unat (st_staging_bytes s) +
    unat (st_expert_cache_bytes s) \<le> unat (so_ram_budget_bytes opts)"
proof -
  let ?ps = "placements_of g opts" and ?B = "so_ram_budget_bytes opts"
  let ?slots = "clamp_slots (so_staging_slots opts)"
  obtain d cache where c: "choose_dial g opts = Inr (d, cache)" and s: "s = finish_plan g opts d cache"
    by (rule build_cases [OF assms(1)])
  have tight: "tight_budget opts" using assms(2) by (simp add: tight_budget_def)
  have req: "needs_streaming g opts"
    using assms(3) placements_unstreamed [of g opts] by (auto simp: s split: if_splits)
  have pl: "st_placements s = map (settle True d) ?ps" using req tight by (simp add: s)
  let ?pin = "sum_u64 (map sp_bytes (filter (would_pin True d) ?ps))"
  let ?stage = "max_bytes (map sp_bytes (filter (streams True d) ?ps))"
  have st: "map sp_bytes (filter sp_stream (st_placements s)) = map sp_bytes (filter (streams True d) ?ps)"
    unfolding pl by (rule settled_streams [OF placements_unstreamed])
  obtain q where q: "q \<in> set (filter (streams True d) ?ps)"
    using assms(3) placements_unstreamed [of g opts] by (auto simp: pl settle_stream)
  then have "sp_bytes q \<le> ?stage" "sp_bytes q \<noteq> 0"
    by (auto intro!: max_bytes_ge simp: streams_def is_weight_placement_def)
  then have pos: "?stage > 0" by (metis word_gt_0 word_le_0_iff)
  have staging: "st_staging_bytes s = ?stage"
    using pos st by (simp add: s)
  have "fit_budget opts (word_of_int ?slots) ?ps
      \<lparr>d_pin_layers = so_pin_layers opts, d_pin_embed = True, d_pin_lm = True\<rparr> = Inr (d, cache)"
    using c req tight by (simp add: choose_dial_def Let_def)
  then have need: "?pin + ?stage * word_of_int ?slots \<le> ?B"
    and cache: "cache \<le> (if ?B > ?pin + ?stage * word_of_int ?slots
        then ?B - (?pin + ?stage * word_of_int ?slots) else 0)"
    using pos pin_and_staging_eq [of True d ?ps]
    by (auto simp: fit_budget_def Let_def case_prod_beta not_less split: if_splits)
  have res: "resident_bytes g s = sum_list (map (unat \<circ> sp_bytes) (filter (would_pin True d) ?ps))"
    unfolding resident_bytes_def pl placements_of_def resident_settled ..
  have pinle: "resident_bytes g s \<le> total_weight g"
    unfolding res total_weight_def placements_of_def by (rule pinned_le_total)
  then have upin: "unat ?pin = resident_bytes g s"
    using assms(4) unfolding res by (subst unat_sum_u64) auto
  have ustage: "unat ?stage \<le> total_weight g"
  proof -
    obtain r where "r \<in> set (filter (streams True d) ?ps)" "sp_bytes r = ?stage"
      using max_bytes_mem [of "map sp_bytes (filter (streams True d) ?ps)"] pos
      by (metis (no_types, lifting) image_iff less_irrefl set_map)
    then show ?thesis using streamed_le_total [of r True d opts "g_tensors g"]
      by (simp add: total_weight_def placements_of_def)
  qed
  have mul: "unat (?stage * word_of_int ?slots) = unat ?stage * nat ?slots"
    using clamp_slots_range [of "so_staging_slots opts"] ustage assms(4)
    by (auto simp: unat_word_ariths(2))
  have tot: "unat (?pin + ?stage * word_of_int ?slots) = unat ?pin + unat ?stage * nat ?slots"
  proof -
    have "unat ?pin + unat (?stage * word_of_int ?slots) < 2 ^ 64"
      unfolding mul upin using pinle ustage assms(4) clamp_slots_range [of "so_staging_slots opts"]
      by auto
    then show ?thesis by (simp add: unat_add_exact mul)
  qed
  have "unat cache + (unat ?pin + unat ?stage * nat ?slots) \<le> unat ?B"
    using cache need unfolding tot [symmetric]
    by (auto simp: word_le_nat_alt word_less_nat_alt unat_sub split: if_splits)
  moreover have "st_expert_cache_bytes s = cache" "st_staging_slots s = ?slots" by (simp_all add: s)
  ultimately show ?thesis unfolding staging upin [symmetric] by (simp add: mult.commute)
qed

lemma windows_of:
  "map sw_tensor_id (concat (map window_of ps)) = map sp_tensor_id (filter sp_stream ps)"
  "map sw_size (concat (map window_of ps)) = map sp_bytes (filter sp_stream ps)"
  by (induction ps) (simp_all add: window_of_def)

text \<open>C26. In every plan: the placements are those of the graph's tensors, in order; the
  windows are exactly the streamed placements with their sizes; when streaming is required every
  non-empty expert weight is streamed, and so is every other non-empty weight that is not moved
  to RAM; and when it is not required nothing is streamed.\<close>

theorem experts_never_pinned:
  assumes "build_storage_plan g opts = Inr s"
  shows "map sp_tensor_id (st_placements s) = map t_id (g_tensors g) \<and>
    map sw_tensor_id (st_windows s) = map sp_tensor_id (filter sp_stream (st_placements s)) \<and>
    map sw_size (st_windows s) = map sp_bytes (filter sp_stream (st_placements s)) \<and>
    (st_streaming_required s \<longrightarrow> (\<forall>p \<in> set (st_placements s). sp_bytes p \<noteq> 0 \<longrightarrow>
       (sp_expert p \<longrightarrow> sp_stream p) \<and> (sp_stream p \<or> sp_tier p = TierRam))) \<and>
    (\<not> st_streaming_required s \<longrightarrow> filter sp_stream (st_placements s) = [])"
proof -
  obtain d cache where s: "s = finish_plan g opts d cache" by (rule build_cases [OF assms])
  have ids: "map sp_tensor_id (st_placements s) = map t_id (g_tensors g)"
    by (simp add: s placements_of_def initial_placement_def comp_def)
  have settled: "(sp_expert (settle tight d p) \<longrightarrow> sp_stream (settle tight d p)) \<and>
      (sp_stream (settle tight d p) \<or> sp_tier (settle tight d p) = TierRam)"
    if mem: "p \<in> set (placements_of g opts)" and nz: "sp_bytes p \<noteq> 0" for p tight
  proof -
    obtain t where p: "p = initial_placement opts t" using mem by (auto simp: placements_of_def)
    show ?thesis
    proof (cases "t_is_weight t")
      case True
      then have "is_weight_placement p" using nz by (simp add: p)
      then show ?thesis by (auto simp: settle_def would_pin_def)
    next
      case False
      then have "sp_tier p = TierRam" "\<not> sp_expert p" "\<not> is_weight_placement p"
        by (simp_all add: p) (simp add: initial_placement_def)
      then show ?thesis by (simp add: settle_def)
    qed
  qed
  have "filter sp_stream (placements_of g opts) = []"
    using placements_unstreamed [of g opts] by (simp add: filter_empty_conv)
  with ids settled show ?thesis
    by (auto simp: s windows_of simp del: filter_empty_conv)
qed

text \<open>The loop takes at most one layer per step.\<close>

lemma tighten_pin_layers: "d_pin_layers (tighten k slot_n budget ps d) \<ge> d_pin_layers d - int k"
proof (induction k arbitrary: d)
  case (Suc k)
  from Suc.IH [of "d\<lparr>d_pin_layers := d_pin_layers d - 1\<rparr>"] Suc.IH [of "d\<lparr>d_pin_lm := False\<rparr>"]
    Suc.IH [of "d\<lparr>d_pin_embed := False\<rparr>"]
  show ?case by simp
qed simp

lemma tighten_done: "pin_need slot_n d ps \<le> budget \<Longrightarrow> tighten k slot_n budget ps d = d"
  by (cases k) auto

text \<open>C35. The loop stops after 64 steps even when pinned layers remain: if every weight is
  a dense layer-0 weight and more than 64 layers are asked to be pinned, planning succeeds with
  nothing streamed although the resident weights alone exceed the budget.\<close>

theorem tighten_stops_short:
  assumes "so_enable_streaming opts" and "2 ^ 20 \<le> so_ram_budget_bytes opts"
    and "so_ram_budget_bytes opts < weight_bytes (\<lambda>_. True) g" and "64 < so_pin_layers opts"
    and "\<forall>t \<in> set (g_tensors g). t_is_weight t \<and> name_has_layer (t_name t) 0 \<and>
      \<not> is_moe_expert_weight_name (t_name t)"
    and "total_weight g < 2 ^ 62"
  shows "\<exists>s. build_storage_plan g opts = Inr s \<and> st_windows s = [] \<and>
    resident_bytes g s = total_weight g \<and> unat (so_ram_budget_bytes opts) < resident_bytes g s"
proof -
  let ?ps = "placements_of g opts"
  let ?slots = "word_of_int (clamp_slots (so_staging_slots opts)) :: u64"
  define d where "d = tighten 64 ?slots (so_ram_budget_bytes opts) ?ps
      \<lparr>d_pin_layers = so_pin_layers opts, d_pin_embed = True, d_pin_lm = True\<rparr>"
  have "d_pin_layers d > 0"
    using tighten_pin_layers [of "\<lparr>d_pin_layers = so_pin_layers opts, d_pin_embed = True,
        d_pin_lm = True\<rparr>" 64 ?slots "so_ram_budget_bytes opts" ?ps] assms(4)
    by (simp add: d_def)
  then have "0 \<in> set [0..<nat (d_pin_layers d)]" by simp
  then have pin: "would_pin True d p \<longleftrightarrow> is_weight_placement p" if "p \<in> set ?ps" for p
    using that assms(5) by (auto simp: placements_of_def would_pin_def is_layer_pinned_def list_ex_iff)
  then have none: "filter (streams True d) ?ps = []"
    by (auto simp: streams_def filter_empty_conv)
  have "so_ram_budget_bytes opts \<noteq> 0" using assms(2) by auto
  then have zero: "0 < so_ram_budget_bytes opts" by (simp add: word_gt_0)
  have req: "needs_streaming g opts"
    using assms(1,3) zero by (simp add: needs_streaming_def pressure_def)
  have tight: "tight_budget opts" using assms(2) by (simp add: tight_budget_def)
  have "fst (snd (pin_and_staging True d ?ps)) = 0"
    by (simp add: pin_and_staging_eq none)
  then obtain cache where "fit_budget opts ?slots ?ps
      \<lparr>d_pin_layers = so_pin_layers opts, d_pin_embed = True, d_pin_lm = True\<rparr> = Inr (d, cache)"
    by (simp add: fit_budget_def Let_def case_prod_beta d_def [symmetric])
  then have ok: "choose_dial g opts = Inr (d, cache)"
    using req tight by (simp add: choose_dial_def Let_def)
  define s where "s = finish_plan g opts d cache"
  have b: "build_storage_plan g opts = Inr s" using ok by (simp add: build_storage_plan_def s_def)
  have pl: "st_placements s = map (settle True d) ?ps" using req tight by (simp add: s_def)
  have "map sp_bytes (filter sp_stream (st_placements s)) = []"
    unfolding pl settled_streams [OF placements_unstreamed] none by simp
  then have w: "st_windows s = []"
    by (simp add: s_def windows_of [symmetric] filter_empty_conv window_of_def)
  have res: "resident_bytes g s = sum_list (map (unat \<circ> sp_bytes) (filter (would_pin True d) ?ps))"
    unfolding resident_bytes_def pl placements_of_def resident_settled ..
  also have "filter (would_pin True d) ?ps = filter is_weight_placement ?ps"
    using pin by (rule filter_cong [OF refl])
  also have "sum_list (map (unat \<circ> sp_bytes) (filter is_weight_placement ?ps)) = total_weight g"
  proof -
    have "sum_list (map (unat \<circ> sp_bytes) (filter is_weight_placement (map (initial_placement opts) ts))) =
        sum_list (map (unat \<circ> weight_resident_bytes) (filter t_is_weight ts))" for ts
      by (induction ts) auto
    then show ?thesis by (simp add: placements_of_def total_weight_def)
  qed
  finally have tot: "resident_bytes g s = total_weight g" .
  have "unat (weight_bytes (\<lambda>_. True) g) = total_weight g"
    using assms(6) by (simp add: weight_bytes_def total_weight_def unat_sum_u64)
  then have "unat (so_ram_budget_bytes opts) < resident_bytes g s"
    using assms(3) tot by (simp add: word_less_nat_alt)
  with b w tot show ?thesis by blast
qed

section \<open>Witnesses\<close>

definition layer_weight :: "u64 \<Rightarrow> string \<Rightarrow> u64 \<Rightarrow> tensor" where
  "layer_weight i name n = tensor_default\<lparr>t_id := i, t_name := name, t_dtype := DT_F32,
     t_shape := [n], t_is_weight := True\<rparr>"

definition two_layers :: graph where
  "two_layers = graph_default\<lparr>g_tensors := [layer_weight 1 ''blk.0.w'' 262144,
     layer_weight 2 ''blk.1.w'' 262144, layer_weight 3 ''blk.2.w'' 262144]\<rparr>"

definition mib_options :: "int \<Rightarrow> u64 \<Rightarrow> storage_plan_options" where
  "mib_options pin budget = \<lparr>so_ram_budget_bytes = budget, so_prefer_mmap = True,
     so_enable_streaming = True, so_pin_layers = pin, so_expert_cache_bytes = 4096,
     so_staging_slots = 1\<rparr>"

lemma resident_layer [simp]: "weight_resident_bytes (layer_weight i name 262144) = 2 ^ 20"
  by (simp add: weight_resident_bytes_def layer_weight_def tensor_default_def
      is_gguf_block_quant_def less_eq_quant_format_def estimate_tensor_bytes_def shape_numel_def)

lemma layer_fields [simp]: "t_is_weight (layer_weight i name n)" "t_name (layer_weight i name n) = name"
  "t_id (layer_weight i name n) = i"
  by (simp_all add: layer_weight_def)

lemma two_layers_tensors: "g_tensors two_layers = [layer_weight 1 ''blk.0.w'' 262144,
     layer_weight 2 ''blk.1.w'' 262144, layer_weight 3 ''blk.2.w'' 262144]"
  by (simp add: two_layers_def)

lemma nat_dec_small: "n < 10 \<Longrightarrow> nat_dec n = [digit_char n]"
  by (simp add: nat_dec.simps [of n])

lemma digit_0: "digit_char 0 = CHR ''0''"
  by code_simp

theorem tighten_stops_short_witness:
  "\<exists>s. build_storage_plan (graph_default\<lparr>g_tensors := [layer_weight 1 ''blk.0.a'' 262144,
     layer_weight 2 ''blk.0.b'' 262144]\<rparr>) (mib_options 65 (2 ^ 20)) = Inr s \<and> st_windows s = []"
proof -
  let ?g = "graph_default\<lparr>g_tensors := [layer_weight 1 ''blk.0.a'' 262144,
     layer_weight 2 ''blk.0.b'' 262144]\<rparr>"
  have l: "name_has_layer ''blk.0.a'' 0" "name_has_layer ''blk.0.b'' 0"
    by (simp_all add: name_has_layer_def layer_patterns_def nat_dec_small digit_0)
  have e: "\<not> is_moe_expert_weight_name ''blk.0.a''" "\<not> is_moe_expert_weight_name ''blk.0.b''"
    by (simp_all add: is_moe_expert_weight_name_def)
  show ?thesis
    using tighten_stops_short [of "mib_options 65 (2 ^ 20)" ?g] l e
    by (auto simp: mib_options_def weight_bytes_def total_weight_def)
qed

lemma two_layers_pressure: "needs_streaming two_layers (mib_options 0 (2 ^ 21))"
  by (simp add: needs_streaming_def pressure_def mib_options_def weight_bytes_def two_layers_tensors)

lemma two_layers_streams:
  "\<exists>s. build_storage_plan two_layers (mib_options 0 (2 ^ 21)) = Inr s \<and>
     (\<exists>p \<in> set (st_placements s). sp_stream p)"
proof -
  let ?opts = "mib_options 0 (2 ^ 21)" and ?ps = "placements_of two_layers (mib_options 0 (2 ^ 21))"
  have names: "\<not> is_norm_name x \<and> \<not> is_embed_name x \<and> \<not> is_lm_head_name x \<and> \<not> is_moe_expert_weight_name x"
    if "x \<in> {''blk.0.w'', ''blk.1.w'', ''blk.2.w''}" for x
    using that by (auto simp: is_norm_name_def is_embed_name_def is_lm_head_name_def
        is_moe_expert_weight_name_def lower_def to_lower_char_def Let_def)
  have ps: "p \<in> set ?ps \<Longrightarrow> sp_bytes p = 2 ^ 20 \<and> is_weight_placement p \<and>
      sp_name p \<in> {''blk.0.w'', ''blk.1.w'', ''blk.2.w''}" for p
    by (auto simp: placements_of_def two_layers_tensors)
  have nopin: "\<not> would_pin True d p" if "p \<in> set ?ps" "d_pin_layers d = 0" for d p
    using ps [OF that(1)] names that(2) by (auto simp: would_pin_def is_layer_pinned_def)
  have stream: "filter (streams True d) ?ps = ?ps" "filter (would_pin True d) ?ps = []"
    if "d_pin_layers d = 0" for d
    using nopin that ps by (auto simp: streams_def filter_id_conv filter_empty_conv)
  have max: "max_bytes (map sp_bytes ?ps) = 2 ^ 20"
    by (simp add: placements_of_def two_layers_tensors max_bytes_def)
  have need: "pin_need 1 d ?ps = 2 ^ 20" if "d_pin_layers d = 0" for d
    using pin_and_staging_eq [of True d ?ps] stream [OF that] max
    by (simp add: pin_need_def case_prod_beta)
  let ?d = "\<lparr>d_pin_layers = 0, d_pin_embed = True, d_pin_lm = True\<rparr> :: dial"
  have slots: "word_of_int (clamp_slots (so_staging_slots ?opts)) = (1 :: u64)"
    by (simp add: mib_options_def clamp_slots_def)
  have t: "tighten 64 1 (2 ^ 21) ?ps ?d = ?d"
    by (rule tighten_done) (use need [of ?d] in simp)
  have "\<exists>cache. choose_dial two_layers ?opts = Inr (?d, cache)"
  proof -
    have "tight_budget ?opts" by (simp add: tight_budget_def mib_options_def)
    moreover have f: "so_ram_budget_bytes ?opts = 2 ^ 21" "so_pin_layers ?opts = 0"
      by (simp_all add: mib_options_def)
    moreover have "fst (pin_and_staging True ?d ?ps) + fst (snd (pin_and_staging True ?d ?ps)) \<le> 2 ^ 21"
      using pin_and_staging_eq [of True ?d ?ps] stream [of ?d] max by simp
    ultimately show ?thesis
      using two_layers_pressure t unfolding choose_dial_def fit_budget_def slots Let_def f
      by (simp add: case_prod_beta not_less)
  qed
  then obtain cache where c: "choose_dial two_layers ?opts = Inr (?d, cache)" by blast
  let ?s = "finish_plan two_layers ?opts ?d cache"
  have "st_placements ?s = map (settle True ?d) ?ps"
    using two_layers_pressure by (simp add: tight_budget_def mib_options_def)
  moreover have "\<forall>p \<in> set ?ps. streams True ?d p"
    using stream(1) [of ?d] by (simp only: filter_id_conv) simp
  moreover have "?ps \<noteq> []" by (simp add: placements_of_def two_layers_tensors)
  ultimately have "\<exists>p \<in> set (st_placements ?s). sp_stream p"
    using placements_unstreamed [of two_layers ?opts] by (cases ?ps) (auto simp: settle_stream)
  with c show ?thesis by (simp add: build_storage_plan_def)
qed

theorem storage_plan_fits_witness:
  "\<exists>s. build_storage_plan two_layers (mib_options 0 (2 ^ 21)) = Inr s \<and>
     resident_bytes two_layers s + nat (st_staging_slots s) * unat (st_staging_bytes s) +
       unat (st_expert_cache_bytes s) \<le> 2 ^ 21"
proof -
  obtain s where s: "build_storage_plan two_layers (mib_options 0 (2 ^ 21)) = Inr s"
    "\<exists>p \<in> set (st_placements s). sp_stream p"
    using two_layers_streams by blast
  have "total_weight two_layers < 2 ^ 62" by (simp add: total_weight_def two_layers_tensors)
  moreover have "2 ^ 20 \<le> so_ram_budget_bytes (mib_options 0 (2 ^ 21))"
    "unat (so_ram_budget_bytes (mib_options 0 (2 ^ 21))) = 2 ^ 21"
    by (simp_all add: mib_options_def)
  ultimately show ?thesis using storage_plan_fits [OF s(1) _ s(2)] s(1) by auto
qed

theorem experts_never_pinned_witness:
  "\<exists>s. build_storage_plan two_layers (mib_options 0 (2 ^ 21)) = Inr s \<and>
     map sp_tensor_id (st_placements s) = [1, 2, 3] \<and>
     map sw_size (st_windows s) = map sp_bytes (filter sp_stream (st_placements s))"
proof -
  obtain s where s: "build_storage_plan two_layers (mib_options 0 (2 ^ 21)) = Inr s"
    using two_layers_streams by blast
  from experts_never_pinned [OF s] s show ?thesis by (auto simp: two_layers_tensors)
qed

end
