(* ===== verification/Optimize.thy ===== *)
theory Optimize
  imports Plan_Cache Fusion Memory_Plan Storage_Plan
begin

text \<open>
  \<open>optimize_graph\<close> (\<open>planner/optimize.hpp\<close>, \<open>optimize.cpp\<close>): fusion, then an execution plan from the cache or
  built, then the memory and the storage plan.  The process-wide plan cache is state that the
  call returns; the remaining parameters are those of the parts: the iteration orders \<open>hm\<close>, \<open>hs\<close>
  and \<open>hl\<close> of the hash containers, the string hash, the cache directory and which of its files
  can be written.  \<open>None\<close> is a planning loop that does not end, which \<open>build_execution_plan_returns\<close>
  excludes.
\<close>

section \<open>Options and results\<close>

record optimize_options =
  oo_enable_fusion :: bool
  oo_enable_memory_reuse :: bool
  oo_enable_storage_plan :: bool
  oo_enable_plan_cache :: bool
  oo_enable_streaming :: bool
  oo_ram_budget_bytes :: u64
  oo_prefer_mmap :: bool
  oo_pin_layers :: int
  oo_expert_cache_bytes :: u64
  oo_staging_slots :: int

definition optimize_defaults :: optimize_options where
  "optimize_defaults = \<lparr>oo_enable_fusion = True, oo_enable_memory_reuse = True, oo_enable_storage_plan = True,
     oo_enable_plan_cache = True, oo_enable_streaming = False, oo_ram_budget_bytes = 0, oo_prefer_mmap = True,
     oo_pin_layers = 0, oo_expert_cache_bytes = 0, oo_staging_slots = 2\<rparr>"

record optimize_result =
  or_graph :: graph
  or_plan :: execution_plan
  or_fusion :: fusion_stats
  or_memory :: memory_reuse_plan
  or_storage :: storage_plan
  or_cache_hit :: bool
  or_summary :: string

definition no_memory_plan :: memory_reuse_plan where
  "no_memory_plan = \<lparr>mr_lifetimes = [], mr_slots = [], mr_tensor_to_slot = Map.empty, mr_naive_bytes = 0,
     mr_peak_bytes = 0, mr_weight_bytes = 0, mr_summary = []\<rparr>"

definition no_storage_plan :: storage_plan where
  "no_storage_plan = \<lparr>st_placements = [], st_windows = [], st_ram_budget_bytes = 0, st_total_weight_bytes = 0,
     st_staging_bytes = 0, st_staging_slots = 2, st_expert_cache_bytes = 0, st_expert_windows = 0,
     st_streaming_required = False, st_summary = []\<rparr>"

definition storage_options :: "optimize_options \<Rightarrow> storage_plan_options" where
  "storage_options opts = \<lparr>so_ram_budget_bytes = oo_ram_budget_bytes opts, so_prefer_mmap = oo_prefer_mmap opts,
     so_enable_streaming = oo_enable_streaming opts, so_pin_layers = oo_pin_layers opts,
     so_expert_cache_bytes = oo_expert_cache_bytes opts, so_staging_slots = oo_staging_slots opts\<rparr>"

section \<open>The pipeline\<close>

definition fuse :: "optimize_options \<Rightarrow> graph \<Rightarrow> graph \<times> fusion_stats" where
  "fuse opts g = (if oo_enable_fusion opts then apply_fusion_passes g
     else (g, \<lparr>fs_identity_removed = 0, fs_matmul_relu_fused = 0, fs_nodes_before = length (g_nodes g),
       fs_nodes_after = length (g_nodes g)\<rparr>))"

definition plan_or_cached ::
  "(u64 list \<Rightarrow> u64 \<Rightarrow> nat) \<Rightarrow> (u64 list \<Rightarrow> u64 \<Rightarrow> nat) \<Rightarrow> (string \<Rightarrow> bool) \<Rightarrow> string \<Rightarrow> string \<Rightarrow> optimize_options
     \<Rightarrow> graph \<Rightarrow> plan_cache \<Rightarrow> ((error + execution_plan \<times> bool) \<times> plan_cache) option" where
  "plan_or_cached hm hs can_write dir key opts g c =
     (let (found, c) = (if oo_enable_plan_cache opts then cache_get dir key c else (None, c)) in
      case found of Some p \<Rightarrow> Some (Inr (p, True), c)
      | None \<Rightarrow> (case build_execution_plan hm hs g of None \<Rightarrow> None
          | Some (Inl e) \<Rightarrow> Some (Inl e, c)
          | Some (Inr p) \<Rightarrow> Some (Inr (p, False),
              if oo_enable_plan_cache opts then cache_put can_write dir key p c else c)))"

definition optimize_summary :: "fusion_stats \<Rightarrow> memory_reuse_plan \<Rightarrow> storage_plan \<Rightarrow> bool \<Rightarrow> string" where
  "optimize_summary f m s hit = ''fusion nodes '' @ nat_dec (fs_nodes_before f) @
     [CHR 0xE2, CHR 0x86, CHR 0x92] @ nat_dec (fs_nodes_after f) @ '' (matmul_relu='' @
     nat_dec (fs_matmul_relu_fused f) @ '', identity='' @ nat_dec (fs_identity_removed f) @ '')'' @ ''; '' @
     mr_summary m @ ''; '' @ st_summary s @ ''; cache='' @ (if hit then ''hit'' else ''miss'')"

definition optimize_graph ::
  "(u64 list \<Rightarrow> u64 \<Rightarrow> nat) \<Rightarrow> (u64 list \<Rightarrow> u64 \<Rightarrow> nat) \<Rightarrow> (u64 list \<Rightarrow> u64 \<Rightarrow> nat) \<Rightarrow> (string \<Rightarrow> u64) \<Rightarrow> (string \<Rightarrow> bool)
     \<Rightarrow> string \<Rightarrow> optimize_options \<Rightarrow> graph \<Rightarrow> plan_cache \<Rightarrow> ((error + optimize_result) \<times> plan_cache) option" where
  "optimize_graph hm hs hl hash can_write dir opts g c =
     (let (g, stats) = fuse opts g; key = fingerprint hash g (oo_enable_fusion opts) in
      case plan_or_cached hm hs can_write dir key opts g c of
        None \<Rightarrow> None
      | Some (Inl e, c) \<Rightarrow> Some (Inl e, c)
      | Some (Inr (p, hit), c) \<Rightarrow>
          let m = (if oo_enable_memory_reuse opts then build_memory_reuse_plan hl g p else no_memory_plan) in
          Some (case (if oo_enable_storage_plan opts then build_storage_plan g (storage_options opts)
                else Inr no_storage_plan) of
              Inl e \<Rightarrow> Inl e
            | Inr s \<Rightarrow> Inr \<lparr>or_graph = g, or_plan = p, or_fusion = stats, or_memory = m, or_storage = s,
                or_cache_hit = hit, or_summary = optimize_summary stats m s hit\<rparr>, c))"

section \<open>What the pipeline returns\<close>

lemma fuse_sound:
  assumes "op_laws sem" and "sat sem env g"
  shows "sat sem env (fst (fuse opts g))"
  using fuse_matmul_relu_sound [OF assms(1) remove_identities_sound [OF assms]] assms(2)
  by (simp add: fuse_def apply_fusion_passes_def Let_def case_prod_beta)

lemma fuse_io [simp]:
  "g_inputs (fst (fuse opts g)) = g_inputs g" "g_outputs (fst (fuse opts g)) = g_outputs g"
  by (simp_all add: fuse_def apply_fusion_passes_def Let_def case_prod_beta)

lemma optimize_cases:
  assumes "optimize_graph hm hs hl hash can_write dir opts g c = Some (Inr r, c')"
  obtains p hit where
    "plan_or_cached hm hs can_write dir (fingerprint hash (fst (fuse opts g)) (oo_enable_fusion opts)) opts
       (fst (fuse opts g)) c = Some (Inr (p, hit), c')"
    "or_graph r = fst (fuse opts g)" "or_plan r = p" "or_cache_hit r = hit"
    "or_memory r = (if oo_enable_memory_reuse opts then build_memory_reuse_plan hl (fst (fuse opts g)) p
       else no_memory_plan)"
    "oo_enable_storage_plan opts \<longrightarrow> build_storage_plan (fst (fuse opts g)) (storage_options opts) = Inr (or_storage r)"
  using assms
  by (auto simp: optimize_graph_def Let_def case_prod_beta split: option.splits sum.splits if_splits)

lemma plan_uncached:
  assumes "plan_or_cached hm hs can_write dir key opts g c = Some (Inr (p, hit), c')" and "\<not> hit"
  shows "build_execution_plan hm hs g = Some (Inr p)"
  using assms by (auto simp: plan_or_cached_def Let_def split: option.splits sum.splits prod.splits if_splits)

text \<open>After a successful call with the cache on, the plan is in the table.\<close>

lemma plan_is_cached:
  assumes "plan_or_cached hm hs can_write dir key opts g c = Some (Inr (p, hit), c')"
    and "oo_enable_plan_cache opts"
  shows "cache_get dir key c' = (Some p, c')"
proof (cases "fst (cache_get dir key c)")
  case None
  then have "c' = cache_put can_write dir key p (snd (cache_get dir key c))"
    using assms by (auto simp: plan_or_cached_def Let_def case_prod_beta split: option.splits sum.splits)
  then show ?thesis by (simp add: cache_get_def cache_put_def Let_def)
next
  case (Some q)
  then have q: "q = p" "c' = snd (cache_get dir key c)"
    using assms by (auto simp: plan_or_cached_def Let_def case_prod_beta)
  show ?thesis
  proof (cases "map_of (pc_entries c) key")
    case None
    with Some q show ?thesis by (auto simp: cache_get_def split: option.splits if_splits)
  next
    case (Some v)
    with \<open>fst (cache_get dir key c) = Some q\<close> q show ?thesis by (auto simp: cache_get_def)
  qed
qed



section \<open>Witnesses\<close>

definition plain_options :: optimize_options where
  "plain_options = optimize_defaults\<lparr>oo_enable_fusion := False, oo_enable_storage_plan := False\<rparr>"

definition no_cache :: plan_cache where
  "no_cache = \<lparr>pc_entries = [], pc_files = Map.empty\<rparr>"

definition zero_sem :: "int semantics" where
  "zero_sem op ver as xs = (if op = ''Identity'' then xs else [0])"

lemma zero_sem_laws: "op_laws zero_sem"
  by (auto simp: op_laws_def zero_sem_def)

lemma built_plan_io:
  "build_execution_plan hm hs g = Some (Inr p) \<Longrightarrow> ep_graph_outputs p = g_outputs g"
  by (auto simp: build_execution_plan_def plan_skeleton_def Let_def split: if_splits option.splits)

text \<open>The three-node chain is optimised from an empty cache.\<close>

lemma chain_optimized:
  obtains r c where "optimize_graph (\<lambda>_ _. 0) (\<lambda>_ _. 0) (\<lambda>_ _. 0) (\<lambda>_. 0) (\<lambda>_. False) [] plain_options chain_graph
      no_cache = Some (Inr r, c)" "\<not> or_cache_hit r" "or_graph r = chain_graph"
    "ep_graph_outputs (or_plan r) = g_outputs chain_graph"
proof -
  obtain p where p: "build_execution_plan (\<lambda>_ _. 0) (\<lambda>_ _. 0) chain_graph = Some (Inr p)"
    using demo_plan_ok by (auto simp: demo_plan_def)
  then have "\<exists>r c. optimize_graph (\<lambda>_ _. 0) (\<lambda>_ _. 0) (\<lambda>_ _. 0) (\<lambda>_. 0) (\<lambda>_. False) [] plain_options chain_graph
      no_cache = Some (Inr r, c) \<and> \<not> or_cache_hit r \<and> or_graph r = chain_graph \<and> or_plan r = p"
    by (simp add: optimize_graph_def plan_or_cached_def fuse_def plain_options_def optimize_defaults_def Let_def
      cache_get_def no_cache_def)
  with that show thesis using built_plan_io [OF p] by auto
qed



end
