(* ===== verification/Kv_Cache.thy ===== *)
theory Kv_Cache
  imports Ir_Types
begin

text \<open>
  \<open>KvCache\<close> (\<open>runtime/kv_cache.hpp\<close>): the keys and values of the tokens a decoder has seen, kept in
  one flat buffer per layer of \<open>batch * max_seq\<close> rows, with a window that slides over the sequence
  while the first \<open>sink\<close> tokens stay.  An element of a buffer is a value of the type \<open>'f\<close> of
  floats, nothing else being known of it.  The \<open>std::int64_t\<close> members are integers: all of them
  are positions or sizes in a buffer that exists.  An operation that fails after changing the
  cache returns the changed cache.  The specification is the list of rows of one layer and one
  batch element; the window is a function on lists.
\<close>

section \<open>Tensor views\<close>

record 'f tensor_view =
  tv_dtype :: dtype
  tv_shape :: "int list"
  tv_data :: "'f list option"

definition tv_dim :: "'f tensor_view \<Rightarrow> nat \<Rightarrow> int" where
  "tv_dim t i = (if i < length (tv_shape t) then tv_shape t ! i else 1)"

definition no_view :: "'f tensor_view" where
  "no_view = \<lparr>tv_dtype = DT_Unknown, tv_shape = [], tv_data = None\<rparr>"

definition floats :: "'f tensor_view \<Rightarrow> 'f list" where
  "floats t = (case tv_data t of None \<Rightarrow> [] | Some fs \<Rightarrow> fs)"

section \<open>The cache\<close>

record 'f kv_cache =
  kv_n_layers :: int
  kv_batch :: int
  kv_max_seq :: int
  kv_k_dim :: int
  kv_v_dim :: int
  kv_n_heads :: int
  kv_past_len :: int
  kv_pending :: int
  kv_abs_pos :: int
  kv_rope_scale_len :: int
  kv_sink :: int
  kv_k :: "'f list list"
  kv_v :: "'f list list"

definition kv_new :: "'f kv_cache" where
  "kv_new = \<lparr>kv_n_layers = 0, kv_batch = 0, kv_max_seq = 0, kv_k_dim = 0, kv_v_dim = 0, kv_n_heads = 0,
     kv_past_len = 0, kv_pending = 0, kv_abs_pos = 0, kv_rope_scale_len = 0, kv_sink = 4, kv_k = [], kv_v = []\<rparr>"

definition kv_error :: "string \<Rightarrow> error" where
  "kv_error m = Error InvalidArgument m"

text \<open>The element count is a product of \<open>std::size_t\<close>.\<close>

definition kv_elems :: "int \<Rightarrow> int \<Rightarrow> int \<Rightarrow> nat" where
  "kv_elems batch max_seq d = nat (batch * max_seq * d) mod 2 ^ 64"

definition kv_configure ::
    "'f \<Rightarrow> int \<Rightarrow> int \<Rightarrow> int \<Rightarrow> int \<Rightarrow> int \<Rightarrow> int \<Rightarrow> int \<Rightarrow> 'f kv_cache \<Rightarrow> error + 'f kv_cache" where
  "kv_configure zero n_layers batch max_seq k_dim v_dim n_heads sink c =
     (if n_layers \<le> 0 \<or> batch \<le> 0 \<or> max_seq \<le> 0 \<or> k_dim \<le> 0 \<or> v_dim \<le> 0 \<or> n_heads \<le> 0
      then Inl (kv_error ''KvCache::configure invalid dims'')
      else if k_dim mod n_heads \<noteq> 0 then Inl (kv_error ''KvCache k_dim not divisible by n_heads'')
      else let sink = (if sink < 0 then 0 else sink) in
        Inr (c\<lparr>kv_n_layers := n_layers, kv_batch := batch, kv_max_seq := max_seq, kv_k_dim := k_dim,
          kv_v_dim := v_dim, kv_n_heads := n_heads, kv_sink := (if sink \<ge> max_seq then 0 else sink),
          kv_past_len := 0, kv_pending := 0, kv_abs_pos := 0,
          kv_k := replicate (nat n_layers) (replicate (kv_elems batch max_seq k_dim) zero),
          kv_v := replicate (nat n_layers) (replicate (kv_elems batch max_seq v_dim) zero)\<rparr>))"

definition kv_reset :: "'f \<Rightarrow> 'f kv_cache \<Rightarrow> 'f kv_cache" where
  "kv_reset zero c = c\<lparr>kv_past_len := 0, kv_pending := 0, kv_abs_pos := 0, kv_rope_scale_len := 0,
     kv_k := map (map (\<lambda>_. zero)) (kv_k c), kv_v := map (map (\<lambda>_. zero)) (kv_v c)\<rparr>"

definition kv_rope_pos :: "'f kv_cache \<Rightarrow> int" where
  "kv_rope_pos c = kv_abs_pos c"

definition kv_set_rope_scale_len :: "int \<Rightarrow> 'f kv_cache \<Rightarrow> 'f kv_cache" where
  "kv_set_rope_scale_len n c = c\<lparr>kv_rope_scale_len := (if n > 0 then n else 0)\<rparr>"

definition kv_configured :: "'f kv_cache \<Rightarrow> bool" where
  "kv_configured c \<longleftrightarrow> kv_n_layers c > 0"

definition kv_ensure_capacity :: "int \<Rightarrow> 'f kv_cache \<Rightarrow> error + unit" where
  "kv_ensure_capacity seq c = (if \<not> kv_configured c then Inl (kv_error ''KvCache not configured'')
     else if seq < 0 \<or> seq > kv_max_seq c
     then Inl (kv_error (''KvCache capacity exceeded: seq='' @ int_dec seq @ '' max_seq='' @ int_dec (kv_max_seq c)))
     else Inr ())"

definition parse_kv_shape :: "'f tensor_view \<Rightarrow> error + int \<times> int \<times> int" where
  "parse_kv_shape t = (if tv_dtype t \<noteq> DT_F32 \<or> tv_data t = None then Inl (kv_error ''KvCache expects f32 views'')
     else if length (tv_shape t) = 2 then Inr (tv_dim t 0, 1, tv_dim t 1)
     else if length (tv_shape t) = 3 then Inr (tv_dim t 0, tv_dim t 1, tv_dim t 2)
     else Inl (kv_error ''KvCache expects rank 2 or 3''))"

text \<open>\<open>memcpy\<close> and \<open>memmove\<close> of \<open>n\<close> elements from offset \<open>s\<close> of \<open>src\<close> to offset \<open>d\<close> of \<open>dst\<close>.\<close>

definition blit :: "'a list \<Rightarrow> nat \<Rightarrow> 'a list \<Rightarrow> nat \<Rightarrow> nat \<Rightarrow> 'a list" where
  "blit dst d src s n = take d dst @ take n (drop s src) @ drop (d + n) dst"

definition slide_buffer :: "nat \<Rightarrow> nat \<Rightarrow> nat \<Rightarrow> nat \<Rightarrow> nat \<Rightarrow> nat \<Rightarrow> 'f list \<Rightarrow> 'f list" where
  "slide_buffer batch max_seq d keep dropped tail buf = fold (\<lambda>b buf. if tail > 0
     then blit buf ((b * max_seq + keep) * d) buf ((b * max_seq + keep + dropped) * d) (tail * d) else buf)
     [0..<batch] buf"

definition compact_to_fit :: "int \<Rightarrow> 'f kv_cache \<Rightarrow> 'f kv_cache" where
  "compact_to_fit incoming c =
     (let need = kv_past_len c + incoming; keep = min (kv_sink c) (kv_past_len c);
          movable = kv_past_len c - keep; dropped = min (need - kv_max_seq c) movable;
          tail = kv_past_len c - keep - dropped;
          slide = (\<lambda>d. slide_buffer (nat (kv_batch c)) (nat (kv_max_seq c)) (nat d) (nat keep)
            (nat dropped) (nat tail))
      in if need \<le> kv_max_seq c \<or> dropped \<le> 0 then c
         else c\<lparr>kv_k := map (slide (kv_k_dim c)) (kv_k c), kv_v := map (slide (kv_v_dim c)) (kv_v c),
           kv_past_len := kv_past_len c - dropped\<rparr>)"

definition write_rows :: "nat \<Rightarrow> nat \<Rightarrow> nat \<Rightarrow> nat \<Rightarrow> nat \<Rightarrow> 'f list \<Rightarrow> 'f list \<Rightarrow> 'f list" where
  "write_rows batch seq max_seq past d src dst = fold (\<lambda>b dst. fold (\<lambda>s dst.
     blit dst ((b * max_seq + past + s) * d) src ((b * seq + s) * d) d) [0..<seq] dst) [0..<batch] dst"

definition kv_append_layer ::
    "int \<Rightarrow> 'f tensor_view \<Rightarrow> 'f tensor_view \<Rightarrow> 'f kv_cache \<Rightarrow> (error + unit) \<times> 'f kv_cache" where
  "kv_append_layer layer k v c =
     (if \<not> kv_configured c then (Inl (kv_error ''KvCache not configured''), c)
      else if layer < 0 \<or> layer \<ge> kv_n_layers c then (Inl (kv_error ''KvCache layer out of range''), c)
      else case rbind (parse_kv_shape k) (\<lambda>ks. rbind (parse_kv_shape v) (\<lambda>vs. Inr (ks, vs))) of
        Inl e \<Rightarrow> (Inl e, c)
      | Inr ((batch, seq, kd), (vb, vs, vd)) \<Rightarrow>
          if batch \<noteq> kv_batch c \<or> vb \<noteq> kv_batch c \<or> kd \<noteq> kv_k_dim c \<or> vd \<noteq> kv_v_dim c \<or> seq \<noteq> vs
          then (Inl (kv_error ''KvCache append shape mismatch''), c)
          else if seq > kv_max_seq c then (Inl (kv_error ''KvCache append seq exceeds window''), c)
          else let c = compact_to_fit seq c in
            (case kv_ensure_capacity (kv_past_len c + seq) c of Inl e \<Rightarrow> (Inl e, c)
             | Inr _ \<Rightarrow>
                 let put = (\<lambda>d. write_rows (nat (kv_batch c)) (nat seq) (nat (kv_max_seq c))
                       (nat (kv_past_len c)) (nat d)); l = nat layer
                 in (Inr (), c\<lparr>kv_k := (kv_k c)[l := put (kv_k_dim c) (floats k) (kv_k c ! l)],
                      kv_v := (kv_v c)[l := put (kv_v_dim c) (floats v) (kv_v c ! l)],
                      kv_pending := seq\<rparr>)))"

definition kv_commit_step :: "'f kv_cache \<Rightarrow> 'f kv_cache" where
  "kv_commit_step c = c\<lparr>kv_abs_pos := kv_abs_pos c + kv_pending c,
     kv_past_len := kv_past_len c + kv_pending c, kv_pending := 0\<rparr>"

text \<open>A past view: the storage itself, or a packed copy when the rows of the batch do not lie together.\<close>

definition make_past_view :: "int \<Rightarrow> bool \<Rightarrow> 'f kv_cache \<Rightarrow> 'f tensor_view" where
  "make_past_view layer is_k c =
     (if \<not> kv_configured c \<or> layer < 0 \<or> layer \<ge> kv_n_layers c \<or> kv_past_len c \<le> 0 then no_view
      else let d = (if is_k then kv_k_dim c else kv_v_dim c);
               src = (if is_k then kv_k c else kv_v c) ! nat layer;
               p = nat (kv_past_len c); m = nat (kv_max_seq c);
               n = nat (kv_batch c) * p * nat d
           in \<lparr>tv_dtype = DT_F32, tv_shape = [kv_batch c, kv_past_len c, d],
               tv_data = Some (if kv_batch c = 1 \<or> kv_past_len c = kv_max_seq c then take n src
                 else concat (map (\<lambda>b. take (p * nat d) (drop (b * m * nat d) src)) [0..<nat (kv_batch c)]))\<rparr>)"

section \<open>Rows\<close>

definition row :: "nat \<Rightarrow> nat \<Rightarrow> 'a list \<Rightarrow> 'a list" where
  "row d m buf = take d (drop (m * d) buf)"

lemma blit_nth:
  assumes "d + n \<le> length dst" and "s + n \<le> length src" and "p < length dst"
  shows "blit dst d src s n ! p = (if d \<le> p \<and> p < d + n then src ! (s + (p - d)) else dst ! p)"
proof -
  have "length (take n (drop s src)) = n" "length (take d dst) = d" using assms by simp_all
  then show ?thesis using assms by (auto simp: blit_def nth_append)
qed

lemma length_blit [simp]:
  "d + n \<le> length dst \<Longrightarrow> s + n \<le> length src \<Longrightarrow> length (blit dst d src s n) = length dst"
  by (simp add: blit_def)

lemma blit_take: "blit dst d (take n src) 0 n = blit dst d src 0 n"
  by (simp add: blit_def)

lemma row_index:
  fixes d :: nat
  assumes "k < d"
  shows "i * d \<le> m * d + k \<longleftrightarrow> i \<le> m" "m * d + k < i * d \<longleftrightarrow> m < i"
proof -
  have "(m * d + k) div d = m" using assms by simp
  then show "i * d \<le> m * d + k \<longleftrightarrow> i \<le> m"
    using assms by (metis less_eq_div_iff_mult_less_eq gr_implies_not0 neq0_conv)
  then show "m * d + k < i * d \<longleftrightarrow> m < i" by linarith
qed

lemma row_in_bounds:
  fixes d :: nat
  assumes "k < d" "m < n"
  shows "m * d + k < n * d"
  using assms by (simp add: row_index(2))

lemma length_row: "Suc m * d \<le> length buf \<Longrightarrow> length (row d m buf) = d"
  by (simp add: row_def)

lemma row_nth: "k < d \<Longrightarrow> Suc m * d \<le> length buf \<Longrightarrow> row d m buf ! k = buf ! (m * d + k)"
  by (simp add: row_def)

lemma row_blit:
  assumes "(i + n) * d \<le> length dst" and "(j + n) * d \<le> length src" and "Suc m * d \<le> length dst"
  shows "row d m (blit dst (i * d) src (j * d) (n * d)) =
    (if i \<le> m \<and> m < i + n then row d (j + (m - i)) src else row d m dst)"
    (is "row d m ?B = ?R")
proof -
  have fits: "i * d + n * d \<le> length dst" "j * d + n * d \<le> length src"
    using assms by (simp_all add: add_mult_distrib)
  have len: "length ?B = length dst" using fits by simp
  have in_src: "Suc (j + (m - i)) * d \<le> length src" if "i \<le> m" "m < i + n"
  proof -
    have "Suc (j + (m - i)) * d \<le> (j + n) * d" using that by (intro mult_le_mono1) linarith
    with assms(2) show ?thesis by linarith
  qed
  have "?B ! (m * d + k) = (if i \<le> m \<and> m < i + n then src ! ((j + (m - i)) * d + k) else dst ! (m * d + k))"
    if k: "k < d" for k
  proof -
    have "m * d + k < length dst" using row_in_bounds [OF k, of m "Suc m"] assms(3) by linarith
    then have "?B ! (m * d + k) = (if i * d \<le> m * d + k \<and> m * d + k < (i + n) * d
        then src ! (j * d + (m * d + k - i * d)) else dst ! (m * d + k))"
      using fits by (simp add: blit_nth add_mult_distrib)
    also have "j * d + (m * d + k - i * d) = (j + (m - i)) * d + k" if "i \<le> m"
    proof -
      have "i * d \<le> m * d" using that by (rule mult_le_mono1)
      then show ?thesis unfolding add_mult_distrib diff_mult_distrib by linarith
    qed
    then have "(if i * d \<le> m * d + k \<and> m * d + k < (i + n) * d
        then src ! (j * d + (m * d + k - i * d)) else dst ! (m * d + k)) =
        (if i \<le> m \<and> m < i + n then src ! ((j + (m - i)) * d + k) else dst ! (m * d + k))"
      by (simp only: row_index [OF k]) auto
    finally show ?thesis .
  qed
  then show ?thesis
    using assms(3) len in_src by (intro nth_equalityI) (simp_all add: length_row row_nth)
qed

text \<open>Row \<open>b * M + i\<close> belongs to block \<open>b\<close>.\<close>

lemma block_range:
  fixes M :: nat
  assumes "i < M" and "k + t \<le> M"
  shows "(c * M + k \<le> b * M + i \<and> b * M + i < c * M + k + t) \<longleftrightarrow> (b = c \<and> k \<le> i \<and> i < k + t)"
proof -
  have lt: "x * M + M \<le> y * M" if "x < y" for x y
    using that by (metis Suc_leI add.commute mult_Suc mult_le_mono1)
  show ?thesis
    using assms lt [of b c] lt [of c b] by (cases b c rule: linorder_cases) auto
qed

text \<open>The rows of one batch element that are in use, and what the two loops do to them.\<close>

definition rows :: "nat \<Rightarrow> nat \<Rightarrow> nat \<Rightarrow> nat \<Rightarrow> 'a list \<Rightarrow> 'a list list" where
  "rows d max_seq past b buf = map (\<lambda>i. row d (b * max_seq + i) buf) [0..<past]"

lemma length_rows [simp]: "length (rows d M past b buf) = past"
  by (simp add: rows_def)

lemma row_fits:
  fixes d :: nat
  assumes "b < B" "i < M" "B * M * d \<le> n"
  shows "Suc (b * M + i) * d \<le> n"
proof -
  have "Suc (b * M + i) \<le> Suc b * M" using assms(2) by simp
  also have "\<dots> \<le> B * M" using assms(1) by (intro mult_le_mono1) simp
  finally have "Suc (b * M + i) * d \<le> B * M * d" by (rule mult_le_mono1)
  with assms(3) show ?thesis by linarith
qed

lemma rows_fit:
  fixes d :: nat
  assumes "b < B" "k + t \<le> M" "B * M * d \<le> n"
  shows "(b * M + k + t) * d \<le> n"
proof -
  have "b * M + k + t \<le> Suc b * M" using assms(2) by simp
  also have "\<dots> \<le> B * M" using assms(1) by (intro mult_le_mono1) simp
  finally have "(b * M + k + t) * d \<le> B * M * d" by (rule mult_le_mono1)
  with assms(3) show ?thesis by linarith
qed

abbreviation block :: "nat \<Rightarrow> nat \<Rightarrow> nat \<Rightarrow> 'a list \<Rightarrow> 'a list list" where
  "block d M b buf \<equiv> rows d M M b buf"

lemma rows_block: "past \<le> M \<Longrightarrow> rows d M past b buf = take past (block d M b buf)"
  by (simp add: rows_def take_map)

lemma block_blit:
  assumes "b < B" "c < B" "k + n \<le> M" "(j + n) * d \<le> length src" "length dst = B * M * d"
  shows "block d M c (blit dst ((b * M + k) * d) src (j * d) (n * d)) =
    (if c = b then blit (block d M b dst) k (map (\<lambda>i. row d (j + i) src) [0..<n]) 0 n else block d M c dst)"
proof -
  have "row d (c * M + i) (blit dst ((b * M + k) * d) src (j * d) (n * d)) =
      (if c = b \<and> k \<le> i \<and> i < k + n then row d (j + (i - k)) src else row d (c * M + i) dst)" if i: "i < M" for i
  proof -
    have "row d (c * M + i) (blit dst ((b * M + k) * d) src (j * d) (n * d)) =
        (if b * M + k \<le> c * M + i \<and> c * M + i < b * M + k + n
         then row d (j + (c * M + i - (b * M + k))) src else row d (c * M + i) dst)"
      by (rule row_blit [OF rows_fit [OF assms(1,3)] assms(4) row_fits [OF assms(2) i]])
        (simp_all only: assms(5) order_refl)
    then show ?thesis using block_range [OF i assms(3), of b c] by (auto split: if_splits)
  qed
  then show ?thesis
    using assms(3) by (intro nth_equalityI) (auto simp: rows_def blit_nth)
qed

text \<open>A loop over the batch whose body for \<open>b\<close> rewrites block \<open>b\<close> by \<open>h\<close> and keeps the others.\<close>

lemma fold_blocks:
  assumes step: "\<And>b c buf. b < B \<Longrightarrow> c < B \<Longrightarrow> length buf = B * M * d \<Longrightarrow> length (f b buf) = B * M * d \<and>
       block d M c (f b buf) = (if c = b then h b (block d M b buf) else block d M c buf)"
    and "length buf = B * M * d" and "n \<le> B"
  shows "length (fold f [0..<n] buf) = B * M * d \<and> (\<forall>c < B. block d M c (fold f [0..<n] buf) =
    (if c < n then h c (block d M c buf) else block d M c buf))"
  using assms(3)
proof (induction n)
  case (Suc n)
  let ?buf = "fold f [0..<n] buf"
  have "n < B" "length ?buf = B * M * d" using Suc by auto
  with step [of n _ ?buf] Suc show ?case by (auto simp: less_Suc_eq)
qed (use assms(2) in simp)

lemma slide_blocks:
  assumes "length buf = B * M * d" and "keep + dropped + tail \<le> M"
  shows "length (slide_buffer B M d keep dropped tail buf) = B * M * d"
    and "b < B \<Longrightarrow> block d M b (slide_buffer B M d keep dropped tail buf) =
      blit (block d M b buf) keep (drop (keep + dropped) (block d M b buf)) 0 tail"
proof -
  let ?f = "\<lambda>b buf. if tail > 0 then blit buf ((b * M + keep) * d) buf ((b * M + keep + dropped) * d) (tail * d)
    else buf"
  let ?h = "\<lambda>_ R. blit R keep (drop (keep + dropped) R) 0 tail"
  have src: "(b * M + keep + dropped + tail) * d \<le> B * M * d" if "b < B" for b
    using rows_fit [OF that assms(2) order_refl, of d] by (simp only: add.assoc)
  have src_rows: "map (\<lambda>i. row d (b * M + keep + dropped + i) buf) [0..<tail] =
      take tail (drop (keep + dropped) (block d M b buf))" for b and buf :: "'a list"
    using assms(2) by (intro nth_equalityI) (auto simp: rows_def add.assoc)
  have step: "length (?f b buf) = B * M * d \<and>
      block d M c (?f b buf) = (if c = b then ?h b (block d M b buf) else block d M c buf)"
    if "b < B" "c < B" "length buf = B * M * d" for b c and buf :: "'a list"
  proof (cases "tail > 0")
    case True
    have fit: "(b * M + keep) * d + tail * d \<le> B * M * d"
      using rows_fit [OF that(1) _ order_refl, of keep tail M d] assms(2) by (simp only: add_mult_distrib)
    have fit': "(b * M + keep + dropped) * d + tail * d \<le> B * M * d"
      using src [OF that(1)] by (simp only: add_mult_distrib)
    have "keep + tail \<le> M" "(b * M + keep + dropped + tail) * d \<le> length buf"
      using assms(2) src [OF that(1)] that(3) by simp_all
    note blk = block_blit [OF that(1,2) this that(3), unfolded src_rows blit_take]
    have "length (blit buf ((b * M + keep) * d) buf ((b * M + keep + dropped) * d) (tail * d)) = B * M * d"
      by (subst length_blit) (simp_all only: fit fit' that(3))
    then show ?thesis using True by (simp only: blk if_True simp_thms)
  qed (use that(3) in \<open>simp add: blit_def\<close>)
  have loop: "length (slide_buffer B M d keep dropped tail buf) = B * M * d \<and>
      (\<forall>c < B. block d M c (slide_buffer B M d keep dropped tail buf) =
        (if c < B then ?h c (block d M c buf) else block d M c buf))"
    unfolding slide_buffer_def by (rule fold_blocks [OF step assms(1) order_refl])
  show "length (slide_buffer B M d keep dropped tail buf) = B * M * d" by (rule conjunct1 [OF loop])
  show "block d M b (slide_buffer B M d keep dropped tail buf) =
      blit (block d M b buf) keep (drop (keep + dropped) (block d M b buf)) 0 tail" if "b < B"
    using conjunct2 [OF loop, rule_format, OF that] that by (simp only: if_True)
qed

lemma write_blocks:
  assumes "length buf = B * M * d" and "past + seq \<le> M" and "length src = B * seq * d"
  shows "length (write_rows B seq M past d src buf) = B * M * d"
    and "b < B \<Longrightarrow> block d M b (write_rows B seq M past d src buf) =
      blit (block d M b buf) past (block d seq b src) 0 seq"
proof -
  let ?g = "\<lambda>b s dst. blit dst ((b * M + past + s) * d) src ((b * seq + s) * d) d"
  have inner: "length (fold (?g b) [0..<n] buf) = B * M * d \<and>
      (\<forall>c < B. block d M c (fold (?g b) [0..<n] buf) =
        (if c = b then blit (block d M b buf) past (block d seq b src) 0 n else block d M c buf))"
    if bB: "b < B" and lenb: "length buf = B * M * d" and "n \<le> seq" for b n and buf :: "'a list"
    using that(3)
  proof (induction n)
    case 0
    then show ?case using lenb by (simp add: blit_def)
  next
    case (Suc n)
    let ?buf = "fold (?g b) [0..<n] buf"
    have IH: "length ?buf = B * M * d" "\<And>c. c < B \<Longrightarrow> block d M c ?buf =
        (if c = b then blit (block d M b buf) past (block d seq b src) 0 n else block d M c buf)"
      using Suc by auto
    have bound: "(b * seq + n + 1) * d \<le> length src"
      using rows_fit [OF bB, of n 1 seq d "length src"] Suc.prems assms(3) by simp
    have "block d M c (?g b n ?buf) = (if c = b then blit (block d M b ?buf) (past + n)
        [row d (b * seq + n) src] 0 1 else block d M c ?buf)" if c: "c < B" for c
      using block_blit [OF bB c _ bound IH(1), where k = "past + n"] Suc.prems assms(2)
      by (simp add: add.assoc)
    moreover have "blit (blit (block d M b buf) past (block d seq b src) 0 n) (past + n)
        [row d (b * seq + n) src] 0 1 = blit (block d M b buf) past (block d seq b src) 0 (Suc n)"
      using Suc.prems assms(2)
      by (intro nth_equalityI) (auto simp: blit_nth rows_def less_Suc_eq)
    moreover have "length (?g b n ?buf) = B * M * d"
    proof (subst length_blit)
      show "(b * M + past + n) * d + d \<le> length ?buf"
        using rows_fit [OF bB _ order_refl, of "past + n" 1 M d] Suc.prems assms(2) IH(1)
        by (simp only: add_mult_distrib add.assoc mult_1)
      show "(b * seq + n) * d + d \<le> length src" using bound by (simp only: add_mult_distrib mult_1)
    qed (rule IH(1))
    ultimately show ?case using bB IH(2) by (simp only: fold_append fold_simps upt_Suc_append comp_def) auto
  qed
  have step: "length (fold (?g b) [0..<seq] buf) = B * M * d \<and>
      block d M c (fold (?g b) [0..<seq] buf) =
        (if c = b then blit (block d M b buf) past (block d seq b src) 0 seq else block d M c buf)"
    if "b < B" "c < B" "length buf = B * M * d" for b c and buf :: "'a list"
    using inner [OF that(1,3) order_refl] that(2) by blast
  have loop: "length (write_rows B seq M past d src buf) = B * M * d \<and>
      (\<forall>c < B. block d M c (write_rows B seq M past d src buf) =
        (if c < B then blit (block d M c buf) past (block d seq c src) 0 seq else block d M c buf))"
    unfolding write_rows_def by (rule fold_blocks [OF step assms(1) order_refl])
  show "length (write_rows B seq M past d src buf) = B * M * d" by (rule conjunct1 [OF loop])
  show "block d M b (write_rows B seq M past d src buf) =
      blit (block d M b buf) past (block d seq b src) 0 seq" if "b < B"
    using conjunct2 [OF loop, rule_format, OF that] that by (simp only: if_True)
qed

section \<open>The invariant and the abstract cache\<close>

definition kv_ok :: "'f kv_cache \<Rightarrow> bool" where
  "kv_ok c \<longleftrightarrow> 0 < kv_n_layers c \<and> 0 < kv_batch c \<and> 0 < kv_max_seq c \<and> 0 < kv_k_dim c \<and> 0 < kv_v_dim c \<and>
     0 \<le> kv_past_len c \<and> kv_past_len c \<le> kv_max_seq c \<and> 0 \<le> kv_sink c \<and> kv_sink c < kv_max_seq c \<and>
     length (kv_k c) = nat (kv_n_layers c) \<and> length (kv_v c) = nat (kv_n_layers c) \<and>
     (\<forall>buf \<in> set (kv_k c). length buf = nat (kv_batch c) * nat (kv_max_seq c) * nat (kv_k_dim c)) \<and>
     (\<forall>buf \<in> set (kv_v c). length buf = nat (kv_batch c) * nat (kv_max_seq c) * nat (kv_v_dim c))"

definition k_rows :: "'f kv_cache \<Rightarrow> nat \<Rightarrow> nat \<Rightarrow> 'f list list" where
  "k_rows c l b = rows (nat (kv_k_dim c)) (nat (kv_max_seq c)) (nat (kv_past_len c)) b (kv_k c ! l)"

definition v_rows :: "'f kv_cache \<Rightarrow> nat \<Rightarrow> nat \<Rightarrow> 'f list list" where
  "v_rows c l b = rows (nat (kv_v_dim c)) (nat (kv_max_seq c)) (nat (kv_past_len c)) b (kv_v c ! l)"

text \<open>What sliding keeps of the resident tokens when \<open>inc\<close> more arrive.\<close>

definition kept :: "nat \<Rightarrow> nat \<Rightarrow> nat \<Rightarrow> 'a list \<Rightarrow> 'a list" where
  "kept max_seq sink inc xs = (let keep = min sink (length xs);
       dropped = min (length xs + inc - max_seq) (length xs - keep)
     in take keep xs @ drop (keep + dropped) xs)"

text \<open>The window over a whole history: all of it, or the first \<open>sink\<close> and the last tokens.\<close>

definition window :: "nat \<Rightarrow> nat \<Rightarrow> 'a list \<Rightarrow> 'a list" where
  "window max_seq sink h = (if length h \<le> max_seq then h
     else take sink h @ drop (length h - (max_seq - sink)) h)"

lemma kept_window:
  assumes "sink < max_seq" and "length xs \<le> max_seq - sink"
  shows "kept max_seq sink (length xs) (window max_seq sink h) @ xs = window max_seq sink (h @ xs)"
proof (cases "length h \<le> max_seq")
  case True
  show ?thesis
  proof (cases "length h + length xs \<le> max_seq")
    case True
    then show ?thesis by (simp add: kept_def window_def)
  next
    case False
    with assms have "sink \<le> length h" "length h + length xs - max_seq \<le> length h - sink" by simp_all
    moreover have "sink + (length h + length xs) - max_seq = length h + length xs + sink - max_seq" by simp
    ultimately show ?thesis using False True assms by (simp add: kept_def window_def min_def)
  qed
next
  case False
  define w where "w = take sink h @ drop (length h - (max_seq - sink)) h"
  have len: "length w = max_seq" and sink: "take sink w = take sink h"
    using False assms(1) by (simp_all add: w_def)
  have "sink + length xs + (length h - (max_seq - sink)) - sink = length h + length xs - (max_seq - sink)"
    using False assms by simp
  then have tail: "drop (sink + length xs) w = drop (length h + length xs - (max_seq - sink)) h"
    using False assms(1) by (simp add: w_def)
  have "kept max_seq sink (length xs) w = take sink w @ drop (sink + length xs) w"
    using assms len by (simp add: kept_def min_def)
  moreover have "window max_seq sink h = w" using False by (simp add: window_def w_def)
  moreover have "window max_seq sink (h @ xs) =
      take sink h @ drop (length h + length xs - (max_seq - sink)) h @ xs"
    using False assms by (simp add: window_def)
  ultimately show ?thesis by (simp only: sink tail append_assoc)
qed

lemma kept_all: "length xs + inc \<le> max_seq \<Longrightarrow> kept max_seq sink inc xs = xs"
  by (simp add: kept_def)

lemma kept_full:
  assumes "length xs = max_seq" "sink < max_seq" "max_seq - sink \<le> inc"
  shows "kept max_seq sink inc xs = take sink xs"
proof -
  have "min sink (length xs) = sink" "min (length xs + inc - max_seq) (length xs - sink) = length xs - sink"
    using assms by auto
  then show ?thesis using assms(1,2) by (simp only: kept_def Let_def) simp
qed

text \<open>Sliding one buffer.\<close>

lemma rows_slide:
  fixes keep dropped tail :: nat
  assumes "length buf = B * M * d" and "b < B" and "keep + dropped + tail = past" and "past \<le> M"
  shows "rows d M (keep + tail) b (slide_buffer B M d keep dropped tail buf) =
    take keep (rows d M past b buf) @ drop (keep + dropped) (rows d M past b buf)"
proof -
  have fits: "keep + tail \<le> M" "keep + dropped + tail \<le> M" using assms(3,4) by simp_all
  have "rows d M (keep + tail) b (slide_buffer B M d keep dropped tail buf) =
      take (keep + tail) (blit (block d M b buf) keep (drop (keep + dropped) (block d M b buf)) 0 tail)"
    by (simp only: rows_block [OF fits(1)] slide_blocks(2) [OF assms(1) fits(2) assms(2)])
  also have "\<dots> = take keep (block d M b buf) @ take tail (drop (keep + dropped) (block d M b buf))"
    using fits by (simp add: blit_def)
  also have "\<dots> = take keep (rows d M past b buf) @ drop (keep + dropped) (rows d M past b buf)"
    using assms(3) diff_add_inverse [of "keep + dropped" tail] by (simp add: rows_block [OF assms(4)] drop_take min_def)
  finally show ?thesis .
qed

lemma compact_fields [simp]:
  "kv_n_layers (compact_to_fit inc c) = kv_n_layers c" "kv_batch (compact_to_fit inc c) = kv_batch c"
  "kv_max_seq (compact_to_fit inc c) = kv_max_seq c" "kv_k_dim (compact_to_fit inc c) = kv_k_dim c"
  "kv_v_dim (compact_to_fit inc c) = kv_v_dim c" "kv_sink (compact_to_fit inc c) = kv_sink c"
  "kv_abs_pos (compact_to_fit inc c) = kv_abs_pos c" "kv_pending (compact_to_fit inc c) = kv_pending c"
  by (simp_all add: compact_to_fit_def Let_def)

text \<open>How many rows sliding drops.\<close>

definition dropped_rows :: "int \<Rightarrow> 'f kv_cache \<Rightarrow> int" where
  "dropped_rows inc c = max 0 (min (kv_past_len c + inc - kv_max_seq c)
     (kv_past_len c - min (kv_sink c) (kv_past_len c)))"

lemma compact_cases:
  assumes "kv_ok c" and "0 \<le> inc"
  obtains (same) "compact_to_fit inc c = c" "dropped_rows inc c = 0"
    | (slid) keep dropped tail where "keep = nat (min (kv_sink c) (kv_past_len c))" "0 < dropped"
        "int dropped = dropped_rows inc c" "keep + dropped + tail = nat (kv_past_len c)"
        "compact_to_fit inc c = c\<lparr>
          kv_k := map (slide_buffer (nat (kv_batch c)) (nat (kv_max_seq c)) (nat (kv_k_dim c)) keep dropped tail) (kv_k c),
          kv_v := map (slide_buffer (nat (kv_batch c)) (nat (kv_max_seq c)) (nat (kv_v_dim c)) keep dropped tail) (kv_v c),
          kv_past_len := int (keep + tail)\<rparr>"
proof (cases "dropped_rows inc c = 0")
  case True
  then have "kv_past_len c + inc \<le> kv_max_seq c \<or> min (kv_past_len c + inc - kv_max_seq c)
      (kv_past_len c - min (kv_sink c) (kv_past_len c)) \<le> 0"
    unfolding dropped_rows_def by linarith
  then have "compact_to_fit inc c = c" by (simp only: compact_to_fit_def Let_def if_True)
  then show thesis using True by (rule same)
next
  case False
  define k where "k = min (kv_sink c) (kv_past_len c)"
  define d where "d = dropped_rows inc c"
  have k: "0 \<le> k" "k \<le> kv_past_len c" using assms by (auto simp: k_def kv_ok_def)
  have d: "0 < d" "d = min (kv_past_len c + inc - kv_max_seq c) (kv_past_len c - k)"
    using False by (auto simp: d_def dropped_rows_def k_def)
  have eq: "compact_to_fit inc c = c\<lparr>
      kv_k := map (slide_buffer (nat (kv_batch c)) (nat (kv_max_seq c)) (nat (kv_k_dim c)) (nat k) (nat d)
        (nat (kv_past_len c - k - d))) (kv_k c),
      kv_v := map (slide_buffer (nat (kv_batch c)) (nat (kv_max_seq c)) (nat (kv_v_dim c)) (nat k) (nat d)
        (nat (kv_past_len c - k - d))) (kv_v c),
      kv_past_len := kv_past_len c - d\<rparr>"
    using d by (auto simp: compact_to_fit_def Let_def k_def [symmetric])
  have le: "d \<le> kv_past_len c - k" using d(2) by simp
  show thesis
    by (rule slid [of "nat k" "nat d" "nat (kv_past_len c - k - d)"])
      (use k d(1) le in \<open>simp_all add: k_def [symmetric] d_def [symmetric] eq\<close>)
qed

lemma kept_rows: "kept max_seq sink inc (rows d M past b buf) =
    take (min sink past) (rows d M past b buf) @
    drop (min sink past + min (past + inc - max_seq) (past - min sink past)) (rows d M past b buf)"
  by (simp add: kept_def Let_def)

lemma compact_spec:
  assumes "kv_ok c" and "0 \<le> inc"
  shows "kv_ok (compact_to_fit inc c)"
    and "kv_past_len (compact_to_fit inc c) = kv_past_len c - dropped_rows inc c"
    and "l < nat (kv_n_layers c) \<Longrightarrow> b < nat (kv_batch c) \<Longrightarrow> k_rows (compact_to_fit inc c) l b =
      kept (nat (kv_max_seq c)) (nat (kv_sink c)) (nat inc) (k_rows c l b)"
    and "l < nat (kv_n_layers c) \<Longrightarrow> b < nat (kv_batch c) \<Longrightarrow> v_rows (compact_to_fit inc c) l b =
      kept (nat (kv_max_seq c)) (nat (kv_sink c)) (nat inc) (v_rows c l b)"
proof -
  let ?c = "compact_to_fit inc c"
  have pos: "0 \<le> kv_past_len c" "0 < kv_max_seq c" "0 \<le> kv_sink c" using assms(1) by (auto simp: kv_ok_def)
  have nats: "nat (min (kv_sink c) (kv_past_len c)) = min (nat (kv_sink c)) (nat (kv_past_len c))"
    "nat (kv_past_len c + inc - kv_max_seq c) = nat (kv_past_len c) + nat inc - nat (kv_max_seq c)"
    using pos assms(2) by (auto simp: min_def)
  have keep_nat: "min (nat (kv_past_len c) + nat inc - nat (kv_max_seq c))
      (nat (kv_past_len c) - min (nat (kv_sink c)) (nat (kv_past_len c))) = nat (dropped_rows inc c)"
  proof -
    have "nat (dropped_rows inc c) = nat (min (kv_past_len c + inc - kv_max_seq c)
        (kv_past_len c - min (kv_sink c) (kv_past_len c)))"
      by (simp add: dropped_rows_def max_def)
    also have "\<dots> = min (nat (kv_past_len c + inc - kv_max_seq c))
        (nat (kv_past_len c - min (kv_sink c) (kv_past_len c)))"
      by (auto simp: min_def)
    finally show ?thesis using pos assms(2) nats by (simp add: nat_diff_distrib)
  qed
  have "kv_ok ?c \<and> kv_past_len ?c = kv_past_len c - dropped_rows inc c \<and>
    (\<forall>l < nat (kv_n_layers c). \<forall>b < nat (kv_batch c).
       k_rows ?c l b = kept (nat (kv_max_seq c)) (nat (kv_sink c)) (nat inc) (k_rows c l b) \<and>
       v_rows ?c l b = kept (nat (kv_max_seq c)) (nat (kv_sink c)) (nat inc) (v_rows c l b))"
  proof (rule compact_cases [OF assms])
    assume "?c = c" "dropped_rows inc c = 0"
    then show ?thesis using assms(1) by (simp add: k_rows_def v_rows_def kept_rows keep_nat)
  next
    fix keep dropped tail
    assume k: "keep = nat (min (kv_sink c) (kv_past_len c))" and d: "0 < dropped"
        "int dropped = dropped_rows inc c" and sum: "keep + dropped + tail = nat (kv_past_len c)"
      and c: "?c = c\<lparr>
          kv_k := map (slide_buffer (nat (kv_batch c)) (nat (kv_max_seq c)) (nat (kv_k_dim c)) keep dropped tail) (kv_k c),
          kv_v := map (slide_buffer (nat (kv_batch c)) (nat (kv_max_seq c)) (nat (kv_v_dim c)) keep dropped tail) (kv_v c),
          kv_past_len := int (keep + tail)\<rparr>"
    have le: "nat (kv_past_len c) \<le> nat (kv_max_seq c)" "keep + dropped + tail \<le> nat (kv_max_seq c)"
      using assms(1) sum by (auto simp: kv_ok_def)
    have "kv_ok ?c"
      using assms(1) le sum pos by (auto simp: kv_ok_def c slide_blocks(1))
    moreover have "kv_past_len ?c = kv_past_len c - dropped_rows inc c"
      using sum pos d(2) by (simp add: c)
    moreover have "k_rows ?c l b = kept (nat (kv_max_seq c)) (nat (kv_sink c)) (nat inc) (k_rows c l b) \<and>
       v_rows ?c l b = kept (nat (kv_max_seq c)) (nat (kv_sink c)) (nat inc) (v_rows c l b)"
      if "l < nat (kv_n_layers c)" "b < nat (kv_batch c)" for l b
    proof -
      have buf: "length (kv_k c ! l) = nat (kv_batch c) * nat (kv_max_seq c) * nat (kv_k_dim c)"
        "length (kv_v c ! l) = nat (kv_batch c) * nat (kv_max_seq c) * nat (kv_v_dim c)"
        "l < length (kv_k c)" "l < length (kv_v c)"
        using assms(1) that(1) by (auto simp: kv_ok_def)
      have keep: "min (nat (kv_sink c)) (nat (kv_past_len c)) = keep" using k nats(1) by simp
      moreover have "min (nat (kv_past_len c) + nat inc - nat (kv_max_seq c)) (nat (kv_past_len c) - keep) = dropped"
        by (simp only: keep_nat [unfolded keep] d(2) [symmetric] nat_int)
      ultimately show ?thesis
        using rows_slide [OF buf(1) that(2) sum le(1)] rows_slide [OF buf(2) that(2) sum le(1)] buf(3,4)
        by (simp add: k_rows_def v_rows_def c kept_rows nat_int_add)
    qed
    ultimately show ?thesis by blast
  qed
  then show "kv_ok ?c" "kv_past_len ?c = kv_past_len c - dropped_rows inc c"
    "l < nat (kv_n_layers c) \<Longrightarrow> b < nat (kv_batch c) \<Longrightarrow> k_rows ?c l b =
      kept (nat (kv_max_seq c)) (nat (kv_sink c)) (nat inc) (k_rows c l b)"
    "l < nat (kv_n_layers c) \<Longrightarrow> b < nat (kv_batch c) \<Longrightarrow> v_rows ?c l b =
      kept (nat (kv_max_seq c)) (nat (kv_sink c)) (nat inc) (v_rows c l b)"
    by blast+
qed

section \<open>Appending\<close>

text \<open>A view of \<open>seq\<close> rows of width \<open>d\<close> for each batch element.\<close>

definition view_ok :: "int \<Rightarrow> int \<Rightarrow> int \<Rightarrow> 'f tensor_view \<Rightarrow> bool" where
  "view_ok batch seq d t \<longleftrightarrow> parse_kv_shape t = Inr (batch, seq, d) \<and>
     length (floats t) = nat batch * nat seq * nat d"

lemma ensure_ok: "kv_ok c \<Longrightarrow> 0 \<le> seq \<Longrightarrow> seq \<le> kv_max_seq c \<Longrightarrow> kv_ensure_capacity seq c = Inr ()"
  by (simp add: kv_ensure_capacity_def kv_configured_def kv_ok_def)

text \<open>The rows of a layer once \<open>pending\<close> more have been written behind the committed ones.\<close>

definition k_staged :: "'f kv_cache \<Rightarrow> nat \<Rightarrow> nat \<Rightarrow> 'f list list" where
  "k_staged c l b = rows (nat (kv_k_dim c)) (nat (kv_max_seq c)) (nat (kv_past_len c + kv_pending c)) b (kv_k c ! l)"

definition v_staged :: "'f kv_cache \<Rightarrow> nat \<Rightarrow> nat \<Rightarrow> 'f list list" where
  "v_staged c l b = rows (nat (kv_v_dim c)) (nat (kv_max_seq c)) (nat (kv_past_len c + kv_pending c)) b (kv_v c ! l)"

lemma rows_write:
  assumes "length buf = B * M * d" and "past + seq \<le> M" and "length src = B * seq * d" and "b < B"
  shows "rows d M (past + seq) b (write_rows B seq M past d src buf) = rows d M past b buf @ rows d seq seq b src"
    and "rows d M past b (write_rows B seq M past d src buf) = rows d M past b buf"
proof -
  have le: "past \<le> M" using assms(2) by simp
  show "rows d M (past + seq) b (write_rows B seq M past d src buf) = rows d M past b buf @ rows d seq seq b src"
    unfolding rows_block [OF assms(2)] rows_block [OF le] write_blocks(2) [OF assms]
    using assms(2) by (simp add: blit_def)
  show "rows d M past b (write_rows B seq M past d src buf) = rows d M past b buf"
    unfolding rows_block [OF le] write_blocks(2) [OF assms] using assms(2) by (simp add: blit_def)
qed

lemma append_spec:
  assumes "kv_ok c" and "0 \<le> layer" "layer < kv_n_layers c" and "0 \<le> seq" "seq \<le> kv_max_seq c - kv_sink c"
    and "view_ok (kv_batch c) seq (kv_k_dim c) k" "view_ok (kv_batch c) seq (kv_v_dim c) v"
  defines "c1 \<equiv> compact_to_fit seq c" and "c2 \<equiv> snd (kv_append_layer layer k v c)"
  shows "fst (kv_append_layer layer k v c) = Inr ()"
    and "c2 = c1\<lparr>kv_k := (kv_k c1)[nat layer := write_rows (nat (kv_batch c)) (nat seq) (nat (kv_max_seq c))
        (nat (kv_past_len c1)) (nat (kv_k_dim c)) (floats k) (kv_k c1 ! nat layer)],
      kv_v := (kv_v c1)[nat layer := write_rows (nat (kv_batch c)) (nat seq) (nat (kv_max_seq c))
        (nat (kv_past_len c1)) (nat (kv_v_dim c)) (floats v) (kv_v c1 ! nat layer)],
      kv_pending := seq\<rparr>"
    and "kv_past_len c1 + seq \<le> kv_max_seq c" "0 \<le> kv_past_len c1"
proof -
  have c1: "kv_ok c1" "kv_past_len c1 = kv_past_len c - dropped_rows seq c"
    unfolding c1_def using compact_spec(1,2) [OF assms(1,4)] by simp_all
  show fit: "kv_past_len c1 + seq \<le> kv_max_seq c" and nn: "0 \<le> kv_past_len c1"
    using assms(1,4,5) c1 by (auto simp: dropped_rows_def kv_ok_def)
  have ens: "kv_ensure_capacity (kv_past_len c1 + seq) c1 = Inr ()"
    using fit nn assms(4) by (intro ensure_ok [OF c1(1)]) (simp_all add: c1_def)
  have conf: "kv_configured c" using assms(1) by (simp add: kv_configured_def kv_ok_def)
  have sk: "\<not> seq > kv_max_seq c" using assms(1,5) by (auto simp: kv_ok_def)
  have "kv_append_layer layer k v c = (Inr (), c1\<lparr>kv_k := (kv_k c1)[nat layer := write_rows (nat (kv_batch c)) (nat seq) (nat (kv_max_seq c))
        (nat (kv_past_len c1)) (nat (kv_k_dim c)) (floats k) (kv_k c1 ! nat layer)],
      kv_v := (kv_v c1)[nat layer := write_rows (nat (kv_batch c)) (nat seq) (nat (kv_max_seq c))
        (nat (kv_past_len c1)) (nat (kv_v_dim c)) (floats v) (kv_v c1 ! nat layer)],
      kv_pending := seq\<rparr>)"
    using assms(2,3,6,7) conf sk ens
    by (simp add: kv_append_layer_def view_ok_def Let_def c1_def [symmetric]) (simp add: c1_def)
  then show "fst (kv_append_layer layer k v c) = Inr ()"
    "c2 = c1\<lparr>kv_k := (kv_k c1)[nat layer := write_rows (nat (kv_batch c)) (nat seq) (nat (kv_max_seq c))
        (nat (kv_past_len c1)) (nat (kv_k_dim c)) (floats k) (kv_k c1 ! nat layer)],
      kv_v := (kv_v c1)[nat layer := write_rows (nat (kv_batch c)) (nat seq) (nat (kv_max_seq c))
        (nat (kv_past_len c1)) (nat (kv_v_dim c)) (floats v) (kv_v c1 ! nat layer)],
      kv_pending := seq\<rparr>" by (simp_all add: c2_def)
qed

text \<open>
  One pass of the decoder: the attention operations append to the layers in order, an error ends
  the pass, and the step is committed at its end (\<open>Session::run\<close>).  A run is a sequence of passes.
\<close>

type_synonym 'f kv_views = "('f tensor_view \<times> 'f tensor_view) list"

fun kv_layers :: "nat \<Rightarrow> 'f kv_views \<Rightarrow> 'f kv_cache \<Rightarrow> (error + unit) \<times> 'f kv_cache" where
  "kv_layers l [] c = (Inr (), c)"
| "kv_layers l ((k, v) # vs) c = (case kv_append_layer (int l) k v c of
     (Inl e, c) \<Rightarrow> (Inl e, c) | (Inr _, c) \<Rightarrow> kv_layers (Suc l) vs c)"

definition kv_forward :: "'f kv_views \<Rightarrow> 'f kv_cache \<Rightarrow> (error + unit) \<times> 'f kv_cache" where
  "kv_forward vs c = (case kv_layers 0 vs c of
     (Inl e, c) \<Rightarrow> (Inl e, c) | (Inr _, c) \<Rightarrow> (Inr (), kv_commit_step c))"

fun kv_run :: "'f kv_views list \<Rightarrow> 'f kv_cache \<Rightarrow> (error + unit) \<times> 'f kv_cache" where
  "kv_run [] c = (Inr (), c)"
| "kv_run (vs # ss) c = (case kv_forward vs c of
     (Inl e, c) \<Rightarrow> (Inl e, c) | (Inr _, c) \<Rightarrow> kv_run ss c)"

definition step_seq :: "'f kv_views \<Rightarrow> int" where
  "step_seq vs = (case vs of [] \<Rightarrow> 0 | (k, v) # _ \<Rightarrow>
     (case parse_kv_shape k of Inl _ \<Rightarrow> 0 | Inr (_, s, _) \<Rightarrow> s))"

definition step_ok :: "'f kv_cache \<Rightarrow> 'f kv_views \<Rightarrow> bool" where
  "step_ok c vs \<longleftrightarrow> length vs = nat (kv_n_layers c) \<and> 0 \<le> step_seq vs \<and>
     step_seq vs \<le> kv_max_seq c - kv_sink c \<and>
     list_all (\<lambda>(k, v). view_ok (kv_batch c) (step_seq vs) (kv_k_dim c) k \<and>
       view_ok (kv_batch c) (step_seq vs) (kv_v_dim c) v) vs"

text \<open>The rows a pass brings to one layer and batch element.\<close>

definition new_k :: "'f kv_cache \<Rightarrow> nat \<Rightarrow> nat \<Rightarrow> 'f kv_views \<Rightarrow> 'f list list" where
  "new_k c l b vs = rows (nat (kv_k_dim c)) (nat (step_seq vs)) (nat (step_seq vs)) b (floats (fst (vs ! l)))"

definition new_v :: "'f kv_cache \<Rightarrow> nat \<Rightarrow> nat \<Rightarrow> 'f kv_views \<Rightarrow> 'f list list" where
  "new_v c l b vs = rows (nat (kv_v_dim c)) (nat (step_seq vs)) (nat (step_seq vs)) b (floats (snd (vs ! l)))"

definition put_k :: "'f kv_cache \<Rightarrow> int \<Rightarrow> 'f tensor_view \<Rightarrow> 'f list \<Rightarrow> 'f list" where
  "put_k c seq k = write_rows (nat (kv_batch c)) (nat seq) (nat (kv_max_seq c)) (nat (kv_past_len c))
     (nat (kv_k_dim c)) (floats k)"

definition put_v :: "'f kv_cache \<Rightarrow> int \<Rightarrow> 'f tensor_view \<Rightarrow> 'f list \<Rightarrow> 'f list" where
  "put_v c seq v = write_rows (nat (kv_batch c)) (nat seq) (nat (kv_max_seq c)) (nat (kv_past_len c))
     (nat (kv_v_dim c)) (floats v)"

lemma compact_noop:
  assumes "kv_past_len c + seq \<le> kv_max_seq c"
  shows "compact_to_fit seq c = c"
  using assms by (simp only: compact_to_fit_def Let_def if_True simp_thms)

lemma append_fits:
  assumes "kv_ok c" and "l < nat (kv_n_layers c)" and "0 \<le> seq" "seq \<le> kv_max_seq c - kv_sink c"
    and "view_ok (kv_batch c) seq (kv_k_dim c) k" "view_ok (kv_batch c) seq (kv_v_dim c) v"
    and "kv_past_len c + seq \<le> kv_max_seq c"
  shows "kv_append_layer (int l) k v c = (Inr (), c\<lparr>kv_k := (kv_k c)[l := put_k c seq k (kv_k c ! l)],
    kv_v := (kv_v c)[l := put_v c seq v (kv_v c ! l)], kv_pending := seq\<rparr>)"
proof -
  have "0 \<le> int l" "int l < kv_n_layers c" using assms(2) by simp_all
  note spec = append_spec [OF assms(1) this assms(3-6), unfolded compact_noop [OF assms(7)]]
  show ?thesis using spec(1,2) by (intro prod_eqI) (simp_all add: put_k_def put_v_def)
qed

lemma put_lengths:
  assumes "kv_ok c" and "i < nat (kv_n_layers c)" and "0 \<le> seq" "kv_past_len c + seq \<le> kv_max_seq c"
  shows "view_ok (kv_batch c) seq (kv_k_dim c) k \<Longrightarrow>
      length (put_k c seq k (kv_k c ! i)) = nat (kv_batch c) * nat (kv_max_seq c) * nat (kv_k_dim c)"
    and "view_ok (kv_batch c) seq (kv_v_dim c) v \<Longrightarrow>
      length (put_v c seq v (kv_v c ! i)) = nat (kv_batch c) * nat (kv_max_seq c) * nat (kv_v_dim c)"
  using assms by (auto simp: put_k_def put_v_def kv_ok_def view_ok_def intro!: write_blocks(1))

lemma kv_layers_spec:
  assumes "kv_ok c" and "l + length vs \<le> nat (kv_n_layers c)"
    and "0 \<le> seq" "seq \<le> kv_max_seq c - kv_sink c" "kv_past_len c + seq \<le> kv_max_seq c"
    and "list_all (\<lambda>(k, v). view_ok (kv_batch c) seq (kv_k_dim c) k \<and> view_ok (kv_batch c) seq (kv_v_dim c) v) vs"
  shows "\<exists>K V. kv_layers l vs c = (Inr (), c\<lparr>kv_k := K, kv_v := V, kv_pending := if vs = [] then kv_pending c else seq\<rparr>) \<and>
    length K = length (kv_k c) \<and> length V = length (kv_v c) \<and>
    (\<forall>i < nat (kv_n_layers c).
      K ! i = (if l \<le> i \<and> i < l + length vs then put_k c seq (fst (vs ! (i - l))) (kv_k c ! i) else kv_k c ! i) \<and>
      V ! i = (if l \<le> i \<and> i < l + length vs then put_v c seq (snd (vs ! (i - l))) (kv_v c ! i) else kv_v c ! i))"
  using assms
proof (induction vs arbitrary: l c)
  case Nil
  show ?case by (rule exI [of _ "kv_k c"], rule exI [of _ "kv_v c"]) simp
next
  case (Cons kv vs)
  obtain k v where kv: "kv = (k, v)" by (cases kv)
  have l: "l < nat (kv_n_layers c)" and view: "view_ok (kv_batch c) seq (kv_k_dim c) k" "view_ok (kv_batch c) seq (kv_v_dim c) v"
    using Cons.prems kv by auto
  let ?c = "c\<lparr>kv_k := (kv_k c)[l := put_k c seq k (kv_k c ! l)],
    kv_v := (kv_v c)[l := put_v c seq v (kv_v c ! l)], kv_pending := seq\<rparr>"
  have app: "kv_append_layer (int l) k v c = (Inr (), ?c)"
    by (rule append_fits [OF Cons.prems(1) l Cons.prems(3,4) view Cons.prems(5)])
  have len: "length (kv_k c) = nat (kv_n_layers c)" "length (kv_v c) = nat (kv_n_layers c)"
    using Cons.prems(1) by (simp_all add: kv_ok_def)
  have ok: "kv_ok ?c"
    using Cons.prems(1) put_lengths [OF Cons.prems(1) l Cons.prems(3,5)] view
    by (auto simp: kv_ok_def dest!: set_update_subset_insert [THEN subsetD])
  have puts: "put_k ?c = put_k c" "put_v ?c = put_v c" by (simp_all add: put_k_def put_v_def fun_eq_iff)
  obtain K V where KV: "kv_layers (Suc l) vs ?c =
        (Inr (), ?c\<lparr>kv_k := K, kv_v := V, kv_pending := if vs = [] then kv_pending ?c else seq\<rparr>)"
      "length K = length (kv_k ?c)" "length V = length (kv_v ?c)"
    and nth: "\<forall>i < nat (kv_n_layers ?c).
      K ! i = (if Suc l \<le> i \<and> i < Suc l + length vs then put_k c seq (fst (vs ! (i - Suc l))) (kv_k ?c ! i) else kv_k ?c ! i) \<and>
      V ! i = (if Suc l \<le> i \<and> i < Suc l + length vs then put_v c seq (snd (vs ! (i - Suc l))) (kv_v ?c ! i) else kv_v ?c ! i)"
    using Cons.IH [OF ok, of "Suc l", unfolded puts] Cons.prems kv by auto
  show ?case
  proof (rule exI [of _ K], rule exI [of _ V], intro conjI)
    show "kv_layers l (kv # vs) c =
        (Inr (), c\<lparr>kv_k := K, kv_v := V, kv_pending := if kv # vs = [] then kv_pending c else seq\<rparr>)"
      using KV(1) by (simp add: kv app)
    show "\<forall>i < nat (kv_n_layers c).
      K ! i = (if l \<le> i \<and> i < l + length (kv # vs) then put_k c seq (fst ((kv # vs) ! (i - l))) (kv_k c ! i) else kv_k c ! i) \<and>
      V ! i = (if l \<le> i \<and> i < l + length (kv # vs) then put_v c seq (snd ((kv # vs) ! (i - l))) (kv_v c ! i) else kv_v c ! i)"
    proof (intro allI impI)
      fix i assume i: "i < nat (kv_n_layers c)"
      consider "i < l" | "i = l" | "l < i" by linarith
      then show "K ! i = (if l \<le> i \<and> i < l + length (kv # vs) then put_k c seq (fst ((kv # vs) ! (i - l))) (kv_k c ! i) else kv_k c ! i) \<and>
        V ! i = (if l \<le> i \<and> i < l + length (kv # vs) then put_v c seq (snd ((kv # vs) ! (i - l))) (kv_v c ! i) else kv_v c ! i)"
        using nth [rule_format, of i] i len l kv by cases (simp_all add: nth_Cons')
    qed
  qed (use KV in simp_all)
qed

lemma kv_layers_compact:
  assumes "kv_ok c" and "step_ok c vs" and "vs \<noteq> []"
  shows "kv_layers 0 vs c = kv_layers 0 vs (compact_to_fit (step_seq vs) c)"
proof -
  obtain k v vs' where vs: "vs = (k, v) # vs'" using assms(3) by (cases vs) auto
  let ?s = "step_seq vs" let ?c = "compact_to_fit ?s c"
  have pre: "0 \<le> ?s" "?s \<le> kv_max_seq c - kv_sink c" "view_ok (kv_batch c) ?s (kv_k_dim c) k"
    "view_ok (kv_batch c) ?s (kv_v_dim c) v" "0 \<le> (0::int)" "0 < kv_n_layers c"
    using assms vs by (auto simp: step_ok_def kv_ok_def)
  note ok = compact_spec(1) [OF assms(1) pre(1)]
  note a = append_spec [OF assms(1) pre(5,6,1-4)]
  have same: "compact_to_fit ?s ?c = ?c" by (rule compact_noop) (simp add: a(3))
  have "kv_append_layer 0 k v c = kv_append_layer 0 k v ?c"
    using a(1,2) append_spec(1,2) [OF ok pre(5), of ?s k v] pre
    by (intro prod_eqI) (simp_all add: same)
  then show ?thesis by (simp add: vs)
qed

lemma kv_forward_spec:
  assumes "kv_ok c" and "step_ok c vs"
  obtains c' where "kv_forward vs c = (Inr (), c')" "kv_ok c'"
    "kv_n_layers c' = kv_n_layers c" "kv_batch c' = kv_batch c" "kv_max_seq c' = kv_max_seq c"
    "kv_k_dim c' = kv_k_dim c" "kv_v_dim c' = kv_v_dim c" "kv_sink c' = kv_sink c"
    "kv_abs_pos c' = kv_abs_pos c + step_seq vs"
    "\<And>l b. l < nat (kv_n_layers c) \<Longrightarrow> b < nat (kv_batch c) \<Longrightarrow> k_rows c' l b =
       kept (nat (kv_max_seq c)) (nat (kv_sink c)) (nat (step_seq vs)) (k_rows c l b) @ new_k c l b vs"
    "\<And>l b. l < nat (kv_n_layers c) \<Longrightarrow> b < nat (kv_batch c) \<Longrightarrow> v_rows c' l b =
       kept (nat (kv_max_seq c)) (nat (kv_sink c)) (nat (step_seq vs)) (v_rows c l b) @ new_v c l b vs"
proof -
  let ?s = "step_seq vs" let ?c = "compact_to_fit ?s c" let ?n = "nat (kv_n_layers c)"
  have s: "0 \<le> ?s" "?s \<le> kv_max_seq c - kv_sink c" "length vs = ?n" "vs \<noteq> []"
    and views: "list_all (\<lambda>(k, v). view_ok (kv_batch c) ?s (kv_k_dim c) k \<and> view_ok (kv_batch c) ?s (kv_v_dim c) v) vs"
    using assms by (auto simp: step_ok_def kv_ok_def)
  note comp = compact_spec [OF assms(1) s(1)]
  have fit: "kv_past_len ?c + ?s \<le> kv_max_seq c" and nn: "0 \<le> kv_past_len ?c"
    using assms(1) s comp(2) by (auto simp: dropped_rows_def kv_ok_def)
  obtain K V where KV: "kv_layers 0 vs ?c = (Inr (), ?c\<lparr>kv_k := K, kv_v := V, kv_pending := ?s\<rparr>)"
      "length K = length (kv_k ?c)" "length V = length (kv_v ?c)"
    and nth: "\<And>i. i < ?n \<Longrightarrow> K ! i = put_k ?c ?s (fst (vs ! i)) (kv_k ?c ! i)"
      "\<And>i. i < ?n \<Longrightarrow> V ! i = put_v ?c ?s (snd (vs ! i)) (kv_v ?c ! i)"
    using kv_layers_spec [OF comp(1), of 0 vs ?s] s views fit by auto
  have len: "length (kv_k ?c) = ?n" "length (kv_v ?c) = ?n" using comp(1) by (simp_all add: kv_ok_def)
  have vw: "view_ok (kv_batch c) ?s (kv_k_dim c) (fst (vs ! i))" "view_ok (kv_batch c) ?s (kv_v_dim c) (snd (vs ! i))"
    if "i < ?n" for i
    using views that s(3) by (auto simp: list_all_iff dest!: bspec [OF _ nth_mem])
  let ?c' = "kv_commit_step (?c\<lparr>kv_k := K, kv_v := V, kv_pending := ?s\<rparr>)"
  have fw: "kv_forward vs c = (Inr (), ?c')"
    using KV(1) by (simp add: kv_forward_def kv_layers_compact [OF assms s(4)])
  have lens: "length buf = nat (kv_batch c) * nat (kv_max_seq c) * nat (kv_k_dim c)" if "buf \<in> set K" for buf
    using that put_lengths(1) [OF comp(1) _ s(1)] fit vw(1) nth(1) KV(2) len by (auto simp: in_set_conv_nth)
  have lens': "length buf = nat (kv_batch c) * nat (kv_max_seq c) * nat (kv_v_dim c)" if "buf \<in> set V" for buf
    using that put_lengths(2) [OF comp(1) _ s(1)] fit vw(2) nth(2) KV(3) len by (auto simp: in_set_conv_nth)
  have ok: "kv_ok ?c'"
    using comp(1) fit nn s(1) lens lens' KV(2,3) by (simp add: kv_ok_def kv_commit_step_def)
  have nats: "nat (kv_past_len ?c + ?s) = nat (kv_past_len ?c) + nat ?s"
    "nat (kv_past_len ?c) + nat ?s \<le> nat (kv_max_seq c)"
    using nn s(1) fit by (simp_all add: nat_add_distrib)
  have bl: "length (kv_k ?c ! l) = nat (kv_batch c) * nat (kv_max_seq c) * nat (kv_k_dim c)"
    "length (kv_v ?c ! l) = nat (kv_batch c) * nat (kv_max_seq c) * nat (kv_v_dim c)" if "l < ?n" for l
    using comp(1) that len by (auto simp: kv_ok_def)
  show thesis
  proof (rule that [OF fw ok])
    fix l b assume l: "l < ?n" and b: "b < nat (kv_batch c)"
    have vl: "length (floats (fst (vs ! l))) = nat (kv_batch c) * nat ?s * nat (kv_k_dim c)"
      "length (floats (snd (vs ! l))) = nat (kv_batch c) * nat ?s * nat (kv_v_dim c)"
      using vw [OF l] by (simp_all add: view_ok_def)
    show "k_rows ?c' l b =
       kept (nat (kv_max_seq c)) (nat (kv_sink c)) (nat ?s) (k_rows c l b) @ new_k c l b vs"
      using rows_write(1) [OF bl(1) [OF l] nats(2) vl(1) b] comp(3) [OF l b]
      by (simp add: k_rows_def kv_commit_step_def nth(1) [OF l] put_k_def new_k_def nats(1))
    show "v_rows ?c' l b =
       kept (nat (kv_max_seq c)) (nat (kv_sink c)) (nat ?s) (v_rows c l b) @ new_v c l b vs"
      using rows_write(1) [OF bl(2) [OF l] nats(2) vl(2) b] comp(4) [OF l b]
      by (simp add: v_rows_def kv_commit_step_def nth(2) [OF l] put_v_def new_v_def nats(1))
  qed (simp_all add: kv_commit_step_def)
qed

section \<open>The cache holds a window over the tokens seen\<close>

lemma kv_run_window:
  assumes "kv_ok c" and "list_all (step_ok c) ss"
    and "\<forall>l < nat (kv_n_layers c). \<forall>b < nat (kv_batch c).
      k_rows c l b = window (nat (kv_max_seq c)) (nat (kv_sink c)) (hk l b) \<and>
      v_rows c l b = window (nat (kv_max_seq c)) (nat (kv_sink c)) (hv l b)"
  shows "\<exists>c'. kv_run ss c = (Inr (), c') \<and> kv_ok c' \<and> kv_n_layers c' = kv_n_layers c \<and> kv_batch c' = kv_batch c \<and>
    kv_abs_pos c' = kv_abs_pos c + sum_list (map step_seq ss) \<and>
    (\<forall>l < nat (kv_n_layers c). \<forall>b < nat (kv_batch c).
      k_rows c' l b = window (nat (kv_max_seq c)) (nat (kv_sink c)) (hk l b @ concat (map (new_k c l b) ss)) \<and>
      v_rows c' l b = window (nat (kv_max_seq c)) (nat (kv_sink c)) (hv l b @ concat (map (new_v c l b) ss)))"
  using assms
proof (induction ss arbitrary: c hk hv)
  case (Cons vs ss)
  let ?M = "nat (kv_max_seq c)" and ?S = "nat (kv_sink c)"
  have vs: "step_ok c vs" and ss: "list_all (step_ok c) ss" using Cons.prems(2) by simp_all
  have seq: "0 \<le> step_seq vs" "step_seq vs \<le> kv_max_seq c - kv_sink c" using vs by (simp_all add: step_ok_def)
  have sink: "?S < ?M" and fits: "nat (step_seq vs) \<le> ?M - ?S"
    using Cons.prems(1) seq by (auto simp: kv_ok_def nat_diff_distrib [symmetric])
  obtain c' where c': "kv_forward vs c = (Inr (), c')" "kv_ok c'"
    and dims: "kv_n_layers c' = kv_n_layers c" "kv_batch c' = kv_batch c" "kv_max_seq c' = kv_max_seq c"
    "kv_k_dim c' = kv_k_dim c" "kv_v_dim c' = kv_v_dim c" "kv_sink c' = kv_sink c"
    and pos: "kv_abs_pos c' = kv_abs_pos c + step_seq vs"
    and kr: "\<And>l b. l < nat (kv_n_layers c) \<Longrightarrow> b < nat (kv_batch c) \<Longrightarrow> k_rows c' l b =
       kept ?M ?S (nat (step_seq vs)) (k_rows c l b) @ new_k c l b vs"
    and vr: "\<And>l b. l < nat (kv_n_layers c) \<Longrightarrow> b < nat (kv_batch c) \<Longrightarrow> v_rows c' l b =
       kept ?M ?S (nat (step_seq vs)) (v_rows c l b) @ new_v c l b vs"
    using kv_forward_spec [OF Cons.prems(1) vs] by blast
  have fns: "step_ok c' = step_ok c" "new_k c' = new_k c" "new_v c' = new_v c"
    by (simp_all add: step_ok_def new_k_def new_v_def dims fun_eq_iff)
  have lens: "length (new_k c l b vs) = nat (step_seq vs)" "length (new_v c l b vs) = nat (step_seq vs)" for l b
    by (simp_all add: new_k_def new_v_def)
  have inv: "\<forall>l < nat (kv_n_layers c'). \<forall>b < nat (kv_batch c').
      k_rows c' l b = window (nat (kv_max_seq c')) (nat (kv_sink c')) (hk l b @ new_k c l b vs) \<and>
      v_rows c' l b = window (nat (kv_max_seq c')) (nat (kv_sink c')) (hv l b @ new_v c l b vs)"
    using Cons.prems(3) kept_window [OF sink, of "new_k c l b vs" "hk l b" for l b]
      kept_window [OF sink, of "new_v c l b vs" "hv l b" for l b] fits
    by (simp add: dims kr vr lens)
  from Cons.IH [OF c'(2) ss [folded fns(1)] inv] show ?case
    using c'(1) by (simp add: dims pos fns add.assoc)
qed simp

text \<open>A configured cache is well formed, when its buffers have the size that was asked for.\<close>

lemma configure_ok:
  assumes "kv_configure zero n b m kd vd h s c0 = Inr c" and "b * m * kd < 2 ^ 64" "b * m * vd < 2 ^ 64"
  shows "kv_ok c" "kv_past_len c = 0" "kv_abs_pos c = 0" "kv_n_layers c = n" "kv_batch c = b" "kv_max_seq c = m"
proof -
  have dims: "0 < n" "0 < b" "0 < m" "0 < kd" "0 < vd" and c: "c = c0\<lparr>kv_n_layers := n, kv_batch := b,
      kv_max_seq := m, kv_k_dim := kd, kv_v_dim := vd, kv_n_heads := h,
      kv_sink := (if (if s < 0 then 0 else s) \<ge> m then 0 else (if s < 0 then 0 else s)),
      kv_past_len := 0, kv_pending := 0, kv_abs_pos := 0,
      kv_k := replicate (nat n) (replicate (kv_elems b m kd) zero),
      kv_v := replicate (nat n) (replicate (kv_elems b m vd) zero)\<rparr>"
    using assms(1) by (simp_all add: kv_configure_def Let_def split: if_split_asm)
  have "kv_elems b m d = nat b * nat m * nat d" if "0 < d" "b * m * d < 2 ^ 64" for d
  proof -
    have "nat (b * m * d) < 2 ^ 64" using that(2) by (simp add: nat_less_iff)
    then show ?thesis using dims that(1) by (simp add: kv_elems_def nat_mult_distrib)
  qed
  with dims assms(2,3) show "kv_ok c" by (auto simp: kv_ok_def c)
  show "kv_past_len c = 0" "kv_abs_pos c = 0" "kv_n_layers c = n" "kv_batch c = b" "kv_max_seq c = m"
    by (simp_all add: c)
qed

lemma concat_twice: "concat (concat xs) = concat (map concat xs)"
  by (induction xs) simp_all

lemma concat_chunks: "concat (map (\<lambda>b. take k (drop (b * k) xs)) [0..<n]) = take (n * k) xs"
proof (induction n)
  case (Suc n)
  have "Suc n * k = n * k + k" by simp
  then show ?case using Suc by (simp only: take_add upt_Suc_append map_append concat_append) simp
qed simp

lemma concat_rows:
  assumes "b < B" and "p \<le> M" and "length buf = B * M * d"
  shows "concat (rows d M p b buf) = take (p * d) (drop (b * M * d) buf)"
proof -
  have "rows d M p b buf = map (\<lambda>i. take d (drop (i * d) (drop (b * M * d) buf))) [0..<p]"
    by (simp add: rows_def row_def add_mult_distrib add.commute)
  then show ?thesis by (simp only: concat_chunks)
qed

lemma view_rows:
  assumes "kv_ok c" and "l < nat (kv_n_layers c)"
  shows "floats (make_past_view (int l) True c) = concat (concat (map (k_rows c l) [0..<nat (kv_batch c)]))"
    and "floats (make_past_view (int l) False c) = concat (concat (map (v_rows c l) [0..<nat (kv_batch c)]))"
proof -
  let ?B = "nat (kv_batch c)" let ?M = "nat (kv_max_seq c)" let ?P = "nat (kv_past_len c)"
  have pack: "concat (concat (map (\<lambda>b. rows d ?M ?P b buf) [0..<?B])) =
      (if kv_batch c = 1 \<or> kv_past_len c = kv_max_seq c then take (?B * ?P * d) buf
       else concat (map (\<lambda>b. take (?P * d) (drop (b * ?M * d) buf)) [0..<?B]))"
    if "length buf = ?B * ?M * d" for buf :: "'a list" and d
  proof -
    have le: "?P \<le> ?M" using assms(1) by (auto simp: kv_ok_def)
    have "concat (concat (map (\<lambda>b. rows d ?M ?P b buf) [0..<?B])) =
        concat (map (\<lambda>b. concat (rows d ?M ?P b buf)) [0..<?B])"
      by (simp add: concat_twice comp_def)
    also have "\<dots> = concat (map (\<lambda>b. take (?P * d) (drop (b * ?M * d) buf)) [0..<?B])"
      by (rule arg_cong [of _ _ concat], rule map_cong [OF refl]) (use le that in \<open>simp add: concat_rows\<close>)
    finally have eq: "concat (concat (map (\<lambda>b. rows d ?M ?P b buf) [0..<?B])) =
        concat (map (\<lambda>b. take (?P * d) (drop (b * ?M * d) buf)) [0..<?B])" .
    consider "kv_batch c = 1" | "kv_past_len c = kv_max_seq c" | "kv_batch c \<noteq> 1" "kv_past_len c \<noteq> kv_max_seq c"
      by blast
    then show ?thesis
    proof cases
      case 2
      then show ?thesis unfolding eq using concat_chunks [of "?M * d" buf ?B] by (simp add: mult.assoc)
    next
      case 1
      then show ?thesis unfolding eq by simp
    next
      case 3
      then show ?thesis unfolding eq by simp
    qed
  qed
  have len: "length (kv_k c ! l) = ?B * ?M * nat (kv_k_dim c)" "length (kv_v c ! l) = ?B * ?M * nat (kv_v_dim c)"
    using assms by (auto simp: kv_ok_def)
  have conf: "kv_configured c" "\<not> int l \<ge> kv_n_layers c" using assms by (auto simp: kv_ok_def kv_configured_def)
  show "floats (make_past_view (int l) True c) = concat (concat (map (k_rows c l) [0..<?B]))"
  proof (cases "kv_past_len c \<le> 0")
    case True
    then show ?thesis by (simp add: make_past_view_def k_rows_def rows_def no_view_def floats_def)
  next
    case False
    then show ?thesis using conf pack [OF len(1)]
      by (simp add: make_past_view_def k_rows_def [abs_def] floats_def Let_def)
  qed
  show "floats (make_past_view (int l) False c) = concat (concat (map (v_rows c l) [0..<?B]))"
  proof (cases "kv_past_len c \<le> 0")
    case True
    then show ?thesis by (simp add: make_past_view_def v_rows_def rows_def no_view_def floats_def)
  next
    case False
    then show ?thesis using conf pack [OF len(2)]
      by (simp add: make_past_view_def v_rows_def [abs_def] floats_def Let_def)
  qed
qed

text \<open>C10. After any sequence of decoding passes from a configured cache, each at most as
  long as the window less its sink, no pass has failed, the position counter is the number of
  tokens fed, and the past views of every layer are the rows of a sliding window over the whole
  history: everything while it fits, then the first \<open>sink\<close> tokens and the most recent ones.\<close>

theorem kv_cache_window:
  assumes "kv_configure zero n b m kd vd h s c0 = Inr c" and "b * m * kd < 2 ^ 64" "b * m * vd < 2 ^ 64"
    and "list_all (step_ok c) ss"
  shows "\<exists>c'. kv_run ss c = (Inr (), c') \<and> kv_rope_pos c' = sum_list (map step_seq ss) \<and>
    (\<forall>l < nat n. floats (make_past_view (int l) True c') = concat (concat (map (\<lambda>i.
        window (nat m) (nat (kv_sink c)) (concat (map (new_k c l i) ss))) [0..<nat b])) \<and>
      floats (make_past_view (int l) False c') = concat (concat (map (\<lambda>i.
        window (nat m) (nat (kv_sink c)) (concat (map (new_v c l i) ss))) [0..<nat b])))"
proof -
  note conf = configure_ok [OF assms(1-3)]
  have "k_rows c l i = window M S []" "v_rows c l i = window M S []" for l i M S
    by (simp_all add: k_rows_def v_rows_def rows_def conf(2) window_def)
  then obtain c' where c': "kv_run ss c = (Inr (), c')" "kv_ok c'"
    and dims: "kv_n_layers c' = kv_n_layers c" "kv_batch c' = kv_batch c"
    and pos: "kv_abs_pos c' = kv_abs_pos c + sum_list (map step_seq ss)"
    and rows: "\<forall>l < nat (kv_n_layers c). \<forall>b < nat (kv_batch c).
      k_rows c' l b = window (nat (kv_max_seq c)) (nat (kv_sink c)) ([] @ concat (map (new_k c l b) ss)) \<and>
      v_rows c' l b = window (nat (kv_max_seq c)) (nat (kv_sink c)) ([] @ concat (map (new_v c l b) ss))"
    using kv_run_window [OF conf(1) assms(4), of "\<lambda>_ _. []" "\<lambda>_ _. []"] by auto
  have "concat (concat (map (k_rows c' l) [0..<nat b])) = concat (concat (map (\<lambda>i.
        window (nat m) (nat (kv_sink c)) (concat (map (new_k c l i) ss))) [0..<nat b]))"
    "concat (concat (map (v_rows c' l) [0..<nat b])) = concat (concat (map (\<lambda>i.
        window (nat m) (nat (kv_sink c)) (concat (map (new_v c l i) ss))) [0..<nat b]))"
    if "l < nat n" for l
    using rows that conf(4-6) by (auto intro!: arg_cong [of _ _ concat])
  then show ?thesis
    using c'(1) pos conf(3-6) view_rows [OF c'(2)] by (simp add: dims kv_rope_pos_def)
qed

text \<open>C38. A pass that is longer than the window less the sink, but not longer than
  the window, is refused once the cache is full; but the refusal comes after the compaction, and
  everything behind the sink is gone from every layer.\<close>

theorem kv_overlong_pass_evicts:
  assumes "kv_ok c" and "kv_past_len c = kv_max_seq c" and "0 \<le> layer" "layer < kv_n_layers c"
    and "view_ok (kv_batch c) seq (kv_k_dim c) k" "view_ok (kv_batch c) seq (kv_v_dim c) v"
    and "kv_max_seq c - kv_sink c < seq" "seq \<le> kv_max_seq c"
    and "l < nat (kv_n_layers c)" "i < nat (kv_batch c)"
  shows "fst (kv_append_layer layer k v c) = Inl (kv_error (''KvCache capacity exceeded: seq='' @
      int_dec (kv_sink c + seq) @ '' max_seq='' @ int_dec (kv_max_seq c))) \<and>
    k_rows (snd (kv_append_layer layer k v c)) l i = take (nat (kv_sink c)) (k_rows c l i)"
proof -
  let ?c = "compact_to_fit seq c"
  have pos: "0 \<le> kv_sink c" "kv_sink c < kv_max_seq c" "0 \<le> seq" "kv_configured c"
    using assms(1,7) by (auto simp: kv_ok_def kv_configured_def)
  note comp = compact_spec [OF assms(1) pos(3)]
  have "dropped_rows seq c = kv_max_seq c - kv_sink c"
    using assms(2,7) pos by (simp add: dropped_rows_def)
  then have past: "kv_past_len ?c = kv_sink c" using comp(2) assms(2) by simp
  have len: "length (k_rows c l i) = nat (kv_max_seq c)" using assms(2) by (simp add: k_rows_def)
  have "nat (kv_sink c) < nat (kv_max_seq c)" "nat (kv_max_seq c) - nat (kv_sink c) \<le> nat seq"
    using assms(7) pos by linarith+
  from comp(3) [OF assms(9,10)] kept_full [OF len this]
  have rows: "k_rows ?c l i = take (nat (kv_sink c)) (k_rows c l i)" by (rule trans)
  have "kv_ensure_capacity (kv_sink c + seq) ?c = Inl (kv_error (''KvCache capacity exceeded: seq='' @
      int_dec (kv_sink c + seq) @ '' max_seq='' @ int_dec (kv_max_seq c)))"
    using pos(4) assms(7) by (simp add: kv_ensure_capacity_def kv_configured_def)
  then have ens: "kv_ensure_capacity (kv_past_len ?c + seq) ?c = Inl (kv_error (''KvCache capacity exceeded: seq='' @
      int_dec (kv_sink c + seq) @ '' max_seq='' @ int_dec (kv_max_seq c)))" by (simp only: past)
  have shapes: "parse_kv_shape k = Inr (kv_batch c, seq, kv_k_dim c)" "parse_kv_shape v = Inr (kv_batch c, seq, kv_v_dim c)"
    using assms(5,6) by (simp_all add: view_ok_def)
  have guards: "\<not> layer < 0" "\<not> layer \<ge> kv_n_layers c" "\<not> seq > kv_max_seq c" using assms(3,4,8) by simp_all
  have "kv_append_layer layer k v c = (Inl (kv_error (''KvCache capacity exceeded: seq='' @
      int_dec (kv_sink c + seq) @ '' max_seq='' @ int_dec (kv_max_seq c))), ?c)"
    unfolding kv_append_layer_def shapes rbind_simps Let_def
    by (simp only: pos(4) guards ens simp_thms if_False sum.case prod.case not_True_eq_False)
  with rows show ?thesis by simp
qed

section \<open>Witnesses\<close>

text \<open>One layer, a window of three rows, one of them a sink; five tokens are fed.\<close>

definition demo_view :: "int list \<Rightarrow> int tensor_view" where
  "demo_view fs = \<lparr>tv_dtype = DT_F32, tv_shape = [1, int (length fs), 1], tv_data = Some fs\<rparr>"

definition demo_passes :: "int kv_views list" where
  "demo_passes = map (\<lambda>x. [(demo_view [x], demo_view [- x])]) [10, 11, 12, 13, 14]"

definition demo_cache :: "int kv_cache" where
  "demo_cache = kv_new\<lparr>kv_n_layers := 1, kv_batch := 1, kv_max_seq := 3, kv_k_dim := 1, kv_v_dim := 1,
     kv_n_heads := 1, kv_sink := 1, kv_past_len := 0, kv_pending := 0, kv_abs_pos := 0,
     kv_k := [[0, 0, 0]], kv_v := [[0, 0, 0]]\<rparr>"

lemma demo_configured: "kv_configure 0 1 1 3 1 1 1 1 kv_new = Inr demo_cache"
proof -
  have "kv_elems 1 3 1 = 3" by (simp add: kv_elems_def)
  moreover have "replicate 3 0 = [0, 0, 0 :: int]" by (simp add: numeral_3_eq_3)
  ultimately show ?thesis by (simp add: kv_configure_def demo_cache_def)
qed

lemma demo_step:
  "step_ok demo_cache [(demo_view [x], demo_view [y])]"
  "new_k demo_cache 0 0 [(demo_view [x], demo_view [y])] = [[x]]"
  "new_v demo_cache 0 0 [(demo_view [x], demo_view [y])] = [[y]]"
proof -
  have shape: "parse_kv_shape (demo_view [z]) = Inr (1, 1, 1)" "floats (demo_view [z]) = [z]" for z
    by (simp_all add: parse_kv_shape_def demo_view_def tv_dim_def floats_def)
  have "step_seq [(demo_view [x], demo_view [y])] = 1" by (simp add: step_seq_def shape)
  then show "step_ok demo_cache [(demo_view [x], demo_view [y])]"
    "new_k demo_cache 0 0 [(demo_view [x], demo_view [y])] = [[x]]"
    "new_v demo_cache 0 0 [(demo_view [x], demo_view [y])] = [[y]]"
    by (simp_all add: step_ok_def view_ok_def shape demo_cache_def new_k_def new_v_def rows_def row_def)
qed

theorem kv_cache_window_witness:
  "floats (make_past_view 0 True (snd (kv_run demo_passes demo_cache))) = [10, 13, 14] \<and>
   floats (make_past_view 0 False (snd (kv_run demo_passes demo_cache))) = [-10, -13, -14]"
proof -
  have ok: "list_all (step_ok demo_cache) demo_passes" by (simp add: demo_passes_def demo_step)
  have small: "(1 :: int) * 3 * 1 < 2 ^ 64" by simp
  obtain c' where run: "kv_run demo_passes demo_cache = (Inr (), c')"
    and views: "\<forall>l < nat 1. floats (make_past_view (int l) True c') = concat (concat (map (\<lambda>i.
        window (nat 3) (nat (kv_sink demo_cache)) (concat (map (new_k demo_cache l i) demo_passes))) [0..<nat 1])) \<and>
      floats (make_past_view (int l) False c') = concat (concat (map (\<lambda>i.
        window (nat 3) (nat (kv_sink demo_cache)) (concat (map (new_v demo_cache l i) demo_passes))) [0..<nat 1]))"
    using kv_cache_window [OF demo_configured small small ok] by blast
  have "kv_sink demo_cache = 1" "[0..<nat 1] = [0]" by (simp_all add: demo_cache_def)
  then show ?thesis
    using views [rule_format, of 0] unfolding run by (simp add: demo_passes_def demo_step window_def)
qed

theorem kv_overlong_pass_evicts_witness:
  "let c = demo_cache\<lparr>kv_past_len := 3, kv_k := [[1, 2, 3]]\<rparr>;
       c' = snd (kv_append_layer 0 (demo_view [7, 8, 9]) (demo_view [7, 8, 9]) c)
   in k_rows c 0 0 = [[1], [2], [3]] \<and> k_rows c' 0 0 = [[1]]"
proof -
  let ?c = "demo_cache\<lparr>kv_past_len := 3, kv_k := [[1, 2, 3]]\<rparr>"
  have ok: "kv_ok ?c" by (simp add: kv_ok_def demo_cache_def)
  have "k_rows ?c 0 0 = [[1], [2], [3]]"
    by (simp add: k_rows_def rows_def row_def demo_cache_def upt_rec numeral_3_eq_3)
  moreover have "k_rows (snd (kv_append_layer 0 (demo_view [7, 8, 9]) (demo_view [7, 8, 9]) ?c)) 0 0 =
      take (nat (kv_sink ?c)) (k_rows ?c 0 0)"
    using kv_overlong_pass_evicts [OF ok, of 0 3 "demo_view [7, 8, 9]" "demo_view [7, 8, 9]" 0 0]
    by (simp add: demo_cache_def view_ok_def parse_kv_shape_def demo_view_def floats_def tv_dim_def)
  ultimately show ?thesis by (simp add: Let_def demo_cache_def)
qed

end
