(* ===== verification/Session_Kv.thy ===== *)
theory Session_Kv
  imports Optimize Kv_Cache
begin

text \<open>
  What a session reads off its graph: integers from the metadata and from attributes, and the shape of
  the KV cache (\<open>meta_i64\<close>, \<open>node_int_attr\<close> and \<open>Session::ensure_kv_cache\<close> in \<open>session.cpp\<close>), and the
  schedulers that place the operations of a plan (\<open>scheduler_cpu.cpp\<close>, \<open>scheduler_device.cpp\<close>).
\<close>

section \<open>Schedulers\<close>

record schedule_decision =
  sd_node_id :: u64
  sd_device :: device_type
  sd_priority :: int
  sd_reason :: string

definition cpu_schedule :: "u64 list \<Rightarrow> schedule_decision list" where
  "cpu_schedule ids = map (\<lambda>(k, i). \<lparr>sd_node_id = i, sd_device = DevCpu, sd_priority = int (length ids) - int k,
     sd_reason = ''cpu-default''\<rparr>) (enumerate 0 ids)"

definition cpu_schedule_plan :: "execution_plan \<Rightarrow> schedule_decision list" where
  "cpu_schedule_plan p = cpu_schedule (map po_node_id (ep_ops p))"

record device_scheduler =
  ds_preferred :: device_type
  ds_attention_host_fallback :: bool

definition place_op :: "device_scheduler \<Rightarrow> planned_op \<Rightarrow> device_type \<times> string" where
  "place_op s op = (if ds_preferred s = DevCpu then (DevCpu, ''cpu'')
     else if po_op_name op \<in> {''Attention'', ''RoPE'', ''Embedding''} \<and> ds_attention_host_fallback s
     then (DevCpu, ''attention-host-fallback'')
     else (ds_preferred s, ''device-preferred''))"

definition device_schedule_plan :: "device_scheduler \<Rightarrow> execution_plan \<Rightarrow> schedule_decision list" where
  "device_schedule_plan s p = map (\<lambda>(k, op). \<lparr>sd_node_id = po_node_id op, sd_device = fst (place_op s op),
     sd_priority = int (length (ep_ops p)) - int k, sd_reason = snd (place_op s op)\<rparr>) (enumerate 0 (ep_ops p))"

lemma device_schedule_length [simp]: "length (device_schedule_plan s p) = length (ep_ops p)"
  by (simp add: device_schedule_plan_def)

lemma device_schedule_nth:
  "k < length (ep_ops p) \<Longrightarrow> device_schedule_plan s p ! k =
     \<lparr>sd_node_id = po_node_id (ep_ops p ! k), sd_device = fst (place_op s (ep_ops p ! k)),
      sd_priority = int (length (ep_ops p)) - int k, sd_reason = snd (place_op s (ep_ops p ! k))\<rparr>"
  by (simp add: device_schedule_plan_def nth_enumerate_eq)

text \<open>On the CPU both schedulers place alike; on a device only the three host operations may go elsewhere.\<close>

lemma cpu_schedulers_agree:
  assumes "ds_preferred s = DevCpu"
  shows "map (\<lambda>d. (sd_node_id d, sd_device d, sd_priority d)) (device_schedule_plan s p) =
    map (\<lambda>d. (sd_node_id d, sd_device d, sd_priority d)) (cpu_schedule_plan p)"
  using assms
  by (intro nth_equalityI)
    (simp_all add: device_schedule_nth cpu_schedule_plan_def cpu_schedule_def nth_enumerate_eq place_op_def)

lemma place_op_device:
  "fst (place_op s op) = ds_preferred s \<or> fst (place_op s op) = DevCpu"
  by (simp add: place_op_def)

section \<open>Numbers in text\<close>

text \<open>
  \<open>std::stoll\<close> and \<open>std::stoull\<close>: leading white space, a sign and digits; what follows them is ignored.
  \<open>None\<close> is the exception.  A minus sign before an unsigned number negates it modulo 2^64.
\<close>

definition scan_number :: "string \<Rightarrow> bool \<times> string" where
  "scan_number s = (let (neg, r) = split_sign (skip_ws s) in (neg, takeWhile is_digit r))"

definition stoll :: "string \<Rightarrow> int option" where
  "stoll s = (let (neg, ds) = scan_number s; v = (if neg then - int (digits_value ds) else int (digits_value ds))
     in if ds = [] \<or> v < - (2 ^ 63) \<or> 2 ^ 63 \<le> v then None else Some v)"

definition stoull :: "string \<Rightarrow> u64 option" where
  "stoull s = (let (neg, ds) = scan_number s; v = digits_value ds
     in if ds = [] \<or> 2 ^ 64 \<le> v then None else Some (if neg then - word_of_nat v else word_of_nat v))"

definition meta_i64 :: "graph \<Rightarrow> string \<Rightarrow> int \<Rightarrow> int" where
  "meta_i64 g key d = (case map_of (g_metadata g) key of None \<Rightarrow> d
     | Some v \<Rightarrow> if v = [] then d else (case stoll v of None \<Rightarrow> d | Some n \<Rightarrow> n))"

fun node_int_attr :: "attribute list \<Rightarrow> string \<Rightarrow> int \<Rightarrow> int" where
  "node_int_attr [] key d = d"
| "node_int_attr (Attribute k (AInt v) # as) key d = (if k = key then sint v else node_int_attr as key d)"
| "node_int_attr (Attribute k _ # as) key d = node_int_attr as key d"

section \<open>The shape of the KV cache\<close>

definition head_attr :: "attribute \<Rightarrow> int \<times> int \<Rightarrow> int \<times> int" where
  "head_attr a = (\<lambda>(heads, kv). case a_value a of
       AInt v \<Rightarrow> (if a_key a = ''num_heads'' \<and> heads \<le> 0 then sint v else heads,
                 if a_key a = ''kv_heads'' \<and> kv \<le> 0 then sint v else kv)
     | _ \<Rightarrow> (heads, kv))"

fun scan_heads :: "node list \<Rightarrow> int \<times> int \<Rightarrow> int \<times> int" where
  "scan_heads [] hk = hk"
| "scan_heads (n # ns) hk = (if n_op_name n \<noteq> ''Attention'' then scan_heads ns hk
     else let hk = fold head_attr (n_attributes n) hk in if fst hk > 0 then hk else scan_heads ns hk)"

definition last_dim :: "tensor \<Rightarrow> int" where
  "last_dim t = sint (last (t_shape t))"

definition activation :: "tensor \<Rightarrow> bool" where
  "activation t \<longleftrightarrow> \<not> t_is_weight t \<and> length (t_shape t) \<ge> 2"

text \<open>The last dimension of the first tensor that satisfies \<open>P\<close>, or the value so far.\<close>

definition dim_of_first :: "(tensor \<Rightarrow> bool) \<Rightarrow> graph \<Rightarrow> int \<Rightarrow> int" where
  "dim_of_first P g d = (case find P (g_tensors g) of None \<Rightarrow> d | Some t \<Rightarrow> last_dim t)"

fun dim_of_suffixes :: "string list \<Rightarrow> graph \<Rightarrow> int \<Rightarrow> int" where
  "dim_of_suffixes [] g d = d"
| "dim_of_suffixes (suf # sufs) g d =
     (let d = dim_of_first (\<lambda>t. activation t \<and> ends_with suf (t_name t)) g d
      in if d > 0 then d else dim_of_suffixes sufs g d)"

text \<open>
  The last resort compares the end of a name with ".q" and ".attn".  A name of two to four characters
  that does not end in ".q" makes \<open>n.size() - 5\<close> wrap, and \<open>std::string::compare\<close> throws \<open>std::out_of_range\<close>: \<open>None\<close>.
\<close>

fun query_dim :: "tensor list \<Rightarrow> int \<Rightarrow> int option" where
  "query_dim [] d = Some d"
| "query_dim (t # ts) d = (let n = t_name t in
     if activation t \<and> length n \<ge> 2 then
       if ends_with ''.q'' n \<or> n = ''q'' then Some (last_dim t)
       else if length n < 5 then None
       else if ends_with ''.attn'' n then Some (last_dim t) else query_dim ts d
     else query_dim ts d)"

definition kv_heads_of :: "graph \<Rightarrow> int \<times> int" where
  "kv_heads_of g =
     (let kv = meta_i64 g ''n_kv_heads'' 0; heads = meta_i64 g ''n_heads'' 0;
          (heads, kv) = (if heads \<le> 0 \<or> kv \<le> 0 then scan_heads (g_nodes g) (heads, kv) else (heads, kv));
          heads = (if heads \<le> 0 then 1 else heads)
      in (heads, if kv \<le> 0 then heads else kv))"

definition kv_layers_of :: "graph \<Rightarrow> int" where
  "kv_layers_of g = (let n = meta_i64 g ''n_layers'' 0 in
     if n \<le> 0 then n + int (length (filter (\<lambda>n. n_op_name n = ''Attention'') (g_nodes g))) else n)"

definition kv_k_dim_of :: "graph \<Rightarrow> int option" where
  "kv_k_dim_of g =
     (let d = meta_i64 g ''kv_dim'' 0;
          d = (if d \<le> 0 then dim_of_suffixes [''.k_rope'', ''.k_full'', ''.k''] g d else d);
          d = (if d \<le> 0 then meta_i64 g ''embedding_length'' 0 else d);
          d = (if d \<le> 0 then meta_i64 g ''dim'' 0 else d);
          d = (if d \<le> 0 then dim_of_first (\<lambda>t. t_name t = ''hidden'' \<and> length (t_shape t) \<ge> 2) g d else d)
      in if d \<le> 0 then query_dim (g_tensors g) d else Some d)"

definition kv_v_dim_of :: "graph \<Rightarrow> int" where
  "kv_v_dim_of g = (let d = meta_i64 g ''v_dim'' 0 in
     if d \<le> 0 then dim_of_first (\<lambda>t. activation t \<and> (ends_with ''.v'' (t_name t) \<or> t_name t = ''v'')) g d else d)"

definition ensure_kv_cache ::
  "'f \<Rightarrow> graph \<Rightarrow> int \<Rightarrow> int \<Rightarrow> 'f kv_cache option \<Rightarrow> ((error + unit) \<times> 'f kv_cache option) option" where
  "ensure_kv_cache zero g sink max_seq kv =
     (case kv_k_dim_of g of None \<Rightarrow> None
      | Some k \<Rightarrow> Some (let layers = kv_layers_of g; v = (if kv_v_dim_of g \<le> 0 then k else kv_v_dim_of g) in
          if layers \<le> 0 \<or> k \<le> 0 \<or> max_seq \<le> 0 then (Inr (), None)
          else let c = (case kv of None \<Rightarrow> kv_new | Some c \<Rightarrow> c) in
            (case kv_configure zero layers 1 max_seq k v (snd (kv_heads_of g)) sink c of
               Inl e \<Rightarrow> (Inl e, Some c)
             | Inr c \<Rightarrow> (Inr (), Some (kv_reset zero c)))))"

text \<open>After a call the cache is empty and sized for the window, or there is none.\<close>

lemma ensured_cache:
  assumes "ensure_kv_cache zero g sink max_seq kv = Some (Inr (), Some c)"
  shows "kv_configured c" "kv_past_len c = 0" "kv_abs_pos c = 0" "kv_max_seq c = max_seq" "max_seq > 0" "kv_batch c = 1"
    "kv_n_layers c = kv_layers_of g" "kv_k_dim_of g = Some (kv_k_dim c)" "kv_rope_scale_len c = 0"
  using assms
  by (auto simp: ensure_kv_cache_def kv_configure_def kv_reset_def kv_configured_def Let_def
      split: option.splits sum.splits if_splits)

lemma layers_counted:
  "kv_layers_of g = (if meta_i64 g ''n_layers'' 0 > 0 then meta_i64 g ''n_layers'' 0
     else meta_i64 g ''n_layers'' 0 + int (length (filter (\<lambda>n. n_op_name n = ''Attention'') (g_nodes g))))"
  by (simp add: kv_layers_of_def Let_def)

text \<open>A graph whose only activation has a short name: generation dies with an exception.\<close>

definition short_name_graph :: graph where
  "short_name_graph = graph_default\<lparr>g_tensors := [tensor_default\<lparr>t_id := 1, t_name := ''h1'', t_dtype := DT_F32,
     t_shape := [1, 8]\<rparr>]\<rparr>"

lemma short_name_throws: "ensure_kv_cache zero short_name_graph sink max_seq kv = None"
proof -
  have "kv_k_dim_of short_name_graph = None" by code_simp
  then show ?thesis by (simp add: ensure_kv_cache_def)
qed

end
