(* ===== verification/File_Provider.thy ===== *)
theory File_Provider
  imports Storage_Plan
begin

text \<open>
  \<open>FileStorageProvider\<close> (\<open>storage/file_provider.hpp\<close>, \<open>file_provider.cpp\<close>), on POSIX: files are opened by
  mapping them, or, when mappings are not preferred, read with \<open>fread\<close> at each call.  The operating
  system is the parameter \<open>os\<close>: what opening a path yields.  A file does not change while it is
  mapped.  \<open>None\<close> is a read outside the mapping, which the language leaves undefined.
\<close>

section \<open>State\<close>

datatype open_result = OpenFailed | StatFailed | MapFailed "u8 list" | Opened "u8 list"

record tensor_handle =
  th_id :: u64
  th_tier :: storage_tier
  th_uri :: string
  th_offset :: u64
  th_size_bytes :: u64

record file_provider =
  fp_prefer_mmap :: bool
  fp_next_id :: u64
  fp_bytes_read :: u64
  fp_paths :: "u64 \<rightharpoonup> string"
  fp_maps :: "u64 \<rightharpoonup> u8 list"

definition fp_new :: "bool \<Rightarrow> file_provider" where
  "fp_new prefer_mmap = \<lparr>fp_prefer_mmap = prefer_mmap, fp_next_id = 1, fp_bytes_read = 0, fp_paths = Map.empty,
     fp_maps = Map.empty\<rparr>"

definition io_error :: "string \<Rightarrow> error" where
  "io_error m = Error IoError m"

section \<open>Operations\<close>

definition fp_register ::
  "storage_tier \<Rightarrow> string \<Rightarrow> u64 \<Rightarrow> tensor_handle \<Rightarrow> file_provider \<Rightarrow> tensor_handle \<times> file_provider" where
  "fp_register tier uri nb h p = (h\<lparr>th_id := fp_next_id p, th_tier := tier, th_uri := uri, th_offset := 0,
     th_size_bytes := nb\<rparr>, p\<lparr>fp_next_id := fp_next_id p + 1, fp_paths := (fp_paths p)(fp_next_id p \<mapsto> uri)\<rparr>)"

definition fp_open ::
  "(string \<Rightarrow> open_result) \<Rightarrow> string \<Rightarrow> tensor_handle \<Rightarrow> file_provider \<Rightarrow> (error + unit) \<times> tensor_handle \<times> file_provider" where
  "fp_open os uri h p =
     (if fp_prefer_mmap p then
        (case os uri of
           OpenFailed \<Rightarrow> (Inl (io_error (''open failed '' @ uri)), h, p)
         | StatFailed \<Rightarrow> (Inl (io_error ''fstat failed''), h, p)
         | MapFailed bs \<Rightarrow> (Inl (io_error (if bs = [] then ''empty file '' @ uri else ''mmap failed '' @ uri)), h, p)
         | Opened bs \<Rightarrow> (if bs = [] then (Inl (io_error (''empty file '' @ uri)), h, p)
             else let (h', p') = fp_register TierMmap uri (word_of_nat (length bs)) h p
               in (Inr (), h', p'\<lparr>fp_maps := (fp_maps p')(th_id h' \<mapsto> bs)\<rparr>)))
      else
        (case os uri of
           OpenFailed \<Rightarrow> (Inl (io_error (''failed to open '' @ uri)), h, p)
         | StatFailed \<Rightarrow> (Inl (io_error (''seek failed '' @ uri)), h, p)
         | MapFailed bs \<Rightarrow> (case fp_register TierDisk uri (word_of_nat (length bs)) h p of (h', p') \<Rightarrow> (Inr (), h', p'))
         | Opened bs \<Rightarrow> (case fp_register TierDisk uri (word_of_nat (length bs)) h p of (h', p') \<Rightarrow> (Inr (), h', p'))))"

definition fp_close :: "tensor_handle \<Rightarrow> file_provider \<Rightarrow> file_provider" where
  "fp_close h p = p\<lparr>fp_paths := (fp_paths p)(th_id h := None), fp_maps := (fp_maps p)(th_id h := None)\<rparr>"

definition slice :: "nat \<Rightarrow> nat \<Rightarrow> 'a list \<Rightarrow> 'a list" where
  "slice off n xs = take n (drop off xs)"

text \<open>A read yields its result and the bytes it left in the destination.\<close>

definition read_mapped :: "u8 list \<Rightarrow> tensor_handle \<Rightarrow> u64 \<Rightarrow> u64 \<Rightarrow> ((error + unit) \<times> u8 list) option" where
  "read_mapped bs h offset nb =
     (if offset + nb > word_of_nat (length bs) then Some (Inl (Error InvalidArgument ''mmap read OOB''), [])
      else if unat (th_offset h + offset) + unat nb > length bs then None
      else Some (Inr (), slice (unat (th_offset h + offset)) (unat nb) bs))"

definition file_bytes :: "open_result \<Rightarrow> u8 list" where
  "file_bytes r = (case r of MapFailed bs \<Rightarrow> bs | Opened bs \<Rightarrow> bs | _ \<Rightarrow> [])"

definition read_buffered :: "(string \<Rightarrow> open_result) \<Rightarrow> string \<Rightarrow> tensor_handle \<Rightarrow> u64 \<Rightarrow> u64 \<Rightarrow> (error + unit) \<times> u8 list" where
  "read_buffered os path h offset nb =
     (let at = th_offset h + offset; got = slice (unat at) (unat nb) (file_bytes (os path)) in
      if os path = OpenFailed then (Inl (io_error (''failed to open for read '' @ path)), [])
      else if os path = StatFailed \<or> sint at < 0 then (Inl (io_error ''seek failed''), [])
      else if length got \<noteq> unat nb then (Inl (io_error (''short read from '' @ path)), got)
      else (Inr (), got))"

definition fp_read ::
  "(string \<Rightarrow> open_result) \<Rightarrow> tensor_handle \<Rightarrow> u64 \<Rightarrow> u64 \<Rightarrow> file_provider \<Rightarrow> ((error + unit) \<times> u8 list) option \<times> file_provider" where
  "fp_read os h offset nb p =
     (let r = (if nb = 0 then Some (Inl (Error InvalidArgument ''read dst/size invalid''), [])
          else case fp_maps p (th_id h) of Some bs \<Rightarrow> read_mapped bs h offset nb
            | None \<Rightarrow> (case fp_paths p (th_id h) of None \<Rightarrow> Some (Inl (Error NotFound ''handle not open''), [])
                | Some path \<Rightarrow> Some (read_buffered os path h offset nb)))
      in (r, case r of Some (Inr _, _) \<Rightarrow> p\<lparr>fp_bytes_read := fp_bytes_read p + nb\<rparr> | _ \<Rightarrow> p))"

definition fp_reset_stats :: "file_provider \<Rightarrow> file_provider" where
  "fp_reset_stats p = p\<lparr>fp_bytes_read := 0\<rparr>"

section \<open>Reading what was opened\<close>

text \<open>A request that does not wrap, on a handle of a mapped file.\<close>

lemma read_mapped_exact:
  assumes "unat offset + unat nb < 2 ^ 64" "th_offset h = 0" "length bs < 2 ^ 64"
  shows "read_mapped bs h offset nb = Some (if unat offset + unat nb \<le> length bs
    then (Inr (), slice (unat offset) (unat nb) bs) else (Inl (Error InvalidArgument ''mmap read OOB''), []))"
proof -
  have "unat (word_of_nat (length bs) :: u64) = length bs" by (rule of_nat_inverse) (use assms(3) in simp_all)
  moreover have "unat (offset + nb) = unat offset + unat nb" using assms(1) by (simp add: unat_add_exact)
  ultimately have "offset + nb > word_of_nat (length bs) \<longleftrightarrow> unat offset + unat nb > length bs"
    by (simp add: word_less_nat_alt)
  then show ?thesis using assms(2) by (auto simp: read_mapped_def)
qed

text \<open>
  A freshly opened mapped file reads back its own bytes and refuses reads past its end; the
  handles opened before keep their mappings.
\<close>

lemma open_then_read:
  assumes "fp_prefer_mmap p" "os uri = Opened bs" "bs \<noteq> []" "length bs < 2 ^ 64"
    and "0 < nb" "unat offset + unat nb < 2 ^ 64" "fp_open os uri h p = (r, h', p')"
  shows "r = Inr ()" "fst (fp_read os h' offset nb p') = Some (if unat offset + unat nb \<le> length bs
      then (Inr (), slice (unat offset) (unat nb) bs) else (Inl (Error InvalidArgument ''mmap read OOB''), []))"
    and "th_size_bytes h' = word_of_nat (length bs)" "th_id h' = fp_next_id p"
  using assms read_mapped_exact [OF assms(6) _ assms(4), of h']
  by (auto simp: fp_open_def fp_register_def fp_read_def Let_def)

text \<open>A huge offset wraps in the check, and the copy starts outside the mapping.\<close>

lemma read_mapped_wraps:
  assumes "fp_maps p (th_id h) = Some bs" "th_offset h = 0" "length bs < 2 ^ 63"
    and "offset = - 1" "nb = 1"
  shows "fst (fp_read os h offset nb p) = None"
proof -
  have "unat (- 1 :: u64) = 2 ^ 64 - 1"
    by (simp add: unsigned_minus_1_eq_mask mask_eq_exp_minus_1)
  then show ?thesis using assms by (auto simp: fp_read_def read_mapped_def Let_def)
qed

end
