(* ===== verification/Streaming_Store.thy ===== *)
theory Streaming_Store
  imports File_Provider
begin

text \<open>
  \<open>StreamingWeightStore\<close> (\<open>storage/streaming.hpp\<close>, \<open>streaming.cpp\<close>): weights that do not fit the RAM budget
  are loaded on demand into one or two staging buffers, with an LRU cache for expert weights.  The
  pointers handed out are values of \<open>staged_ptr\<close>, so that what a pointer shows is what the
  memory behind it holds at that moment.

  The loader is a parameter that yields a result and the bytes it left at the start of the
  destination, whether it failed or not.  A prefetch runs concurrently: its task is pending until
  \<open>ss_complete\<close>, which may come at any time before the call that waits for it, and which runs the
  load as one step.
\<close>

section \<open>State\<close>

type_synonym weight_loader = "u64 \<Rightarrow> string \<Rightarrow> nat \<Rightarrow> (error + unit) \<times> u8 list"

datatype staged_ptr = Slot nat | Expert u64

record streaming_store =
  ss_provider :: file_provider
  ss_dir :: string
  ss_buffers :: "u8 list list"
  ss_resident :: "u64 list"
  ss_active :: nat
  ss_future :: "(nat \<times> u64 \<times> (error + unit) option) option"
  ss_prefetch_id :: u64
  ss_handles :: "u64 \<rightharpoonup> tensor_handle"
  ss_sizes :: "u64 \<rightharpoonup> u64"
  ss_expert :: "u64 \<rightharpoonup> bool"
  ss_expert_budget :: u64
  ss_expert_used :: u64
  ss_hits :: u64
  ss_misses :: u64
  ss_loader_bytes :: u64
  ss_lru :: "u64 list"
  ss_store :: "u64 \<rightharpoonup> u8 list"
  ss_hot :: "u64 list"

definition ss_new :: streaming_store where
  "ss_new = \<lparr>ss_provider = fp_new True, ss_dir = [], ss_buffers = [[], []], ss_resident = [0, 0], ss_active = 0,
     ss_future = None, ss_prefetch_id = 0, ss_handles = Map.empty, ss_sizes = Map.empty, ss_expert = Map.empty,
     ss_expert_budget = 0, ss_expert_used = 0, ss_hits = 0, ss_misses = 0, ss_loader_bytes = 0, ss_lru = [],
     ss_store = Map.empty, ss_hot = []\<rparr>"

definition before_hash :: "string \<Rightarrow> string" where
  "before_hash s = takeWhile (\<lambda>c. c \<noteq> CHR ''#'') s"

definition is_slash :: "char \<Rightarrow> bool" where
  "is_slash c \<longleftrightarrow> c = CHR ''/'' \<or> c = CHR 0x5C"

definition join_weight_path :: "string \<Rightarrow> string \<Rightarrow> string" where
  "join_weight_path dir file = (if dir = [] then file
     else if file \<noteq> [] \<and> is_slash (hd file) then file
     else if is_slash (last dir) then dir @ before_hash file else dir @ ''/'' @ before_hash file)"

section \<open>The expert cache\<close>

definition ss_is_streamed :: "streaming_store \<Rightarrow> u64 \<Rightarrow> bool" where
  "ss_is_streamed s i \<longleftrightarrow> ss_sizes s i \<noteq> None"

definition ss_is_expert :: "streaming_store \<Rightarrow> u64 \<Rightarrow> bool" where
  "ss_is_expert s i \<longleftrightarrow> ss_expert s i = Some True"

definition expert_touch :: "u64 \<Rightarrow> streaming_store \<Rightarrow> streaming_store" where
  "expert_touch i s = s\<lparr>ss_lru := i # removeAll i (ss_lru s)\<rparr>"

definition expert_is_hot :: "streaming_store \<Rightarrow> u64 \<Rightarrow> bool" where
  "expert_is_hot s i \<longleftrightarrow> i \<in> set (ss_hot s)"

definition max_hot :: nat where "max_hot = 32"

definition expert_mark_hot :: "u64 \<Rightarrow> streaming_store \<Rightarrow> streaming_store" where
  "expert_mark_hot i s = (let hot = removeAll i (ss_hot s) @ [i] in
     s\<lparr>ss_hot := (if length hot > max_hot then drop (length hot - max_hot) hot else hot)\<rparr>)"

text \<open>The least recently used expert that is not hot; the id 0 stands for none.\<close>

definition victim :: "streaming_store \<Rightarrow> u64" where
  "victim s = (case find (\<lambda>i. \<not> expert_is_hot s i) (rev (ss_lru s)) of None \<Rightarrow> 0 | Some i \<Rightarrow> i)"

definition drop_expert :: "u64 \<Rightarrow> streaming_store \<Rightarrow> streaming_store" where
  "drop_expert v s = (let s = s\<lparr>ss_lru := removeAll v (ss_lru s)\<rparr> in
     case ss_store s v of None \<Rightarrow> s
     | Some bs \<Rightarrow> s\<lparr>ss_expert_used := (if ss_expert_used s \<ge> word_of_nat (length bs)
           then ss_expert_used s - word_of_nat (length bs) else 0),
         ss_store := (ss_store s)(v := None)\<rparr>)"

lemma length_drop_expert: "v \<in> set (ss_lru s) \<Longrightarrow> length (ss_lru (drop_expert v s)) < length (ss_lru s)"
  by (simp add: drop_expert_def Let_def length_removeAll_less split: option.split)

lemma victim_in_lru: "victim s \<noteq> 0 \<Longrightarrow> victim s \<in> set (ss_lru s)"
proof -
  assume "victim s \<noteq> 0"
  then have "find (\<lambda>i. \<not> expert_is_hot s i) (rev (ss_lru s)) = Some (victim s)"
    by (simp add: victim_def split: option.splits)
  then show ?thesis by (metis find_Some_iff nth_mem set_rev)
qed

function evict_loop :: "u64 \<Rightarrow> streaming_store \<Rightarrow> streaming_store" where
  "evict_loop incoming s =
     (if ss_lru s \<noteq> [] \<and> ss_expert_used s + incoming > ss_expert_budget s \<and> victim s \<noteq> 0
      then evict_loop incoming (drop_expert (victim s) s) else s)"
  by (pat_completeness, simp)

termination evict_loop
  by (relation "measure (\<lambda>(_, s). length (ss_lru s))") (simp_all add: length_drop_expert victim_in_lru)

declare evict_loop.simps [simp del]

definition expert_evict_to_fit :: "u64 \<Rightarrow> streaming_store \<Rightarrow> streaming_store" where
  "expert_evict_to_fit incoming s = (if ss_expert_budget s = 0 then s else evict_loop incoming s)"

definition expert_put :: "u64 \<Rightarrow> u8 list \<Rightarrow> streaming_store \<Rightarrow> streaming_store" where
  "expert_put i bs s =
     (if bs = [] then s
      else let n = word_of_nat (length bs);
               s = (if ss_expert_budget s = 0 then s\<lparr>ss_expert_budget := max (n * 4) (64 * 1024 * 1024)\<rparr> else s);
               s = expert_evict_to_fit n s;
               s = (case ss_store s i of None \<Rightarrow> s
                 | Some old \<Rightarrow> if ss_expert_used s \<ge> word_of_nat (length old)
                     then s\<lparr>ss_expert_used := ss_expert_used s - word_of_nat (length old)\<rparr> else s)
           in expert_mark_hot i (expert_touch i
             (s\<lparr>ss_store := (ss_store s)(i \<mapsto> bs), ss_expert_used := ss_expert_used s + n\<rparr>)))"

section \<open>Staging\<close>

definition overwrite :: "'a list \<Rightarrow> 'a list \<Rightarrow> 'a list" where
  "overwrite dst bs = bs @ drop (length bs) dst"

definition fill_slot :: "nat \<Rightarrow> u8 list \<Rightarrow> streaming_store \<Rightarrow> streaming_store" where
  "fill_slot k bs s = s\<lparr>ss_buffers := (ss_buffers s)[k := overwrite (ss_buffers s ! k) bs]\<rparr>"

definition occupy :: "nat \<Rightarrow> u64 \<Rightarrow> streaming_store \<Rightarrow> streaming_store" where
  "occupy k i s = s\<lparr>ss_resident := (ss_resident s)[k := i]\<rparr>"

text \<open>
  The load itself, from the loader or through the file provider.  The provider reads at offset 0
  of a handle it opened, so a read outside the mapping does not occur (\<open>read_mapped_exact\<close>).
\<close>

definition load_weight ::
  "(string \<Rightarrow> open_result) \<Rightarrow> weight_loader option \<Rightarrow> nat \<Rightarrow> u64 \<Rightarrow> u64 \<Rightarrow> tensor_handle \<Rightarrow> streaming_store
     \<Rightarrow> (error + unit) \<times> streaming_store" where
  "load_weight os ld k i nb h s =
     (case ld of
        Some f \<Rightarrow> (case f i (th_uri h) (unat nb) of
            (Inl e, bs) \<Rightarrow> (Inl e, fill_slot k bs s)
          | (Inr _, bs) \<Rightarrow> (Inr (), (fill_slot k bs s)\<lparr>ss_loader_bytes := ss_loader_bytes s + nb\<rparr>))
      | None \<Rightarrow>
          let (r, h, p) = (if th_id h = 0 then fp_open os (join_weight_path (ss_dir s) (th_uri h)) h (ss_provider s)
                else (Inr (), h, ss_provider s));
              s = s\<lparr>ss_provider := p, ss_handles := (ss_handles s)(i \<mapsto> h)\<rparr> in
          case r of Inl e \<Rightarrow> (Inl e, s)
          | Inr _ \<Rightarrow> (case fp_read os h 0 nb p of
              (None, p) \<Rightarrow> (Inl (io_error ''undefined read''), s\<lparr>ss_provider := p\<rparr>)
            | (Some (r, bs), p) \<Rightarrow> (r, (fill_slot k bs s)\<lparr>ss_provider := p\<rparr>)))"

definition stage_miss ::
  "(string \<Rightarrow> open_result) \<Rightarrow> weight_loader option \<Rightarrow> nat \<Rightarrow> u64 \<Rightarrow> u64 \<Rightarrow> streaming_store
     \<Rightarrow> (error + unit) \<times> streaming_store" where
  "stage_miss os ld k i nb s =
     (let s = (if ss_is_expert s i then s\<lparr>ss_misses := ss_misses s + 1\<rparr> else s) in
      case ss_handles s i of None \<Rightarrow> (Inl (Error NotFound ''no handle for streamed weight''), s)
      | Some h \<Rightarrow> (case load_weight os ld k i nb h s of
          (Inl e, s) \<Rightarrow> (Inl e, s)
        | (Inr _, s) \<Rightarrow> (Inr (), occupy k i
            (if ss_is_expert s i then expert_put i (take (unat nb) (ss_buffers s ! k)) s else s))))"

definition stage_into ::
  "(string \<Rightarrow> open_result) \<Rightarrow> weight_loader option \<Rightarrow> nat \<Rightarrow> u64 \<Rightarrow> streaming_store \<Rightarrow> (error + unit) \<times> streaming_store" where
  "stage_into os ld k i s =
     (case ss_sizes s i of None \<Rightarrow> (Inl (Error NotFound ''tensor not streamed''), s)
      | Some nb \<Rightarrow>
          if unat nb > length (ss_buffers s ! k)
          then (Inl (Error InvalidArgument ''weight exceeds staging buffer''), s)
          else (case (if ss_is_expert s i then ss_store s i else None) of
              Some bs \<Rightarrow> if length bs = unat nb
                then (Inr (), occupy k i ((expert_touch i (fill_slot k bs s))\<lparr>ss_hits := ss_hits s + 1\<rparr>))
                else stage_miss os ld k i nb s
            | None \<Rightarrow> stage_miss os ld k i nb s))"

definition ss_complete ::
  "(string \<Rightarrow> open_result) \<Rightarrow> weight_loader option \<Rightarrow> streaming_store \<Rightarrow> streaming_store" where
  "ss_complete os ld s = (case ss_future s of
       Some (k, i, None) \<Rightarrow> (let (r, s') = stage_into os ld k i s in s'\<lparr>ss_future := Some (k, i, Some r)\<rparr>)
     | _ \<Rightarrow> s)"

definition ss_prefetch :: "u64 \<Rightarrow> streaming_store \<Rightarrow> streaming_store" where
  "ss_prefetch i s =
     (if \<not> ss_is_streamed s i \<or> ss_buffers s ! 1 = [] then s
      else if ss_resident s ! ss_active s = i \<or> ss_resident s ! (1 - ss_active s) = i then s
      else if ss_future s \<noteq> None then s
      else s\<lparr>ss_prefetch_id := i, ss_future := Some (1 - ss_active s, i, None)\<rparr>)"

definition staged_result :: "u64 \<Rightarrow> u64 \<Rightarrow> streaming_store \<Rightarrow> (error + staged_ptr \<times> u64) \<times> streaming_store" where
  "staged_result i nb s =
     (case (if ss_is_expert s i then ss_store s i else None) of
        None \<Rightarrow> (Inr (Slot (ss_active s), nb), s)
      | Some bs \<Rightarrow> if bs = [] then (Inr (Slot (ss_active s), nb), s)
          else (Inr (Expert i, word_of_nat (length bs)), expert_mark_hot i s))"

definition activate :: "nat \<Rightarrow> streaming_store \<Rightarrow> streaming_store" where
  "activate k s = (if ss_buffers s ! k \<noteq> [] then s\<lparr>ss_active := k\<rparr> else s)"

definition drop_future :: "streaming_store \<Rightarrow> streaming_store" where
  "drop_future s = (if ss_future s = None then s else s\<lparr>ss_future := None, ss_prefetch_id := 0\<rparr>)"

definition choose_slot ::
  "(string \<Rightarrow> open_result) \<Rightarrow> weight_loader option \<Rightarrow> u64 \<Rightarrow> streaming_store \<Rightarrow> (error + unit) \<times> streaming_store" where
  "choose_slot os ld i s =
     (let awaited = (ss_future s \<noteq> None \<and> ss_prefetch_id s = i);
          s = ss_complete os ld s;
          other = 1 - ss_active s
      in if awaited then
           (case ss_future s of Some (_, _, Some (Inl e)) \<Rightarrow> (Inl e, drop_future s)
            | _ \<Rightarrow> (Inr (), activate other (drop_future s)))
         else let s = drop_future s in
           if ss_resident s ! ss_active s = i then (Inr (), s)
           else if ss_buffers s ! other \<noteq> [] \<and> ss_resident s ! other = i then (Inr (), s\<lparr>ss_active := other\<rparr>)
           else stage_into os ld (ss_active s) i s)"

definition ss_stage ::
  "(string \<Rightarrow> open_result) \<Rightarrow> weight_loader option \<Rightarrow> u64 \<Rightarrow> streaming_store
     \<Rightarrow> (error + staged_ptr \<times> u64) \<times> streaming_store" where
  "ss_stage os ld i s = (case ss_sizes s i of None \<Rightarrow> (Inl (Error NotFound ''tensor not streamed''), s)
     | Some nb \<Rightarrow> (case choose_slot os ld i s of (Inl e, s) \<Rightarrow> (Inl e, s) | (Inr _, s) \<Rightarrow> staged_result i nb s))"

definition ss_peek :: "u64 \<Rightarrow> streaming_store \<Rightarrow> (staged_ptr \<times> u64) option" where
  "ss_peek i s =
     (if (case ss_future s of Some (_, _, None) \<Rightarrow> ss_prefetch_id s = i | _ \<Rightarrow> False) then None
      else let k = 1 - ss_active s in
        if ss_buffers s ! k = [] \<or> ss_resident s ! k \<noteq> i then None
        else map_option (\<lambda>nb. (Slot k, nb)) (ss_sizes s i))"

definition ss_slot_resident :: "streaming_store \<Rightarrow> int \<Rightarrow> u64" where
  "ss_slot_resident s k = (if k < 0 \<or> k > 1 then 0 else ss_resident s ! nat k)"

definition ss_slot_data :: "streaming_store \<Rightarrow> int \<Rightarrow> staged_ptr option" where
  "ss_slot_data s k = (if k < 0 \<or> k > 1 then None else Some (Slot (nat k)))"

definition ss_tensor_bytes :: "streaming_store \<Rightarrow> u64 \<Rightarrow> u64" where
  "ss_tensor_bytes s i = (case ss_sizes s i of None \<Rightarrow> 0 | Some nb \<Rightarrow> nb)"

definition ss_bytes_read :: "streaming_store \<Rightarrow> u64" where
  "ss_bytes_read s = fp_bytes_read (ss_provider s) + ss_loader_bytes s"

definition ss_reset_stats :: "streaming_store \<Rightarrow> streaming_store" where
  "ss_reset_stats s = s\<lparr>ss_provider := fp_reset_stats (ss_provider s), ss_loader_bytes := 0, ss_hits := 0, ss_misses := 0\<rparr>"

definition stream_handle :: "storage_placement \<Rightarrow> tensor_handle" where
  "stream_handle p = \<lparr>th_id = 0, th_tier = TierDisk, th_uri = (if sp_uri p = [] then sp_name p else sp_uri p),
     th_offset = 0, th_size_bytes = sp_bytes p\<rparr>"

definition ss_configure ::
  "(string \<Rightarrow> open_result) \<Rightarrow> weight_loader option \<Rightarrow> storage_plan \<Rightarrow> string \<Rightarrow> streaming_store \<Rightarrow> streaming_store" where
  "ss_configure os ld plan dir s =
     (let s = ss_complete os ld s; staging = unat (max (st_staging_bytes plan) 1); zeros = replicate staging 0;
          ps = filter sp_stream (st_placements plan)
      in s\<lparr>ss_dir := dir, ss_buffers := [zeros, if st_staging_slots plan \<le> 1 then [] else zeros],
           ss_resident := [0, 0], ss_active := 0, ss_prefetch_id := 0,
           ss_handles := fold (\<lambda>p m. m(sp_tensor_id p \<mapsto> stream_handle p)) ps Map.empty,
           ss_sizes := fold (\<lambda>p m. m(sp_tensor_id p \<mapsto> sp_bytes p)) ps Map.empty,
           ss_expert := fold (\<lambda>p m. m(sp_tensor_id p \<mapsto> sp_expert p)) ps Map.empty,
           ss_expert_budget := st_expert_cache_bytes plan, ss_expert_used := 0, ss_hits := 0, ss_misses := 0,
           ss_loader_bytes := 0, ss_lru := [], ss_store := Map.empty, ss_hot := []\<rparr>)"

text \<open>What a pointer shows now; a pointer into an evicted expert shows nothing.\<close>

definition deref :: "streaming_store \<Rightarrow> staged_ptr \<Rightarrow> u8 list option" where
  "deref s p = (case p of Slot k \<Rightarrow> Some (ss_buffers s ! k) | Expert i \<Rightarrow> ss_store s i)"

section \<open>The expert cache keeps its books\<close>

text \<open>What the operations on the cache leave alone.\<close>

definition same_slots :: "streaming_store \<Rightarrow> streaming_store \<Rightarrow> bool" where
  "same_slots s s' \<longleftrightarrow> ss_buffers s' = ss_buffers s \<and> ss_resident s' = ss_resident s \<and> ss_active s' = ss_active s \<and>
     ss_future s' = ss_future s \<and> ss_prefetch_id s' = ss_prefetch_id s \<and> ss_handles s' = ss_handles s \<and>
     ss_sizes s' = ss_sizes s \<and> ss_expert s' = ss_expert s"

lemma same_slots_refl [simp]: "same_slots s s"
  by (simp add: same_slots_def)

lemma same_slots_trans: "same_slots s t \<Longrightarrow> same_slots t u \<Longrightarrow> same_slots s u"
  by (simp add: same_slots_def)

lemma drop_expert_frame: "same_slots s (drop_expert v s)"
  by (simp add: same_slots_def drop_expert_def Let_def split: option.split)

lemma evict_loop_frame: "same_slots s (evict_loop n s)"
proof (induction n s rule: evict_loop.induct)
  case (1 n s)
  then show ?case
    by (subst evict_loop.simps) (auto intro: same_slots_trans drop_expert_frame)
qed

lemma expert_put_frame: "same_slots s (expert_put i bs s)"
proof -
  have "same_slots s (expert_evict_to_fit n t)" if "same_slots s t" for n t
    using that same_slots_trans evict_loop_frame by (auto simp: expert_evict_to_fit_def)
  note evict = this [unfolded same_slots_def]
  show ?thesis
  proof (cases "bs = []")
    case False
    have "same_slots s (if ss_expert_budget s = 0 then s\<lparr>ss_expert_budget := b\<rparr> else s)" for b
      by (simp add: same_slots_def)
    then show ?thesis using False evict
      by (simp add: expert_put_def Let_def expert_mark_hot_def expert_touch_def same_slots_def split: option.split)
  qed (simp add: expert_put_def)
qed

text \<open>
  The books: the recency list is the key set of the store, each expert is stored with its
  content, and the bytes in use are the sum of what is stored.
\<close>

definition stored_bytes :: "(u64 \<Rightarrow> u8 list) \<Rightarrow> u64 set \<Rightarrow> nat" where
  "stored_bytes content A = (\<Sum>i \<in> A. length (content i))"

definition books_ok :: "(u64 \<Rightarrow> u8 list) \<Rightarrow> streaming_store \<Rightarrow> bool" where
  "books_ok content s \<longleftrightarrow> distinct (ss_lru s) \<and> set (ss_lru s) = dom (ss_store s) \<and>
     (\<forall>i bs. ss_store s i = Some bs \<longrightarrow> bs = content i) \<and>
     unat (ss_expert_used s) = stored_bytes content (set (ss_lru s)) \<and>
     distinct (ss_hot s) \<and> length (ss_hot s) \<le> max_hot"

lemma stored_bytes_remove:
  assumes "finite A" "i \<in> A"
  shows "stored_bytes content A = length (content i) + stored_bytes content (A - {i})"
  using assms by (simp add: stored_bytes_def sum.remove)

lemma unat_sub_exact: "b \<le> a \<Longrightarrow> unat (a - b :: u64) = unat a - unat b"
  by (simp add: word_le_nat_alt unat_sub)

lemma unat_len: "n < 2 ^ 64 \<Longrightarrow> unat (word_of_nat n :: u64) = n"
  by (rule of_nat_inverse) simp_all

lemma remove_expert_used:
  assumes "unat used = stored_bytes content A" "finite A" "i \<in> A"
  shows "word_of_nat (length (content i)) \<le> (used :: u64)"
    and "unat (used - word_of_nat (length (content i))) = stored_bytes content (A - {i})"
proof -
  have le: "length (content i) \<le> unat used" using assms stored_bytes_remove [OF assms(2,3)] by simp
  then have len: "unat (word_of_nat (length (content i)) :: u64) = length (content i)"
    using unat_u64_less [of used] by (intro unat_len) linarith
  show ge: "word_of_nat (length (content i)) \<le> used" using le len by (simp add: word_le_nat_alt)
  show "unat (used - word_of_nat (length (content i))) = stored_bytes content (A - {i})"
    using assms(1) len stored_bytes_remove [OF assms(2,3)] by (simp add: unat_sub_exact [OF ge])
qed

lemma drop_expert_stored:
  assumes "ss_store s v = Some bs"
  shows "drop_expert v s = s\<lparr>ss_lru := removeAll v (ss_lru s),
    ss_expert_used := (if ss_expert_used s \<ge> word_of_nat (length bs) then ss_expert_used s - word_of_nat (length bs) else 0),
    ss_store := (ss_store s)(v := None)\<rparr>"
  using assms by (simp add: drop_expert_def Let_def)

lemma drop_expert_books:
  assumes "books_ok content s" "v \<in> set (ss_lru s)"
  shows "books_ok content (drop_expert v s)"
proof -
  have lru: "distinct (ss_lru s)" "set (ss_lru s) = dom (ss_store s)"
    and content: "\<And>i bs. ss_store s i = Some bs \<Longrightarrow> bs = content i"
    and sum: "unat (ss_expert_used s) = stored_bytes content (set (ss_lru s))"
    and hot: "distinct (ss_hot s)" "length (ss_hot s) \<le> max_hot"
    using assms(1) by (simp_all add: books_ok_def)
  obtain bs where "ss_store s v = Some bs" using lru(2) assms(2) by auto
  with content [OF this] have v: "ss_store s v = Some (content v)" by simp
  note used = remove_expert_used [OF sum finite_set assms(2)]
  note step = drop_expert_stored [OF v]
  have set_lru: "set (removeAll v (ss_lru s)) = dom ((ss_store s)(v := None))" using lru(2) by auto
  show ?thesis
    unfolding books_ok_def step using lru(1) set_lru content hot used
    by (simp add: distinct_removeAll lru(2) [symmetric])
qed

lemma evict_loop_books:
  "books_ok content s \<Longrightarrow> books_ok content (evict_loop n s) \<and> set (ss_lru (evict_loop n s)) \<subseteq> set (ss_lru s)"
proof (induction n s rule: evict_loop.induct)
  case (1 n s)
  show ?case
  proof (cases "ss_lru s \<noteq> [] \<and> ss_expert_used s + n > ss_expert_budget s \<and> victim s \<noteq> 0")
    case True
    have "books_ok content (drop_expert (victim s) s)"
      using 1(2) victim_in_lru True by (auto intro: drop_expert_books)
    moreover have "set (ss_lru (drop_expert (victim s) s)) \<subseteq> set (ss_lru s)"
      by (auto simp: drop_expert_def Let_def split: option.split)
    ultimately show ?thesis using 1(1) True by (subst (1 2) evict_loop.simps) auto
  next
    case False
    then show ?thesis using 1(2) by (subst (1 2) evict_loop.simps) auto
  qed
qed

text \<open>A put replaces what was stored for the id, evicting others first.\<close>

definition store_expert :: "u64 \<Rightarrow> u8 list \<Rightarrow> streaming_store \<Rightarrow> streaming_store" where
  "store_expert i bs s = (let used = (case ss_store s i of None \<Rightarrow> ss_expert_used s
       | Some old \<Rightarrow> if ss_expert_used s \<ge> word_of_nat (length old)
           then ss_expert_used s - word_of_nat (length old) else ss_expert_used s)
     in expert_mark_hot i (expert_touch i
       (s\<lparr>ss_store := (ss_store s)(i \<mapsto> bs), ss_expert_used := used + word_of_nat (length bs)\<rparr>)))"

lemma expert_put_store:
  assumes "bs \<noteq> []"
  shows "\<exists>b. expert_put i bs s = store_expert i bs (expert_evict_to_fit (word_of_nat (length bs)) (s\<lparr>ss_expert_budget := b\<rparr>))"
proof (intro exI)
  let ?n = "word_of_nat (length bs) :: u64"
  let ?b = "if ss_expert_budget s = 0 then max (?n * 4) (64 * 1024 * 1024) else ss_expert_budget s"
  let ?s = "if ss_expert_budget s = 0 then s\<lparr>ss_expert_budget := max (?n * 4) (64 * 1024 * 1024)\<rparr> else s"
  have budget: "?s = s\<lparr>ss_expert_budget := ?b\<rparr>" by simp
  let ?t = "expert_evict_to_fit ?n ?s"
  show "expert_put i bs s = store_expert i bs (expert_evict_to_fit ?n (s\<lparr>ss_expert_budget := ?b\<rparr>))"
    unfolding budget [symmetric] using assms
    by (cases "ss_store ?t i") (simp_all add: expert_put_def store_expert_def Let_def)
qed

lemma mark_hot_ok:
  assumes "distinct (ss_hot s)"
  shows "distinct (ss_hot (expert_mark_hot i s)) \<and> length (ss_hot (expert_mark_hot i s)) \<le> max_hot"
proof -
  have "distinct (removeAll i (ss_hot s) @ [i])" using assms by (simp add: distinct_removeAll)
  then show ?thesis by (simp only: expert_mark_hot_def Let_def) (simp add: distinct_drop del: drop_append distinct_append)
qed

lemma mark_hot_frame [simp]:
  "ss_lru (expert_mark_hot i s) = ss_lru s" "ss_store (expert_mark_hot i s) = ss_store s"
  "ss_expert_used (expert_mark_hot i s) = ss_expert_used s"
  by (simp_all add: expert_mark_hot_def Let_def)

lemma mark_hot_books: "books_ok content s \<Longrightarrow> books_ok content (expert_mark_hot i s)"
  using mark_hot_ok by (simp add: books_ok_def)

lemma store_expert_books:
  assumes "books_ok content s" and bs: "bs = content i" and i: "i \<in> D" "set (ss_lru s) \<subseteq> D"
    and D: "finite D" "stored_bytes content D < 2 ^ 64"
  shows "books_ok content (store_expert i bs s) \<and> set (ss_lru (store_expert i bs s)) = insert i (set (ss_lru s))"
proof -
  have lru: "distinct (ss_lru s)" "set (ss_lru s) = dom (ss_store s)"
    and content: "\<And>i bs. ss_store s i = Some bs \<Longrightarrow> bs = content i"
    and sum: "unat (ss_expert_used s) = stored_bytes content (set (ss_lru s))"
    and hot: "distinct (ss_hot s)"
    using assms(1) by (simp_all add: books_ok_def)
  define used where "used = (case ss_store s i of None \<Rightarrow> ss_expert_used s
       | Some old \<Rightarrow> if ss_expert_used s \<ge> word_of_nat (length old)
           then ss_expert_used s - word_of_nat (length old) else ss_expert_used s)"
  have without: "unat used = stored_bytes content (set (ss_lru s) - {i})"
  proof (cases "ss_store s i")
    case None
    then have "i \<notin> set (ss_lru s)" using lru(2) by auto
    then show ?thesis using None sum by (simp add: used_def)
  next
    case (Some old)
    then have "i \<in> set (ss_lru s)" using lru(2) by auto
    then show ?thesis
      using Some content [OF Some] remove_expert_used [OF sum finite_set] by (simp add: used_def)
  qed
  have total: "stored_bytes content (insert i (set (ss_lru s))) =
      length (content i) + stored_bytes content (set (ss_lru s) - {i})"
    using stored_bytes_remove [of "insert i (set (ss_lru s))" i content] by simp
  have "stored_bytes content (insert i (set (ss_lru s))) \<le> stored_bytes content D"
    unfolding stored_bytes_def using i D by (intro sum_mono2) auto
  then have fits: "length (content i) + unat used < 2 ^ 64" using total without D by simp
  then have len: "unat (word_of_nat (length (content i)) :: u64) = length (content i)" by (intro unat_len) simp
  have "unat (used + word_of_nat (length (content i))) = unat used + unat (word_of_nat (length (content i)) :: u64)"
    using fits len by (intro unat_add_exact) simp
  then have used': "unat (used + word_of_nat (length bs)) = stored_bytes content (insert i (set (ss_lru s)))"
    using total without len bs by simp
  have step: "store_expert i bs s = expert_mark_hot i (expert_touch i
       (s\<lparr>ss_store := (ss_store s)(i \<mapsto> bs), ss_expert_used := used + word_of_nat (length bs)\<rparr>))"
    by (simp only: store_expert_def used_def Let_def)
  have set_lru: "set (i # removeAll i (ss_lru s)) = dom ((ss_store s)(i \<mapsto> bs))"
    "set (i # removeAll i (ss_lru s)) = insert i (set (ss_lru s))"
    "distinct (i # removeAll i (ss_lru s))" using lru by (auto simp: distinct_removeAll)
  have store: "\<forall>j cs. ((ss_store s)(i \<mapsto> bs)) j = Some cs \<longrightarrow> cs = content j" using content bs by auto
  show ?thesis
    unfolding books_ok_def step
    using set_lru store used' mark_hot_ok [of "expert_touch i
       (s\<lparr>ss_store := (ss_store s)(i \<mapsto> bs), ss_expert_used := used + word_of_nat (length bs)\<rparr>)" i] hot
    by (simp add: expert_touch_def)
qed

lemma evict_to_fit_books:
  "books_ok content s \<Longrightarrow> books_ok content (expert_evict_to_fit n s) \<and>
     set (ss_lru (expert_evict_to_fit n s)) \<subseteq> set (ss_lru s)"
  by (simp add: expert_evict_to_fit_def evict_loop_books)

lemma expert_put_books:
  assumes "books_ok content s" and i: "i \<in> D" "set (ss_lru s) \<subseteq> D"
    and D: "finite D" "stored_bytes content D < 2 ^ 64"
  shows "books_ok content (expert_put i (content i) s) \<and> set (ss_lru (expert_put i (content i) s)) \<subseteq> D"
proof (cases "content i = []")
  case True
  then show ?thesis using assms by (simp add: expert_put_def)
next
  case False
  from expert_put_store [OF this] obtain b where put: "expert_put i (content i) s =
      store_expert i (content i) (expert_evict_to_fit (word_of_nat (length (content i))) (s\<lparr>ss_expert_budget := b\<rparr>))"
      (is "_ = store_expert _ _ (expert_evict_to_fit ?n ?s)")
    by blast
  have "books_ok content ?s" using assms(1) by (simp add: books_ok_def)
  from evict_to_fit_books [OF this, of ?n]
  have e: "books_ok content (expert_evict_to_fit ?n ?s)" "set (ss_lru (expert_evict_to_fit ?n ?s)) \<subseteq> D"
    using i(2) by auto
  show ?thesis unfolding put using store_expert_books [OF e(1) refl i(1) e(2) D] e(2) i(1) by auto
qed

section \<open>The staging slots\<close>

text \<open>
  What the state promises for the weights \<open>content\<close>: a slot that names a tensor holds its bytes,
  the sizes are those of the weights, the expert cache is in order, and a prefetch fills the slot that is not
  in use (one that \<open>configure\<close> outlived is never taken for a new one).
\<close>

definition slots_ok :: "(u64 \<Rightarrow> u8 list) \<Rightarrow> streaming_store \<Rightarrow> bool" where
  "slots_ok content s \<longleftrightarrow> length (ss_buffers s) = 2 \<and> length (ss_resident s) = 2 \<and> ss_active s < 2 \<and>
     ss_buffers s ! 0 \<noteq> [] \<and>
     (\<forall>k < 2. ss_resident s ! k \<noteq> 0 \<longrightarrow> (\<exists>nb. ss_sizes s (ss_resident s ! k) = Some nb \<and>
        take (unat nb) (ss_buffers s ! k) = content (ss_resident s ! k)))"

definition sizes_ok :: "(u64 \<Rightarrow> u8 list) \<Rightarrow> (u64 \<rightharpoonup> u64) \<Rightarrow> bool" where
  "sizes_ok content sizes \<longleftrightarrow> finite (dom sizes) \<and> 0 \<notin> dom sizes \<and> stored_bytes content (dom sizes) < 2 ^ 64 \<and>
     (\<forall>i nb. sizes i = Some nb \<longrightarrow> length (content i) = unat nb)"

definition cache_ok :: "(u64 \<Rightarrow> u8 list) \<Rightarrow> streaming_store \<Rightarrow> bool" where
  "cache_ok content s \<longleftrightarrow> books_ok content s \<and> set (ss_lru s) \<subseteq> dom (ss_sizes s)"

definition future_ok :: "streaming_store \<Rightarrow> bool" where
  "future_ok s \<longleftrightarrow> (case ss_future s of None \<Rightarrow> True
     | Some (k, i, r) \<Rightarrow> if ss_prefetch_id s = 0 then r \<noteq> None
         else ss_prefetch_id s = i \<and> k = 1 - ss_active s \<and> ss_buffers s ! 1 \<noteq> [] \<and>
           (r = Some (Inr ()) \<longrightarrow> ss_resident s ! k = i))"

definition ss_ok :: "(u64 \<Rightarrow> u8 list) \<Rightarrow> streaming_store \<Rightarrow> bool" where
  "ss_ok content s \<longleftrightarrow> slots_ok content s \<and> sizes_ok content (ss_sizes s) \<and> cache_ok content s \<and> future_ok s"

text \<open>The loader writes the weight it is asked for, or fails and writes nothing.\<close>

definition faithful :: "(u64 \<Rightarrow> u8 list) \<Rightarrow> weight_loader \<Rightarrow> bool" where
  "faithful content f \<longleftrightarrow> (\<forall>i uri n. (\<exists>e. f i uri n = (Inl e, [])) \<or> f i uri n = (Inr (), content i))"

definition staged_ok :: "nat \<Rightarrow> u64 \<Rightarrow> streaming_store \<Rightarrow> (error + unit) \<times> streaming_store \<Rightarrow> bool" where
  "staged_ok k i s x \<longleftrightarrow> ss_future (snd x) = ss_future s \<and> ss_prefetch_id (snd x) = ss_prefetch_id s \<and>
     ss_active (snd x) = ss_active s \<and> map length (ss_buffers (snd x)) = map length (ss_buffers s) \<and>
     ss_sizes (snd x) = ss_sizes s \<and> ss_expert (snd x) = ss_expert s \<and>
     (\<forall>j < 2. j \<noteq> k \<longrightarrow> ss_resident (snd x) ! j = ss_resident s ! j) \<and>
     (fst x = Inr () \<longrightarrow> ss_resident (snd x) ! k = i)"

lemma slots_ok_same: "same_slots s t \<Longrightarrow> slots_ok content t \<longleftrightarrow> slots_ok content s"
  by (simp add: same_slots_def slots_ok_def)

lemma occupy_same: "same_slots s t \<Longrightarrow> same_slots (occupy k i s) (occupy k i t)"
  by (simp add: same_slots_def occupy_def)

lemma cache_frame [simp]:
  "cache_ok content (occupy k i s) \<longleftrightarrow> cache_ok content s"
  "cache_ok content (fill_slot k bs s) \<longleftrightarrow> cache_ok content s"
  "cache_ok content (s\<lparr>ss_misses := n\<rparr>) \<longleftrightarrow> cache_ok content s"
  "cache_ok content (s\<lparr>ss_hits := n\<rparr>) \<longleftrightarrow> cache_ok content s"
  "cache_ok content (s\<lparr>ss_loader_bytes := n\<rparr>) \<longleftrightarrow> cache_ok content s"
  "cache_ok content (s\<lparr>ss_future := x\<rparr>) \<longleftrightarrow> cache_ok content s"
  "cache_ok content (s\<lparr>ss_prefetch_id := i\<rparr>) \<longleftrightarrow> cache_ok content s"
  "cache_ok content (s\<lparr>ss_active := k\<rparr>) \<longleftrightarrow> cache_ok content s"
  "cache_ok content (s\<lparr>ss_provider := p\<rparr>) \<longleftrightarrow> cache_ok content s"
  by (simp_all add: cache_ok_def books_ok_def occupy_def fill_slot_def)

lemma fill_slot_nothing [simp]: "fill_slot k [] s = s"
  by (simp add: fill_slot_def overwrite_def)

lemma overwrite_length: "length bs \<le> length dst \<Longrightarrow> length (overwrite dst bs) = length dst"
  by (simp add: overwrite_def)

lemma filled_ok:
  assumes ok: "slots_ok content s" "sizes_ok content (ss_sizes s)" and k: "k < 2"
    and nb: "ss_sizes s i = Some nb" "unat nb \<le> length (ss_buffers s ! k)"
  shows "slots_ok content (occupy k i (fill_slot k (content i) s)) \<and>
    staged_ok k i s (r, occupy k i (fill_slot k (content i) s))"
proof -
  have len: "length (content i) = unat nb" using ok(2) nb(1) by (simp add: sizes_ok_def)
  have olen: "length (overwrite (ss_buffers s ! k) (content i)) = length (ss_buffers s ! k)"
    using len nb(2) by (simp add: overwrite_length)
  have two: "length (ss_buffers s) = 2" "length (ss_resident s) = 2" "ss_active s < 2" "ss_buffers s ! 0 \<noteq> []"
    and slot: "\<And>j. j < 2 \<Longrightarrow> ss_resident s ! j \<noteq> 0 \<Longrightarrow> \<exists>nb. ss_sizes s (ss_resident s ! j) = Some nb \<and>
        take (unat nb) (ss_buffers s ! j) = content (ss_resident s ! j)"
    using ok(1) by (simp_all add: slots_ok_def)
  have first: "(ss_buffers s)[k := overwrite (ss_buffers s ! k) (content i)] ! 0 \<noteq> []"
    using two olen by (metis length_0_conv nth_list_update nth_list_update_neq zero_less_numeral)
  have "take (unat nb) (overwrite (ss_buffers s ! k) (content i)) = content i"
    using len by (simp add: overwrite_def)
  then have "\<exists>nb. ss_sizes s ((ss_resident s)[k := i] ! j) = Some nb \<and>
      take (unat nb) ((ss_buffers s)[k := overwrite (ss_buffers s ! k) (content i)] ! j) =
        content ((ss_resident s)[k := i] ! j)"
    if "j < 2" "(ss_resident s)[k := i] ! j \<noteq> 0" for j
    using that slot [of j] two k nb(1) by (cases "j = k") auto
  moreover have "map length ((ss_buffers s)[k := overwrite (ss_buffers s ! k) (content i)]) = map length (ss_buffers s)"
    using olen two k by (simp add: map_update list_update_same_conv)
  ultimately show ?thesis
    using two first k by (simp add: slots_ok_def staged_ok_def occupy_def fill_slot_def)
qed

lemma staged_same: "staged_ok k i s (r, y) \<Longrightarrow> same_slots y z \<Longrightarrow> same_slots s t \<Longrightarrow> staged_ok k i t (r, z)"
  by (simp add: staged_ok_def same_slots_def)

lemma staged_error: "same_slots s y \<Longrightarrow> staged_ok k i s (Inl e, y)"
  by (simp add: staged_ok_def same_slots_def)

lemma put_cache_ok:
  assumes "cache_ok content s" "sizes_ok content (ss_sizes s)" "ss_sizes s i = Some nb"
  shows "cache_ok content (expert_put i (content i) s)"
proof -
  have "i \<in> dom (ss_sizes s)" using assms(3) by auto
  then have "books_ok content (expert_put i (content i) s) \<and>
      set (ss_lru (expert_put i (content i) s)) \<subseteq> dom (ss_sizes s)"
    using assms(1,2) by (intro expert_put_books) (simp_all add: cache_ok_def sizes_ok_def)
  moreover have "ss_sizes (expert_put i (content i) s) = ss_sizes s"
    using expert_put_frame [of s i "content i"] by (simp add: same_slots_def)
  ultimately show ?thesis by (simp add: cache_ok_def)
qed

definition step_ok :: "(u64 \<Rightarrow> u8 list) \<Rightarrow> nat \<Rightarrow> u64 \<Rightarrow> streaming_store \<Rightarrow> (error + unit) \<times> streaming_store \<Rightarrow> bool" where
  "step_ok content k i s x \<longleftrightarrow> slots_ok content (snd x) \<and> cache_ok content (snd x) \<and> staged_ok k i s x"

lemma stage_miss_ok:
  assumes slots: "slots_ok content s" and sizes: "sizes_ok content (ss_sizes s)" and cache: "cache_ok content s"
    and k: "k < 2" and nb: "ss_sizes s i = Some nb" "unat nb \<le> length (ss_buffers s ! k)" and f: "faithful content f"
  shows "step_ok content k i s (stage_miss os (Some f) k i nb s)"
proof -
  define s1 where "s1 = (if ss_is_expert s i then s\<lparr>ss_misses := ss_misses s + 1\<rparr> else s)"
  have s1: "same_slots s s1" "cache_ok content s1" using cache by (simp_all add: s1_def same_slots_def)
  have slots1: "slots_ok content s1" using slots slots_ok_same [OF s1(1)] by simp
  have sizes1: "ss_sizes s1 = ss_sizes s" "ss_buffers s1 = ss_buffers s" "ss_expert s1 = ss_expert s"
    "ss_handles s1 = ss_handles s" using s1(1) by (simp_all add: same_slots_def)
  have failed: "step_ok content k i s (Inl e, s1)" for e
    using s1 slots1 staged_error [OF s1(1)] by (simp add: step_ok_def)
  show ?thesis
  proof (cases "ss_handles s1 i")
    case None
    then show ?thesis using failed by (simp add: stage_miss_def Let_def s1_def [symmetric])
  next
    case (Some h)
    from f [unfolded faithful_def, rule_format, of i "th_uri h" "unat nb"]
    consider e where "f i (th_uri h) (unat nb) = (Inl e, [])" | "f i (th_uri h) (unat nb) = (Inr (), content i)" by blast
    then show ?thesis
    proof cases
      case 1
      then show ?thesis using Some failed by (simp add: stage_miss_def load_weight_def Let_def s1_def [symmetric])
    next
      case 2
      define s2 where "s2 = (fill_slot k (content i) s1)\<lparr>ss_loader_bytes := ss_loader_bytes s1 + nb\<rparr>"
      have len: "length (content i) = unat nb" using sizes nb(1) by (simp add: sizes_ok_def)
      have "k < length (ss_buffers s1)" using slots1 k by (simp add: slots_ok_def)
      then have tk: "take (unat nb) (ss_buffers s2 ! k) = content i"
        using len by (simp add: s2_def fill_slot_def overwrite_def)
      define s3 where "s3 = (if ss_is_expert s i then expert_put i (content i) s2 else s2)"
      have ex: "ss_is_expert s2 i = ss_is_expert s i" by (simp add: s2_def fill_slot_def ss_is_expert_def sizes1)
      have result: "stage_miss os (Some f) k i nb s = (Inr (), occupy k i s3)"
        using Some 2 tk ex by (simp add: stage_miss_def load_weight_def Let_def s1_def [symmetric] s2_def [symmetric] s3_def)
      have s23: "same_slots s2 s3" by (simp add: s3_def expert_put_frame)
      have same: "same_slots (occupy k i (fill_slot k (content i) s1)) (occupy k i s3)"
        by (rule occupy_same, rule same_slots_trans [OF _ s23]) (simp add: s2_def same_slots_def)
      have filled: "slots_ok content (occupy k i (fill_slot k (content i) s1)) \<and>
          staged_ok k i s1 (Inr (), occupy k i (fill_slot k (content i) s1))"
        using slots1 sizes k nb sizes1 by (intro filled_ok) simp_all
      have sizes2: "ss_sizes s2 = ss_sizes s" by (simp add: s2_def fill_slot_def sizes1)
      have "cache_ok content s2" using s1(2) by (simp add: s2_def)
      then have "cache_ok content s3" using sizes sizes2 nb(1) by (simp add: s3_def put_cache_ok)
      moreover have "same_slots s1 s" using s1(1) by (simp add: same_slots_def)
      then have "staged_ok k i s (Inr (), occupy k i s3)" by (rule staged_same [OF conjunct2 [OF filled] same])
      ultimately show ?thesis using result filled slots_ok_same [OF same] by (simp add: step_ok_def)
    qed
  qed
qed

lemma touch_cache_ok: "cache_ok content s \<Longrightarrow> ss_store s i = Some bs \<Longrightarrow> cache_ok content (expert_touch i s)"
proof -
  assume c: "cache_ok content s" and st: "ss_store s i = Some bs"
  have "i \<in> set (ss_lru s)" using c st by (auto simp: cache_ok_def books_ok_def)
  then have "set (i # removeAll i (ss_lru s)) = set (ss_lru s)" by auto
  moreover have "distinct (i # removeAll i (ss_lru s))" using c by (simp add: cache_ok_def books_ok_def distinct_removeAll)
  moreover have "dom (ss_store s) \<subseteq> dom (ss_sizes s)" using c unfolding cache_ok_def books_ok_def by metis
  ultimately show ?thesis using c by (simp add: cache_ok_def books_ok_def expert_touch_def del: list.set distinct.simps)
qed

lemma stage_into_ok:
  assumes slots: "slots_ok content s" and sizes: "sizes_ok content (ss_sizes s)" and cache: "cache_ok content s"
    and k: "k < 2" and f: "faithful content f"
  shows "step_ok content k i s (stage_into os (Some f) k i s)"
proof (cases "ss_sizes s i")
  case None
  then show ?thesis using slots cache staged_error [OF same_slots_refl] by (simp add: stage_into_def step_ok_def)
next
  case (Some nb)
  show ?thesis
  proof (cases "unat nb > length (ss_buffers s ! k)")
    case True
    then show ?thesis using Some slots cache staged_error [OF same_slots_refl] by (simp add: stage_into_def step_ok_def)
  next
    case False
    then have nb: "unat nb \<le> length (ss_buffers s ! k)" by simp
    note miss = stage_miss_ok [OF slots sizes cache k Some nb f, of os]
    show ?thesis
    proof (cases "if ss_is_expert s i then ss_store s i else None")
      case None
      then show ?thesis using miss Some False by (simp add: stage_into_def)
    next
      case (Some bs)
      then have st: "ss_store s i = Some bs" by (simp split: if_splits)
      then have bs: "bs = content i" using cache by (simp add: cache_ok_def books_ok_def)
      show ?thesis
      proof (cases "length bs = unat nb")
        case True
        let ?s = "(expert_touch i (fill_slot k bs s))\<lparr>ss_hits := ss_hits s + 1\<rparr>"
        have res: "stage_into os (Some f) k i s = (Inr (), occupy k i ?s)"
          using Some True False \<open>ss_sizes s i = Some nb\<close> by (simp add: stage_into_def)
        have same: "same_slots (occupy k i (fill_slot k (content i) s)) (occupy k i ?s)"
          by (rule occupy_same) (simp add: same_slots_def expert_touch_def bs)
        have "ss_store (fill_slot k bs s) i = Some bs" using st by (simp add: fill_slot_def)
        then have "cache_ok content ?s" using cache touch_cache_ok [of content "fill_slot k bs s"] by simp
        then show ?thesis
          using res filled_ok [OF slots sizes k \<open>ss_sizes s i = Some nb\<close> nb] slots_ok_same [OF same]
            staged_same [OF _ same same_slots_refl] by (simp add: step_ok_def)
      next
        case False
        then show ?thesis using miss Some nb \<open>ss_sizes s i = Some nb\<close> by (simp add: stage_into_def)
      qed
    qed
  qed
qed

text \<open>Every operation keeps the invariant, whatever the loader answers and whenever the prefetch ends.\<close>

lemma complete_ok:
  assumes ok: "ss_ok content s" and f: "faithful content f"
  shows "ss_ok content (ss_complete os (Some f) s) \<and> ss_active (ss_complete os (Some f) s) = ss_active s \<and>
     ss_prefetch_id (ss_complete os (Some f) s) = ss_prefetch_id s \<and> ss_sizes (ss_complete os (Some f) s) = ss_sizes s \<and>
     ss_expert (ss_complete os (Some f) s) = ss_expert s \<and>
     (ss_future (ss_complete os (Some f) s) = None \<longleftrightarrow> ss_future s = None) \<and>
     (\<forall>k i. ss_future (ss_complete os (Some f) s) \<noteq> Some (k, i, None))"
proof (cases "\<exists>k i. ss_future s = Some (k, i, None)")
  case True
  then obtain k i where fut: "ss_future s = Some (k, i, None)" by blast
  have slots: "slots_ok content s" and sizes: "sizes_ok content (ss_sizes s)" and cache: "cache_ok content s"
    and fo: "future_ok s" using ok by (simp_all add: ss_ok_def)
  have id: "ss_prefetch_id s \<noteq> 0" "ss_prefetch_id s = i" "k = 1 - ss_active s" "ss_buffers s ! 1 \<noteq> []"
    using fo fut by (auto simp: future_ok_def split: if_splits)
  have k: "k < 2" using id(3) by simp
  obtain r t where x: "stage_into os (Some f) k i s = (r, t)" by (cases "stage_into os (Some f) k i s") auto
  have st: "slots_ok content t" "cache_ok content t" "staged_ok k i s (r, t)"
    using stage_into_ok [OF slots sizes cache k f, of i os] x by (simp_all add: step_ok_def)
  have same: "ss_active t = ss_active s" "ss_prefetch_id t = ss_prefetch_id s" "ss_sizes t = ss_sizes s"
    "ss_expert t = ss_expert s" "map length (ss_buffers t) = map length (ss_buffers s)"
    and filled: "r = Inr () \<Longrightarrow> ss_resident t ! k = i" using st(3) by (simp_all add: staged_ok_def)
  have len2: "length (ss_buffers t) = 2" "length (ss_buffers s) = 2" using st(1) slots by (simp_all add: slots_ok_def)
  then have "length (ss_buffers t ! 1) = length (ss_buffers s ! 1)"
    using same(5) nth_map [of 1 "ss_buffers t" length] nth_map [of 1 "ss_buffers s" length] by simp
  then have b1: "ss_buffers t ! 1 \<noteq> []" using id(4) by auto
  have res: "ss_complete os (Some f) s = t\<lparr>ss_future := Some (k, i, Some r)\<rparr>" by (simp add: ss_complete_def fut x)
  have "slots_ok content (t\<lparr>ss_future := Some (k, i, Some r)\<rparr>)" using st(1) by (simp add: slots_ok_def)
  then show ?thesis unfolding res using st sizes same id filled b1 fut by (simp add: ss_ok_def future_ok_def)
next
  case False
  then have "ss_complete os (Some f) s = s" by (auto simp: ss_complete_def split: option.splits)
  then show ?thesis using ok False by simp
qed

lemma prefetch_ok:
  assumes "ss_ok content s" shows "ss_ok content (ss_prefetch i s)"
proof -
  have "ss_sizes s i = None \<or> i \<noteq> 0" using assms by (auto simp: ss_ok_def sizes_ok_def)
  then show ?thesis using assms
    by (auto simp: ss_prefetch_def ss_ok_def slots_ok_def future_ok_def ss_is_streamed_def)
qed

lemma active_bound: "slots_ok content s \<Longrightarrow> ss_active s < 2"
  by (simp add: slots_ok_def)

lemma drop_future_ok:
  "slots_ok content (drop_future s) \<longleftrightarrow> slots_ok content s" "cache_ok content (drop_future s) \<longleftrightarrow> cache_ok content s"
  "ss_sizes (drop_future s) = ss_sizes s" "ss_expert (drop_future s) = ss_expert s"
  "ss_resident (drop_future s) = ss_resident s" "ss_buffers (drop_future s) = ss_buffers s"
  "ss_active (drop_future s) = ss_active s" "ss_future (drop_future s) = None"
  by (simp_all add: drop_future_def slots_ok_def)

lemma active_ok:
  "slots_ok content s \<Longrightarrow> k < 2 \<Longrightarrow> slots_ok content (s\<lparr>ss_active := k\<rparr>)"
  by (simp add: slots_ok_def)

text \<open>What \<open>stage\<close> promises once its slot is chosen: the active slot names the tensor.\<close>

definition chosen :: "(u64 \<Rightarrow> u8 list) \<Rightarrow> u64 \<Rightarrow> (error + unit) \<times> streaming_store \<Rightarrow> bool" where
  "chosen content i x \<longleftrightarrow> slots_ok content (snd x) \<and> sizes_ok content (ss_sizes (snd x)) \<and> cache_ok content (snd x) \<and>
     ss_future (snd x) = None \<and> (fst x = Inr () \<longrightarrow> ss_resident (snd x) ! ss_active (snd x) = i)"

lemma choose_slot_ok:
  assumes ok: "ss_ok content s" and f: "faithful content f" and i: "i \<noteq> 0"
  shows "chosen content i (choose_slot os (Some f) i s) \<and>
     ss_sizes (snd (choose_slot os (Some f) i s)) = ss_sizes s"
proof -
  define t where "t = ss_complete os (Some f) s"
  have t: "ss_ok content t" "ss_active t = ss_active s" "ss_prefetch_id t = ss_prefetch_id s" "ss_sizes t = ss_sizes s"
    "ss_future t = None \<longleftrightarrow> ss_future s = None" "\<forall>k i. ss_future t \<noteq> Some (k, i, None)"
    using complete_ok [OF ok f] by (simp_all add: t_def)
  have slots: "slots_ok content t" and sizes: "sizes_ok content (ss_sizes t)" and cache: "cache_ok content t"
    and fut: "future_ok t" using t(1) by (simp_all add: ss_ok_def)
  have act: "ss_active t < 2" "1 - ss_active t < 2" using slots by (simp_all add: slots_ok_def)
  have dropped: "chosen content i (r, drop_future t)" if "r = Inr () \<Longrightarrow> ss_resident t ! ss_active t = i" for r
    using slots sizes cache that by (simp add: chosen_def drop_future_ok)
  show ?thesis
  proof (cases "ss_future s \<noteq> None \<and> ss_prefetch_id s = i")
    case True
    obtain k j x where "ss_future t = Some (k, j, x)" using t(5) True by (cases "ss_future t") auto
    with t(6) obtain r where fs: "ss_future t = Some (k, j, Some r)" by (cases x) auto
    have id: "j = i" "k = 1 - ss_active t" "ss_buffers t ! 1 \<noteq> []" "r = Inr () \<Longrightarrow> ss_resident t ! k = i"
      using fut fs t(3) True i by (auto simp: future_ok_def)
    show ?thesis
    proof (cases r)
      case (Inl e)
      then show ?thesis using True fs dropped [of r] t(4)
        by (simp add: choose_slot_def Let_def t_def [symmetric] drop_future_ok)
    next
      case (Inr u)
      have "ss_buffers t ! (1 - ss_active t) \<noteq> []"
        using id(3) slots act(1) by (cases "ss_active t = 0") (auto simp: slots_ok_def)
      then have "activate (1 - ss_active t) (drop_future t) = (drop_future t)\<lparr>ss_active := 1 - ss_active t\<rparr>"
        by (simp add: activate_def drop_future_ok)
      moreover have "chosen content i (Inr (), (drop_future t)\<lparr>ss_active := 1 - ss_active t\<rparr>)"
        using slots sizes cache id(2,4) Inr act(2)
        by (simp add: chosen_def drop_future_ok active_ok)
      ultimately show ?thesis using True fs Inr t(4)
        by (simp add: choose_slot_def Let_def t_def [symmetric] drop_future_ok)
    qed
  next
    case False
    define u where "u = drop_future t"
    have u: "slots_ok content u" "sizes_ok content (ss_sizes u)" "cache_ok content u" "ss_future u = None"
      "ss_active u = ss_active t" "ss_sizes u = ss_sizes s"
      using slots sizes cache t(4) by (simp_all add: u_def drop_future_ok)
    have pick: "choose_slot os (Some f) i s = (if ss_resident u ! ss_active u = i then (Inr (), u)
         else if ss_buffers u ! (1 - ss_active t) \<noteq> [] \<and> ss_resident u ! (1 - ss_active t) = i
           then (Inr (), u\<lparr>ss_active := 1 - ss_active t\<rparr>)
         else stage_into os (Some f) (ss_active u) i u)"
      using False by (simp only: choose_slot_def Let_def t_def [symmetric] u_def [symmetric] if_False)
    have "step_ok content (ss_active u) i u (stage_into os (Some f) (ss_active u) i u)"
      using u act by (intro stage_into_ok f) simp_all
    then have staged: "chosen content i (stage_into os (Some f) (ss_active u) i u)"
      "ss_sizes (snd (stage_into os (Some f) (ss_active u) i u)) = ss_sizes s"
      using u by (simp_all add: chosen_def step_ok_def staged_ok_def)
    have "chosen content i (Inr (), u)" if "ss_resident u ! ss_active u = i"
      using u that by (simp add: chosen_def)
    moreover have "chosen content i (Inr (), u\<lparr>ss_active := 1 - ss_active t\<rparr>)"
      if "ss_resident u ! (1 - ss_active t) = i"
      using u that act(2) by (simp add: chosen_def active_ok)
    ultimately show ?thesis unfolding pick using staged u(6) by simp
  qed
qed

lemma staged_result_ok:
  assumes "slots_ok content s" "sizes_ok content (ss_sizes s)" "cache_ok content s"
    and "ss_resident s ! ss_active s = i" "ss_sizes s i = Some nb"
  shows "\<exists>p n. fst (staged_result i nb s) = Inr (p, n) \<and>
     map_option (take (unat n)) (deref (snd (staged_result i nb s)) p) = Some (content i)"
proof (cases "if ss_is_expert s i then ss_store s i else None")
  case None
  have "i \<noteq> 0" using assms(2,5) by (auto simp: sizes_ok_def)
  then have "take (unat nb) (ss_buffers s ! ss_active s) = content i"
    using assms(1,4,5) by (auto simp: slots_ok_def)
  then show ?thesis using None by (simp add: staged_result_def deref_def)
next
  case (Some bs)
  then have st: "ss_store s i = Some bs" by (simp split: if_splits)
  then have bs: "bs = content i" using assms(3) by (simp add: cache_ok_def books_ok_def)
  have nb: "length (content i) = unat nb" using assms(2,5) by (simp add: sizes_ok_def)
  then have len: "unat (word_of_nat (length (content i)) :: u64) = length (content i)"
    by (intro unat_len) (metis unat_u64_less)
  have "i \<noteq> 0" using assms(2,5) by (auto simp: sizes_ok_def)
  then have "take (unat nb) (ss_buffers s ! ss_active s) = content i"
    using assms(1,4,5) by (auto simp: slots_ok_def)
  then show ?thesis using Some bs st len nb by (auto simp: staged_result_def deref_def)
qed

lemma staged_result_frame:
  "slots_ok content (snd (staged_result i nb s)) \<longleftrightarrow> slots_ok content s"
  "cache_ok content s \<Longrightarrow> cache_ok content (snd (staged_result i nb s))"
  "ss_sizes (snd (staged_result i nb s)) = ss_sizes s" "ss_future (snd (staged_result i nb s)) = ss_future s"
  by (simp_all add: staged_result_def slots_ok_def cache_ok_def mark_hot_books expert_mark_hot_def Let_def split: option.split)
    (use mark_hot_books [of content s i] in \<open>simp add: expert_mark_hot_def Let_def split: if_splits\<close>)

text \<open>The life of a configured store, with a prefetch ending whenever it ends.\<close>

definition plan_weights :: "(u64 \<Rightarrow> u8 list) \<Rightarrow> storage_plan \<Rightarrow> bool" where
  "plan_weights content plan \<longleftrightarrow> (let ps = filter sp_stream (st_placements plan) in
     (\<forall>p \<in> set ps. sp_tensor_id p \<noteq> 0 \<and> length (content (sp_tensor_id p)) = unat (sp_bytes p)) \<and>
     stored_bytes content (sp_tensor_id ` set ps) < 2 ^ 64)"

inductive ss_life ::
  "(string \<Rightarrow> open_result) \<Rightarrow> weight_loader \<Rightarrow> storage_plan \<Rightarrow> string \<Rightarrow> streaming_store \<Rightarrow> bool"
  for os f plan dir where
    configured: "ss_life os f plan dir (ss_configure os (Some f) plan dir s)"
  | prefetched: "ss_life os f plan dir s \<Longrightarrow> ss_life os f plan dir (ss_prefetch i s)"
  | completed: "ss_life os f plan dir s \<Longrightarrow> ss_life os f plan dir (ss_complete os (Some f) s)"
  | staged: "ss_life os f plan dir s \<Longrightarrow> ss_life os f plan dir (snd (ss_stage os (Some f) i s))"
  | reset: "ss_life os f plan dir s \<Longrightarrow> ss_life os f plan dir (ss_reset_stats s)"

lemma fold_dom: "dom (fold (\<lambda>p m. m(k p \<mapsto> v p)) ps m) = dom m \<union> k ` set ps"
  by (induction ps arbitrary: m) auto

lemma fold_value: "fold (\<lambda>p m. m(k p \<mapsto> v p)) ps m i = Some x \<Longrightarrow> m i = Some x \<or> (\<exists>p \<in> set ps. k p = i \<and> v p = x)"
proof (induction ps arbitrary: m)
  case (Cons p ps)
  have "fold (\<lambda>p m. m(k p \<mapsto> v p)) ps (m(k p \<mapsto> v p)) i = Some x" using Cons.prems by (simp only: fold_simps)
  then have "(m(k p \<mapsto> v p)) i = Some x \<or> (\<exists>q \<in> set ps. k q = i \<and> v q = x)" by (rule Cons.IH)
  then show ?case by (cases "i = k p") auto
qed simp

lemma configure_future:
  "ss_future (ss_configure os ld plan dir s) = ss_future (ss_complete os ld s)"
  by (simp add: ss_configure_def Let_def)

lemma complete_done: "ss_future (ss_complete os ld s) \<noteq> Some (k, i, None)"
  by (simp add: ss_complete_def Let_def split: option.split prod.split)

lemma configured_sizes:
  assumes "plan_weights content plan"
  shows "sizes_ok content (ss_sizes (ss_configure os ld plan dir s))"
proof -
  define ps where "ps = filter sp_stream (st_placements plan)"
  have plan: "sp_tensor_id p \<noteq> 0" "length (content (sp_tensor_id p)) = unat (sp_bytes p)" if "p \<in> set ps" for p
    using assms that by (simp_all add: plan_weights_def ps_def Let_def)
  have sum: "stored_bytes content (sp_tensor_id ` set ps) < 2 ^ 64"
    using assms by (simp add: plan_weights_def ps_def Let_def)
  have sizes: "ss_sizes (ss_configure os ld plan dir s) = fold (\<lambda>p m. m(sp_tensor_id p \<mapsto> sp_bytes p)) ps Map.empty"
    by (simp add: ss_configure_def Let_def ps_def)
  note dom = fold_dom [of sp_tensor_id sp_bytes ps Map.empty]
  have "length (content i) = unat nb"
    if "fold (\<lambda>p m. m(sp_tensor_id p \<mapsto> sp_bytes p)) ps Map.empty i = Some nb" for i nb
    using fold_value [OF that] plan(2) by auto
  moreover have "0 \<notin> sp_tensor_id ` set ps" using plan(1) by (metis image_iff)
  ultimately show ?thesis unfolding sizes_ok_def sizes dom using sum by simp
qed

lemma ss_configure_ok:
  assumes "plan_weights content plan"
  shows "ss_ok content (ss_configure os ld plan dir s)"
proof -
  let ?c = "ss_configure os ld plan dir s"
  have "max (st_staging_bytes plan) 1 \<noteq> 0" by (metis max.cobounded2 word_le_0_iff zero_neq_one)
  then have "unat (max (st_staging_bytes plan) 1) > 0" by (simp add: unat_gt_0)
  then have "slots_ok content ?c"
    by (simp add: ss_configure_def slots_ok_def Let_def less_2_cases_iff)
  moreover have "cache_ok content ?c"
    by (simp add: ss_configure_def cache_ok_def books_ok_def stored_bytes_def Let_def)
  moreover have "ss_prefetch_id ?c = 0" by (simp add: ss_configure_def Let_def)
  then have "future_ok ?c"
    using complete_done [of os ld s] by (auto simp: future_ok_def configure_future split: option.split)
  ultimately show ?thesis using configured_sizes [OF assms] by (simp add: ss_ok_def)
qed

lemma stage_ok:
  assumes ok: "ss_ok content s" and f: "faithful content f"
  shows "ss_ok content (snd (ss_stage os (Some f) i s))"
    and "ss_stage os (Some f) i s = (Inr (p, n), t) \<Longrightarrow> map_option (take (unat n)) (deref t p) = Some (content i)"
proof -
  have "ss_ok content (snd (ss_stage os (Some f) i s)) \<and> (\<forall>p n. fst (ss_stage os (Some f) i s) = Inr (p, n) \<longrightarrow>
      map_option (take (unat n)) (deref (snd (ss_stage os (Some f) i s)) p) = Some (content i))"
  proof (cases "ss_sizes s i")
    case None
    then show ?thesis using ok by (simp add: ss_stage_def)
  next
    case (Some nb)
    then have i: "i \<noteq> 0" using ok by (auto simp: ss_ok_def sizes_ok_def)
    obtain r u where x: "choose_slot os (Some f) i s = (r, u)" by (cases "choose_slot os (Some f) i s") auto
    have u: "slots_ok content u" "sizes_ok content (ss_sizes u)" "cache_ok content u" "ss_future u = None"
      "r = Inr () \<Longrightarrow> ss_resident u ! ss_active u = i" and us: "ss_sizes u = ss_sizes s"
      using choose_slot_ok [OF ok f i, of os, unfolded x chosen_def] by auto
    show ?thesis
    proof (cases r)
      case (Inl e)
      then show ?thesis using Some x u by (simp add: ss_stage_def ss_ok_def future_ok_def)
    next
      case (Inr v)
      then have res: "ss_stage os (Some f) i s = staged_result i nb u" using Some x by (simp add: ss_stage_def)
      have "ss_resident u ! ss_active u = i" "ss_sizes u i = Some nb"
        using u(5) us Inr Some by simp_all
      from staged_result_ok [OF u(1-3) this]
      obtain p n where "fst (staged_result i nb u) = Inr (p, n)"
        "map_option (take (unat n)) (deref (snd (staged_result i nb u)) p) = Some (content i)" by blast
      then show ?thesis unfolding res
        using u by (simp add: ss_ok_def future_ok_def staged_result_frame)
    qed
  qed
  then show "ss_ok content (snd (ss_stage os (Some f) i s))"
    and "ss_stage os (Some f) i s = (Inr (p, n), t) \<Longrightarrow> map_option (take (unat n)) (deref t p) = Some (content i)"
    by simp_all
qed

lemma ss_ok_frame:
  assumes "ss_ok content s" "same_slots s t" "ss_lru t = ss_lru s" "ss_store t = ss_store s"
    "ss_expert_used t = ss_expert_used s" "ss_hot t = ss_hot s"
  shows "ss_ok content t"
proof -
  have "books_ok content t = books_ok content s" by (simp only: books_ok_def assms)
  moreover have "future_ok t = future_ok s" using assms(2) by (simp only: future_ok_def same_slots_def)
  moreover have "ss_sizes t = ss_sizes s" using assms(2) by (simp only: same_slots_def)
  ultimately show ?thesis using assms(1,3) slots_ok_same [OF assms(2), of content] by (simp only: ss_ok_def cache_ok_def)
qed

lemma reset_stats_ok: "ss_ok content s \<Longrightarrow> ss_ok content (ss_reset_stats s)"
  by (erule ss_ok_frame) (simp_all add: ss_reset_stats_def same_slots_def)

lemma life_ok:
  assumes "ss_life os f plan dir s" "plan_weights content plan" "faithful content f"
  shows "ss_ok content s"
  using assms
  by (induction rule: ss_life.induct) (simp_all add: ss_configure_ok prefetch_ok complete_ok stage_ok(1) reset_stats_ok)

section \<open>Properties\<close>

text \<open>The environment of the examples: three weights of four bytes, the third an expert.\<close>

definition demo_weight :: "u64 \<Rightarrow> u8 list" where
  "demo_weight i = (if i \<in> {1, 2, 3} then replicate 4 (ucast i) else [])"

definition demo_loader :: weight_loader where
  "demo_loader i uri n = (Inr (), demo_weight i)"

definition demo_placement :: "u64 \<Rightarrow> storage_placement" where
  "demo_placement i = \<lparr>sp_tensor_id = i, sp_name = ''w'', sp_tier = TierDisk, sp_stream = True, sp_expert = (i = 3),
     sp_bytes = 4, sp_uri = ''w.bin''\<rparr>"

definition demo_plan :: storage_plan where
  "demo_plan = \<lparr>st_placements = map demo_placement [1, 2, 3], st_windows = [], st_ram_budget_bytes = 16,
     st_total_weight_bytes = 12, st_staging_bytes = 4, st_staging_slots = 2, st_expert_cache_bytes = 4, st_expert_windows = 0,
     st_streaming_required = True, st_summary = []\<rparr>"

definition no_file :: "string \<Rightarrow> open_result" where "no_file p = OpenFailed"

lemma demo_faithful: "faithful demo_weight demo_loader"
  by (simp add: faithful_def demo_loader_def)

lemma demo_weights: "plan_weights demo_weight demo_plan"
  by (simp add: plan_weights_def demo_plan_def demo_placement_def demo_weight_def stored_bytes_def Let_def)


definition demo_store :: streaming_store where
  "demo_store = ss_prefetch 2 (snd (ss_stage no_file (Some demo_loader) 1
     (ss_configure no_file (Some demo_loader) demo_plan [] ss_new)))"

lemma demo_life: "ss_life no_file demo_loader demo_plan [] demo_store"
  unfolding demo_store_def by (intro ss_life.intros)

lemma demo_stage:
  "fst (ss_stage no_file (Some demo_loader) 2 demo_store) = Inr (Slot 1, 4)"
  by code_simp


text \<open>
  C0.expert_cache_accounting: in every reachable state the expert cache keeps its books: the recency list has
  no duplicates and names exactly the stored experts, the bytes counted as used are the bytes stored, and
  at most 32 experts are protected from eviction.
\<close>

theorem expert_cache_accounting:
  assumes "ss_life os f plan dir s" "plan_weights content plan" "faithful content f"
  shows "distinct (ss_lru s) \<and> set (ss_lru s) = dom (ss_store s) \<and>
    unat (ss_expert_used s) = (\<Sum>i \<in> dom (ss_store s). length (the (ss_store s i))) \<and> length (ss_hot s) \<le> 32"
proof -
  have books: "books_ok content s" using life_ok [OF assms] by (simp add: ss_ok_def cache_ok_def)
  then have "length (the (ss_store s i)) = length (content i)" if "i \<in> dom (ss_store s)" for i
    using that by (auto simp: books_ok_def)
  then have "(\<Sum>i \<in> dom (ss_store s). length (the (ss_store s i))) = stored_bytes content (dom (ss_store s))"
    by (simp add: stored_bytes_def)
  then show ?thesis using books by (simp add: books_ok_def max_hot_def)
qed

theorem expert_cache_accounting_witness:
  "unat (ss_expert_used (snd (ss_stage no_file (Some demo_loader) 3 demo_store))) =
     (\<Sum>i \<in> dom (ss_store (snd (ss_stage no_file (Some demo_loader) 3 demo_store))).
        length (the (ss_store (snd (ss_stage no_file (Some demo_loader) 3 demo_store)) i)))"
  using expert_cache_accounting [OF ss_life.staged [OF demo_life] demo_weights demo_faithful] by blast

text \<open>
  C0.second_stage_overwrites: staging two weights for one operation gives them the same buffer.  After a weight
  was staged into a slot, staging another one that is neither an expert nor already in the store returns the
  very same slot, so that the first pointer now shows the second weight.
\<close>

theorem second_stage_overwrites:
  assumes "ss_life os f plan dir s" "plan_weights content plan" "faithful content f"
    and "ss_stage os (Some f) i s = (Inr (Slot k, n), t)"
    and "\<not> ss_is_expert t j" "j \<notin> set (ss_resident t)"
    and "ss_stage os (Some f) j t = (Inr (p, m), u)"
  shows "p = Slot k \<and> map_option (take (unat m)) (deref u (Slot k)) = Some (content j)"
proof -
  have ok: "ss_ok content s" by (rule life_ok [OF assms(1-3)])
  have okt: "ss_ok content t" using stage_ok(1) [OF ok assms(3), of os i] assms(4) by simp
  obtain nb where nb: "ss_sizes s i = Some nb" using assms(4) by (auto simp: ss_stage_def split: option.splits)
  then have i: "i \<noteq> 0" using ok by (auto simp: ss_ok_def sizes_ok_def)
  obtain r v where v: "choose_slot os (Some f) i s = (r, v)" by (cases "choose_slot os (Some f) i s") auto
  then have "ss_future v = None" using choose_slot_ok [OF ok assms(3) i, of os] by (simp add: chosen_def)
  moreover have st: "staged_result i nb v = (Inr (Slot k, n), t)"
    using assms(4) nb v by (simp add: ss_stage_def split: sum.splits)
  ultimately have t: "ss_future t = None" "k = ss_active t"
    by (auto simp: staged_result_def expert_mark_hot_def Let_def split: option.splits if_splits)
  obtain mb where mb: "ss_sizes t j = Some mb" using assms(7) by (auto simp: ss_stage_def split: option.splits)
  have two: "length (ss_resident t) = 2" "ss_active t < 2" using okt by (simp_all add: ss_ok_def slots_ok_def)
  then have "ss_resident t ! ss_active t \<noteq> j" "ss_resident t ! (1 - ss_active t) \<noteq> j"
    using assms(6) by (auto simp: in_set_conv_nth)
  then have choose: "choose_slot os (Some f) j t = stage_into os (Some f) (ss_active t) j t"
    using t(1) by (simp add: choose_slot_def ss_complete_def drop_future_def Let_def)
  obtain q w where w: "stage_into os (Some f) (ss_active t) j t = (q, w)"
    by (cases "stage_into os (Some f) (ss_active t) j t") auto
  have "step_ok content (ss_active t) j t (q, w)"
    unfolding w [symmetric] using okt two assms(3) by (intro stage_into_ok) (simp_all add: ss_ok_def)
  then have w': "ss_active w = ss_active t" "ss_is_expert w j = ss_is_expert t j"
    by (simp_all add: step_ok_def staged_ok_def ss_is_expert_def)
  have "staged_result j mb w = (Inr (p, m), u)"
    using assms(7) mb choose w by (simp add: ss_stage_def split: sum.splits)
  then have "p = Slot k" using w' assms(5) t(2) by (simp add: staged_result_def)
  moreover from stage_ok(2) [OF okt assms(3,7)]
  have "map_option (take (unat m)) (deref u p) = Some (content j)" .
  ultimately show ?thesis by simp
qed

definition demo_fresh :: streaming_store where
  "demo_fresh = ss_configure no_file (Some demo_loader) demo_plan [] ss_new"

lemma demo_first: "fst (ss_stage no_file (Some demo_loader) 1 demo_fresh) = Inr (Slot 0, 4)"
  by code_simp

lemma demo_second:
  "\<not> ss_is_expert (snd (ss_stage no_file (Some demo_loader) 1 demo_fresh)) 2"
  "2 \<notin> set (ss_resident (snd (ss_stage no_file (Some demo_loader) 1 demo_fresh)))"
  "fst (ss_stage no_file (Some demo_loader) 2 (snd (ss_stage no_file (Some demo_loader) 1 demo_fresh))) = Inr (Slot 0, 4)"
  by code_simp+

theorem second_stage_overwrites_witness:
  "map_option (take (unat (4 :: u64))) (deref (snd (ss_stage no_file (Some demo_loader) 2
     (snd (ss_stage no_file (Some demo_loader) 1 demo_fresh)))) (Slot 0)) = Some (demo_weight 2)"
proof -
  have life: "ss_life no_file demo_loader demo_plan [] demo_fresh"
    unfolding demo_fresh_def by (rule ss_life.configured)
  define t where "t = snd (ss_stage no_file (Some demo_loader) 1 demo_fresh)"
  have 1: "ss_stage no_file (Some demo_loader) 1 demo_fresh = (Inr (Slot 0, 4), t)"
    using demo_first unfolding t_def by (metis prod.collapse)
  have 2: "ss_stage no_file (Some demo_loader) 2 t = (Inr (Slot 0, 4), snd (ss_stage no_file (Some demo_loader) 2 t))"
    using demo_second(3) unfolding t_def by (metis prod.collapse)
  show ?thesis unfolding t_def [symmetric]
    using second_stage_overwrites [OF life demo_weights demo_faithful 1 demo_second(1,2) [folded t_def] 2] by blast
qed

end
