(* ===== verification/Session_State.thy ===== *)
theory Session_State
  imports Session_Kv Memory_Arena Streaming_Store
begin

text \<open>
  \<open>runtime::Session\<close> (\<open>session.hpp\<close>, \<open>session.cpp\<close>): its options and members, the allocation of its tensors, and
  the reading and writing of tensors by name.

  Memory is a map from the addresses of allocated blocks to their bytes; a buffer points to the start
  of a block, into the streaming store, or nowhere.  An access outside a block is undefined
  behaviour: the operation is then \<open>None\<close>.  The backend copies nothing asynchronously
  (\<open>stream_async_h2d_\<close> is false, as on every host-executing backend), so streamed weights are read
  where the store staged them.

  Other threads may call \<open>request_cancel\<close>, \<open>set_background\<close> and \<open>on_memory_warning\<close> at any time, and a prefetch may
  finish at any time.  The session carries the events still to come, a list of them for each point
  where the code can observe one (\<open>se_events\<close>); \<open>tick\<close> delivers the next.
\<close>

section \<open>State\<close>

record session_options =
  sx_strategy :: alloc_strategy
  sx_budget_bytes :: u64
  sx_arena_chunk_bytes :: u64
  sx_weights_dir :: string
  sx_validate :: bool
  sx_allow_unknown_ops :: bool
  sx_enable_fusion :: bool
  sx_enable_memory_reuse :: bool
  sx_enable_storage_plan :: bool
  sx_enable_plan_cache :: bool
  sx_enable_streaming :: bool
  sx_compute_dtype :: dtype
  sx_keep_quantized_weights :: bool
  sx_max_context :: int
  sx_kv_window :: int
  sx_kv_sink :: int
  sx_pin_layers :: int
  sx_expert_cache_bytes :: u64
  sx_single_staging :: bool
  sx_max_threads :: int

definition session_defaults :: session_options where
  "session_defaults = \<lparr>sx_strategy = StrategyPool, sx_budget_bytes = 0, sx_arena_chunk_bytes = 2 ^ 20, sx_weights_dir = [],
     sx_validate = True, sx_allow_unknown_ops = False, sx_enable_fusion = True, sx_enable_memory_reuse = True,
     sx_enable_storage_plan = True, sx_enable_plan_cache = True, sx_enable_streaming = False, sx_compute_dtype = DT_F32,
     sx_keep_quantized_weights = True, sx_max_context = 0, sx_kv_window = 0, sx_kv_sink = 4, sx_pin_layers = 0,
     sx_expert_cache_bytes = 0, sx_single_staging = False, sx_max_threads = 0\<rparr>"

datatype lifecycle_event = RequestCancel | SetBackground bool | MemoryWarning | PrefetchDone

text \<open>A buffer whose data lies in the streaming store has no address of its own.\<close>

record session_buffer = tensor_buffer +
  sb_staged :: "staged_ptr option"

record ('b, 'f) session =
  se_ready :: bool
  se_options :: session_options
  se_graph :: graph
  se_plan :: execution_plan
  se_memory_plan :: memory_reuse_plan
  se_allocator :: allocator
  se_backend :: 'b
  se_scheduler :: device_scheduler
  se_streaming :: "streaming_store option"
  se_kv :: "'f kv_cache option"
  se_owned :: "nat \<rightharpoonup> tensor_buffer"
  se_buffers :: "u64 \<rightharpoonup> session_buffer"
  se_names :: "string \<rightharpoonup> u64"
  se_heap :: "u64 \<rightharpoonup> u8 list"
  se_cancel :: bool
  se_background :: bool
  se_in_run :: bool
  se_drop_kv :: bool
  se_events :: "lifecycle_event list list"

definition se_error :: "string \<Rightarrow> error" where
  "se_error m = Error InvalidArgument m"

definition blank_buffer :: session_buffer where
  "blank_buffer = \<lparr>tb_id = 0, tb_dtype = DT_Unknown, tb_shape = [], tb_data = 0, tb_nbytes = 0, tb_owned = False,
     tb_quant_format = QF_F32, tb_quant_rows = 0, tb_quant_cols = 0, sb_staged = None\<rparr>"

section \<open>Memory\<close>

definition has_data :: "session_buffer \<Rightarrow> bool" where
  "has_data b \<longleftrightarrow> sb_staged b \<noteq> None \<or> tb_data b \<noteq> 0"

definition block_at :: "('b, 'f) session \<Rightarrow> session_buffer \<Rightarrow> u8 list option" where
  "block_at s b = (case sb_staged b of None \<Rightarrow> se_heap s (tb_data b)
     | Some p \<Rightarrow> Option.bind (se_streaming s) (\<lambda>st. deref st p))"

text \<open>\<open>n\<close> bytes from the start of the data, and \<open>bs\<close> written there.\<close>

definition read_bytes :: "('b, 'f) session \<Rightarrow> session_buffer \<Rightarrow> u64 \<Rightarrow> u8 list option" where
  "read_bytes s b n = (case block_at s b of None \<Rightarrow> None
     | Some bs \<Rightarrow> if unat n \<le> length bs then Some (take (unat n) bs) else None)"

definition set_staged :: "staged_ptr \<Rightarrow> u8 list \<Rightarrow> streaming_store \<Rightarrow> streaming_store" where
  "set_staged p bs st = (case p of Slot k \<Rightarrow> st\<lparr>ss_buffers := (ss_buffers st)[k := bs]\<rparr>
     | Expert i \<Rightarrow> st\<lparr>ss_store := (ss_store st)(i \<mapsto> bs)\<rparr>)"

definition write_bytes :: "session_buffer \<Rightarrow> u8 list \<Rightarrow> ('b, 'f) session \<Rightarrow> ('b, 'f) session option" where
  "write_bytes b bs s = (case block_at s b of None \<Rightarrow> None
     | Some old \<Rightarrow> if length bs > length old then None
         else Some (case sb_staged b of
             None \<Rightarrow> s\<lparr>se_heap := (se_heap s)(tb_data b \<mapsto> overwrite old bs)\<rparr>
           | Some p \<Rightarrow> s\<lparr>se_streaming := map_option (set_staged p (overwrite old bs)) (se_streaming s)\<rparr>))"

section \<open>Tensors by name\<close>

definition resolve_tensor :: "string \<Rightarrow> ('b, 'f) session \<Rightarrow> error + u64" where
  "resolve_tensor n s =
     (if n \<noteq> [] \<and> hd n = CHR ''#''
      then (case stoull (tl n) of Some i \<Rightarrow> Inr i | None \<Rightarrow> Inl (se_error (''bad tensor id '' @ n)))
      else case se_names s n of Some i \<Rightarrow> Inr i
      | None \<Rightarrow> (case stoull n of
            Some i \<Rightarrow> if se_buffers s i \<noteq> None then Inr i else Inl (Error NotFound (''tensor not found: '' @ n))
          | None \<Rightarrow> Inl (Error NotFound (''tensor not found: '' @ n))))"

definition find_buffer :: "u64 \<Rightarrow> ('b, 'f) session \<Rightarrow> session_buffer option" where
  "find_buffer i s = se_buffers s i"

definition find_buffer_name :: "string \<Rightarrow> ('b, 'f) session \<Rightarrow> session_buffer option" where
  "find_buffer_name n s = (case resolve_tensor n s of Inl _ \<Rightarrow> None | Inr i \<Rightarrow> find_buffer i s)"

definition set_tensor :: "string \<Rightarrow> u8 list \<Rightarrow> ('b, 'f) session \<Rightarrow> ((error + unit) \<times> ('b, 'f) session) option" where
  "set_tensor n bs s =
     (if \<not> se_ready s then Some (Inl (se_error ''session not ready''), s)
      else case resolve_tensor n s of Inl e \<Rightarrow> Some (Inl e, s)
      | Inr i \<Rightarrow> (case se_buffers s i of None \<Rightarrow> Some (Inl (Error NotFound ''buffer missing''), s)
          | Some b \<Rightarrow> if \<not> has_data b \<or> length bs \<noteq> unat (tb_nbytes b)
              then Some (Inl (se_error (''set_tensor size mismatch for '' @ n)), s)
              else map_option (\<lambda>s. (Inr (), s)) (write_bytes b bs s)))"

definition get_tensor :: "string \<Rightarrow> u64 \<Rightarrow> ('b, 'f) session \<Rightarrow> (error + u8 list) option" where
  "get_tensor n nb s =
     (if \<not> se_ready s then Some (Inl (se_error ''session not ready''))
      else case resolve_tensor n s of Inl e \<Rightarrow> Some (Inl e)
      | Inr i \<Rightarrow> (case find_buffer i s of None \<Rightarrow> Some (Inl (Error NotFound ''buffer missing''))
          | Some b \<Rightarrow> if \<not> has_data b then Some (Inl (Error NotFound ''buffer missing''))
              else if nb \<noteq> tb_nbytes b then Some (Inl (se_error ''get_tensor size mismatch''))
              else map_option Inr (read_bytes s b nb)))"

text \<open>
  \<open>get_tensor_f32\<close> sizes its vector by the number of whole floats and copies all bytes of the buffer: with a
  byte count that is no multiple of four the copy runs past the vector.
\<close>

definition get_tensor_f32 :: "string \<Rightarrow> ('b, 'f) session \<Rightarrow> (error + u8 list) option" where
  "get_tensor_f32 n s =
     (case resolve_tensor n s of Inl e \<Rightarrow> Some (Inl e)
      | Inr i \<Rightarrow> (case find_buffer i s of None \<Rightarrow> Some (Inl (Error NotFound ''buffer missing''))
          | Some b \<Rightarrow> if \<not> has_data b then Some (Inl (Error NotFound ''buffer missing''))
              else if unat (tb_nbytes b) mod 4 \<noteq> 0 then None else map_option Inr (read_bytes s b (tb_nbytes b))))"

section \<open>Allocation\<close>

definition coercible :: "dtype \<Rightarrow> bool" where
  "coercible d \<longleftrightarrow> d \<in> {DT_F32, DT_F16, DT_BF16, DT_I8, DT_I32, DT_U8}"

definition coerce_error :: "tensor \<Rightarrow> error" where
  "coerce_error t = Error NotImplemented (''session cannot coerce dtype for tensor '' @ t_name t)"

definition streamed :: "('b, 'f) session \<Rightarrow> u64 \<Rightarrow> bool" where
  "streamed s i \<longleftrightarrow> (case se_streaming s of None \<Rightarrow> False | Some st \<Rightarrow> ss_is_streamed st i)"

definition stays_packed :: "('b, 'f) session \<Rightarrow> tensor \<Rightarrow> bool" where
  "stays_packed s t \<longleftrightarrow> t_is_weight t \<and> sx_keep_quantized_weights (se_options s) \<and> is_gguf_block_quant (t_quant_format t)"

definition dim_or_zero :: "shape \<Rightarrow> nat \<Rightarrow> i64" where
  "dim_or_zero sh k = (if k < length sh then sh ! k else 0)"

definition packed_view :: "tensor \<Rightarrow> session_buffer \<Rightarrow> session_buffer" where
  "packed_view t b = b\<lparr>tb_dtype := DT_Unknown, tb_quant_format := t_quant_format t,
     tb_quant_rows := dim_or_zero (t_shape t) 0, tb_quant_cols := dim_or_zero (t_shape t) 1,
     tb_nbytes := packed_nbytes (t_quant_format t) (shape_numel (t_shape t))\<rparr>"

text \<open>The size of a view in f32; the branches for an unknown element count mirror the source.\<close>

definition view_nbytes :: "tensor \<Rightarrow> u64" where
  "view_nbytes t = (let n = shape_numel (t_shape t); nb = (if n > 0 then n * 4 else estimate_tensor_bytes t) in
     if n = 0 \<and> t_dtype t \<noteq> DT_F32 \<and> nb > 0
     then (let elem = dtype_size_bytes (t_dtype t) in if elem > 0 then (nb div elem) * 4 else nb)
     else nb)"

text \<open>\<open>allocate_bytes\<close> and the \<open>memset\<close> that follows it; the \<open>k\<close>-th call gets the \<open>k\<close>-th outcome of \<open>malloc\<close>.\<close>

definition zeroed_block ::
  "(nat \<Rightarrow> u64 option) \<Rightarrow> (nat \<Rightarrow> nat \<Rightarrow> u64) \<Rightarrow> nat \<Rightarrow> u64 \<Rightarrow> ('b, 'f) session \<Rightarrow> (error + u64) \<times> ('b, 'f) session" where
  "zeroed_block mem base k n s = (case allocate_bytes (mem k) (base k) n (se_allocator s) of
       (Inl e, a) \<Rightarrow> (Inl e, s\<lparr>se_allocator := a\<rparr>)
     | (Inr p, a) \<Rightarrow> (Inr p, s\<lparr>se_allocator := a, se_heap := (se_heap s)(p \<mapsto> replicate (unat n) 0)\<rparr>))"

definition slot_streamed :: "('b, 'f) session \<Rightarrow> buffer_slot \<Rightarrow> bool" where
  "slot_streamed s sl \<longleftrightarrow> (case bs_tenants sl of [] \<Rightarrow> False | i # _ \<Rightarrow> streamed s i)"

fun allocate_slots ::
  "(nat \<Rightarrow> u64 option) \<Rightarrow> (nat \<Rightarrow> nat \<Rightarrow> u64) \<Rightarrow> nat \<Rightarrow> buffer_slot list \<Rightarrow> ('b, 'f) session
     \<Rightarrow> (error + unit) \<times> ('b, 'f) session" where
  "allocate_slots mem base k [] s = (Inr (), s)"
| "allocate_slots mem base k (sl # sls) s =
     (if slot_streamed s sl then allocate_slots mem base (Suc k) sls s
      else case zeroed_block mem base k (bs_bytes sl) s of
        (Inl e, s) \<Rightarrow> (Inl e, s)
      | (Inr p, s) \<Rightarrow> allocate_slots mem base (Suc k) sls
          (s\<lparr>se_owned := (se_owned s)(bs_slot_id sl \<mapsto>
             \<lparr>tb_id = (case bs_tenants sl of [] \<Rightarrow> 0 | i # _ \<Rightarrow> i), tb_dtype = DT_F32, tb_shape = [], tb_data = p,
              tb_nbytes = bs_bytes sl, tb_owned = True, tb_quant_format = QF_F32, tb_quant_rows = 0,
              tb_quant_cols = 0\<rparr>)\<rparr>))"

text \<open>\<open>unordered_map::emplace\<close> keeps an entry that is there.\<close>

definition emplace :: "'k \<Rightarrow> 'v \<Rightarrow> ('k \<rightharpoonup> 'v) \<Rightarrow> 'k \<rightharpoonup> 'v" where
  "emplace k v m = (case m k of None \<Rightarrow> m(k \<mapsto> v) | Some _ \<Rightarrow> m)"

definition add_buffer :: "u64 \<Rightarrow> session_buffer \<Rightarrow> ('b, 'f) session \<Rightarrow> ('b, 'f) session" where
  "add_buffer i b s = s\<lparr>se_buffers := emplace i b (se_buffers s)\<rparr>"

fun make_views :: "tensor list \<Rightarrow> ('b, 'f) session \<Rightarrow> (error + unit) \<times> ('b, 'f) session" where
  "make_views [] s = (Inr (), s)"
| "make_views (t # ts) s =
     (if \<not> coercible (t_dtype t) then (Inl (coerce_error t), s)
      else let view = blank_buffer\<lparr>tb_id := t_id t, tb_dtype := DT_F32, tb_shape := t_shape t,
             tb_nbytes := view_nbytes t\<rparr> in
        if streamed s (t_id t)
        then make_views ts (add_buffer (t_id t)
          (if stays_packed s t then packed_view t view else view) s)
        else case mr_tensor_to_slot (se_memory_plan s) (t_id t) of
          None \<Rightarrow> (Inl (Error Internal ''missing slot for tensor''), s)
        | Some sid \<Rightarrow> (case se_owned s sid of
              None \<Rightarrow> (Inl (Error Internal ''missing owned slot''), s)
            | Some o_buf \<Rightarrow> make_views ts (add_buffer (t_id t) (view\<lparr>tb_data := tb_data o_buf\<rparr>) s)))"

definition allocate_packed ::
  "(nat \<Rightarrow> u64 option) \<Rightarrow> (nat \<Rightarrow> nat \<Rightarrow> u64) \<Rightarrow> nat \<Rightarrow> tensor \<Rightarrow> ('b, 'f) session
     \<Rightarrow> (error + unit) \<times> ('b, 'f) session" where
  "allocate_packed mem base k t s =
     (let b = (packed_view t blank_buffer)\<lparr>tb_id := t_id t, tb_shape := t_shape t, tb_owned := True\<rparr> in
      case zeroed_block mem base k (tb_nbytes b) s of
        (Inl e, s) \<Rightarrow> (Inl e, s)
      | (Inr p, s) \<Rightarrow> (Inr (), add_buffer (t_id t) (b\<lparr>tb_data := p\<rparr>) s))"

definition allocate_plain ::
  "(nat \<Rightarrow> u64 option) \<Rightarrow> (nat \<Rightarrow> nat \<Rightarrow> u64) \<Rightarrow> nat \<Rightarrow> tensor \<Rightarrow> ('b, 'f) session \<Rightarrow> (error + unit) \<times> ('b, 'f) session" where
  "allocate_plain mem base k t s =
     (case allocate_tensor (mem k) (base k) (t\<lparr>t_dtype := DT_F32\<rparr>) (tensor_buffer.truncate blank_buffer) (se_allocator s) of
        (Inl e, a) \<Rightarrow> (Inl e, s\<lparr>se_allocator := a\<rparr>)
      | (Inr b, a) \<Rightarrow> (Inr (), add_buffer (t_id t) (tensor_buffer.extend b \<lparr>sb_staged = None\<rparr>)
          (s\<lparr>se_allocator := a, se_heap := (se_heap s)(tb_data b \<mapsto> replicate (unat (tb_nbytes b)) 0)\<rparr>)))"

fun allocate_each ::
  "(nat \<Rightarrow> u64 option) \<Rightarrow> (nat \<Rightarrow> nat \<Rightarrow> u64) \<Rightarrow> nat \<Rightarrow> tensor list \<Rightarrow> ('b, 'f) session
     \<Rightarrow> (error + unit) \<times> ('b, 'f) session" where
  "allocate_each mem base k [] s = (Inr (), s)"
| "allocate_each mem base k (t # ts) s =
     (if \<not> coercible (t_dtype t) then (Inl (coerce_error t), s)
      else if streamed s (t_id t) then
        (let b = blank_buffer\<lparr>tb_id := t_id t, tb_shape := t_shape t\<rparr> in
         allocate_each mem base (Suc k) ts (add_buffer (t_id t)
           (if stays_packed s t then packed_view t b
            else b\<lparr>tb_dtype := DT_F32, tb_nbytes := shape_numel (t_shape t) * 4\<rparr>) s))
      else case (if stays_packed s t then allocate_packed mem base k t s else allocate_plain mem base k t s) of
        (Inl e, s) \<Rightarrow> (Inl e, s)
      | (Inr _, s) \<Rightarrow> allocate_each mem base (Suc k) ts s)"

definition allocate_all_tensors ::
  "(nat \<Rightarrow> u64 option) \<Rightarrow> (nat \<Rightarrow> nat \<Rightarrow> u64) \<Rightarrow> ('b, 'f) session
     \<Rightarrow> (error + unit) \<times> ('b, 'f) session" where
  "allocate_all_tensors mem base s =
     (if sx_enable_memory_reuse (se_options s) \<and> mr_slots (se_memory_plan s) \<noteq> []
      then (case allocate_slots mem base 0 (mr_slots (se_memory_plan s)) s of
          (Inl e, s) \<Rightarrow> (Inl e, s)
        | (Inr _, s) \<Rightarrow> make_views (g_tensors (se_graph s)) s)
      else allocate_each mem base 0 (g_tensors (se_graph s)) s)"

end
