(* ===== verification/Session_Run.thy ===== *)
theory Session_Run
  imports Session_State
begin

text \<open>
  \<open>Session::run\<close> and the lifecycle calls (\<open>session.cpp\<close>).  The backend is a parameter: its \<open>dispatch\<close> gets the views of
  inputs and outputs with the bytes behind them, and returns a result, the bytes it left in the outputs, the
  KV cache it may have appended to (\<open>set_active_kv_cache\<close>) and its own state.  \<open>None\<close> is undefined behaviour.
  The profiler and the trace file are left out.
\<close>

section \<open>Lifecycle\<close>

definition reject_if_paused :: "('b, 'f) session \<Rightarrow> error + unit" where
  "reject_if_paused s = (if se_background s then Inl (se_error ''paused: app backgrounded'')
     else if se_cancel s then Inl (se_error ''cancelled'') else Inr ())"

definition request_cancel :: "('b, 'f) session \<Rightarrow> ('b, 'f) session" where
  "request_cancel s = s\<lparr>se_cancel := True\<rparr>"

definition set_background :: "bool \<Rightarrow> ('b, 'f) session \<Rightarrow> ('b, 'f) session" where
  "set_background b s = s\<lparr>se_background := b\<rparr>"

definition drop_kv :: "'f \<Rightarrow> 'f kv_cache \<Rightarrow> 'f kv_cache" where
  "drop_kv zero c = (let scale = kv_rope_scale_len c; c = kv_reset zero c in
     if scale > 0 then kv_set_rope_scale_len scale c else c)"

definition apply_pending_kv_drop :: "'f \<Rightarrow> ('b, 'f) session \<Rightarrow> ('b, 'f) session" where
  "apply_pending_kv_drop zero s = (if \<not> se_drop_kv s then s
     else s\<lparr>se_drop_kv := False, se_kv := map_option (drop_kv zero) (se_kv s)\<rparr>)"

definition on_memory_warning :: "'f \<Rightarrow> ('b, 'f) session \<Rightarrow> ('b, 'f) session" where
  "on_memory_warning zero s = (let s = s\<lparr>se_drop_kv := True\<rparr> in
     if \<not> se_in_run s then apply_pending_kv_drop zero s else s)"

section \<open>The environment\<close>

record 'f runtime_env =
  re_zero :: 'f
  re_files :: "string \<Rightarrow> open_result"
  re_loader :: weight_loader
  re_rank :: "u8 list \<Rightarrow> nat \<Rightarrow> nat \<Rightarrow> nat list"

record op_view =
  ov_dtype :: dtype
  ov_shape :: shape
  ov_nbytes :: u64
  ov_quant_format :: quant_format
  ov_quant_rows :: i64
  ov_quant_cols :: i64

type_synonym ('b, 'f) dispatch =
  "string \<Rightarrow> string \<Rightarrow> (op_view \<times> u8 list option) list \<Rightarrow> (op_view \<times> u8 list) list \<Rightarrow> attribute list \<Rightarrow> 'f kv_cache option \<Rightarrow> 'b
     \<Rightarrow> (error + unit) \<times> u8 list list \<times> 'f kv_cache option \<times> 'b"

record ('b, 'f) backend =
  bk_name :: string
  bk_device_type :: device_type
  bk_uses_host_fallback :: bool
  bk_host_executable :: bool
  bk_dispatch :: "('b, 'f) dispatch"
  bk_dispatch_host :: "('b, 'f) dispatch"
  bk_synchronize :: "'b \<Rightarrow> (error + unit) \<times> 'b"

fun apply_event :: "'f runtime_env \<Rightarrow> lifecycle_event \<Rightarrow> ('b, 'f) session \<Rightarrow> ('b, 'f) session" where
  "apply_event env RequestCancel s = request_cancel s"
| "apply_event env (SetBackground b) s = set_background b s"
| "apply_event env MemoryWarning s = on_memory_warning (re_zero env) s"
| "apply_event env PrefetchDone s = s\<lparr>se_streaming :=
     map_option (ss_complete (re_files env) (Some (re_loader env))) (se_streaming s)\<rparr>"

definition tick :: "'f runtime_env \<Rightarrow> ('b, 'f) session \<Rightarrow> ('b, 'f) session" where
  "tick env s = (case se_events s of [] \<Rightarrow> s | es # rest \<Rightarrow> fold (apply_event env) es (s\<lparr>se_events := rest\<rparr>))"

section \<open>Streamed inputs\<close>

text \<open>\<open>static_cast<int>\<close> of a \<open>std::int64_t\<close>.\<close>

definition to_int :: "int \<Rightarrow> int" where
  "to_int i = sint (word_of_int i :: 32 word)"

definition moe_experts :: "node \<Rightarrow> int" where
  "moe_experts n = to_int (node_int_attr (n_attributes n) ''num_experts'' 0)"

definition listed_moe :: "node \<Rightarrow> bool" where
  "listed_moe n \<longleftrightarrow> n_op_name n = ''MoEExpertsSwiGLU'' \<and> int (length (n_inputs n)) = 2 + 3 * moe_experts n"

definition expert_inputs :: "node \<Rightarrow> nat \<Rightarrow> u64 list" where
  "expert_inputs n e = map (\<lambda>j. n_inputs n ! (2 + 3 * e + j)) [0, 1, 2]"

text \<open>The experts the router picked; without its scores none is kept.\<close>

definition moe_keep :: "'f runtime_env \<Rightarrow> node \<Rightarrow> ('b, 'f) session \<Rightarrow> u64 list" where
  "moe_keep env n s =
     (let nexp = moe_experts n; topk = to_int (node_int_attr (n_attributes n) ''top_k'' 2);
          k = (if topk > 0 then topk else 1); k = (if k > nexp then nexp else k)
      in case se_buffers s (n_inputs n ! 1) of None \<Rightarrow> []
       | Some b \<Rightarrow> (case block_at s b of None \<Rightarrow> []
           | Some bs \<Rightarrow> concat (map (expert_inputs n) (re_rank env bs (nat nexp) (nat k)))))"

definition upload_streamed :: "u64 \<Rightarrow> staged_ptr \<Rightarrow> u64 \<Rightarrow> ('b, 'f) session \<Rightarrow> (error + unit) \<times> ('b, 'f) session" where
  "upload_streamed i p n s =
     (case se_buffers s i of None \<Rightarrow> (Inl (Error Internal ''missing streamed buffer''), s)
      | Some b \<Rightarrow> let b = (case find_tensor (se_graph s) i of None \<Rightarrow> b
            | Some t \<Rightarrow> if stays_packed s t
                then b\<lparr>tb_quant_format := t_quant_format t, tb_quant_rows := dim_or_zero (t_shape t) 0,
                  tb_quant_cols := dim_or_zero (t_shape t) 1, tb_dtype := DT_Unknown\<rparr> else b)
          in (Inr (), s\<lparr>se_buffers := (se_buffers s)(i \<mapsto> b\<lparr>sb_staged := Some p, tb_nbytes := n\<rparr>)\<rparr>))"

fun stage_each ::
  "'f runtime_env \<Rightarrow> (u64 \<Rightarrow> bool) \<Rightarrow> u64 list \<Rightarrow> ('b, 'f) session \<Rightarrow> (error + unit) \<times> ('b, 'f) session" where
  "stage_each env skip [] s = (Inr (), s)"
| "stage_each env skip (i # is) s =
     (case se_streaming s of None \<Rightarrow> (Inr (), s)
      | Some st \<Rightarrow> if \<not> ss_is_streamed st i \<or> (ss_is_expert st i \<and> skip i) then stage_each env skip is s
          else (case ss_stage (re_files env) (Some (re_loader env)) i st of
              (Inl e, st) \<Rightarrow> (Inl e, s\<lparr>se_streaming := Some st\<rparr>)
            | (Inr (p, n), st) \<Rightarrow> (case upload_streamed i p n (s\<lparr>se_streaming := Some st\<rparr>) of
                  (Inl e, s) \<Rightarrow> (Inl e, s) | (Inr _, s) \<Rightarrow> stage_each env skip is s)))"

definition stage_streamed_inputs ::
  "'f runtime_env \<Rightarrow> node \<Rightarrow> ('b, 'f) session \<Rightarrow> (error + unit) \<times> ('b, 'f) session" where
  "stage_streamed_inputs env n s =
     (if se_streaming s = None then (Inr (), s)
      else let listed = (listed_moe n \<and> moe_experts n > 0); keep = (if listed then moe_keep env n s else [])
        in stage_each env (\<lambda>i. listed \<and> i \<notin> set keep) (n_inputs n) s)"

definition prefetch_next :: "planned_op option \<Rightarrow> ('b, 'f) session \<Rightarrow> ('b, 'f) session" where
  "prefetch_next next s =
     (case (se_streaming s, next) of
        (Some st, Some op) \<Rightarrow> (case find_node (se_graph s) (po_node_id op) of None \<Rightarrow> s
          | Some n \<Rightarrow> s\<lparr>se_streaming := Some (fold (\<lambda>i st.
              if \<not> ss_is_streamed st i \<or> (listed_moe n \<and> ss_is_expert st i) then st else ss_prefetch i st)
              (n_inputs n) st)\<rparr>)
      | _ \<Rightarrow> s)"

section \<open>One operation\<close>

definition view_of :: "session_buffer \<Rightarrow> op_view" where
  "view_of b = \<lparr>ov_dtype = tb_dtype b, ov_shape = tb_shape b, ov_nbytes = tb_nbytes b,
     ov_quant_format = tb_quant_format b, ov_quant_rows = tb_quant_rows b, ov_quant_cols = tb_quant_cols b\<rparr>"

definition missing :: "string \<Rightarrow> u64 \<Rightarrow> error" where
  "missing what i = Error NotFound (''missing '' @ what @ '' tensor '' @ u64_dec i)"

fun input_buffers :: "node \<Rightarrow> ('b, 'f) session \<Rightarrow> u64 list \<Rightarrow> error + session_buffer list" where
  "input_buffers n s [] = Inr []"
| "input_buffers n s (i # is) = (case se_buffers s i of None \<Rightarrow> Inl (missing ''input'' i)
     | Some b \<Rightarrow> if \<not> has_data b \<and> \<not> (listed_moe n \<and> (case se_streaming s of None \<Rightarrow> False | Some st \<Rightarrow> ss_is_expert st i))
         then Inl (missing ''input'' i) else rbind (input_buffers n s is) (\<lambda>bs. Inr (b # bs)))"

fun output_buffers :: "('b, 'f) session \<Rightarrow> u64 list \<Rightarrow> error + session_buffer list" where
  "output_buffers s [] = Inr []"
| "output_buffers s (i # is) = (case se_buffers s i of None \<Rightarrow> Inl (missing ''output'' i)
     | Some b \<Rightarrow> if \<not> has_data b then Inl (missing ''output'' i)
         else rbind (output_buffers s is) (\<lambda>bs. Inr (b # bs)))"

text \<open>The bytes a kernel sees through the views; an expert that was not staged has a null pointer.\<close>

definition input_content :: "('b, 'f) session \<Rightarrow> session_buffer \<Rightarrow> (op_view \<times> u8 list option) option" where
  "input_content s b = (if \<not> has_data b then Some (view_of b, None)
     else map_option (\<lambda>bs. (view_of b, Some bs)) (read_bytes s b (tb_nbytes b)))"

definition output_content :: "('b, 'f) session \<Rightarrow> session_buffer \<Rightarrow> (op_view \<times> u8 list) option" where
  "output_content s b = map_option (\<lambda>bs. (view_of b, bs)) (read_bytes s b (tb_nbytes b))"

definition all_some :: "'a option list \<Rightarrow> 'a list option" where
  "all_some xs = (if None \<in> set xs then None else Some (map the xs))"

fun write_outputs :: "(session_buffer \<times> u8 list) list \<Rightarrow> ('b, 'f) session \<Rightarrow> ('b, 'f) session option" where
  "write_outputs [] s = Some s"
| "write_outputs ((b, bs) # ws) s = Option.bind (write_bytes b (take (unat (tb_nbytes b)) bs) s) (write_outputs ws)"

definition run_kernel ::
  "('b, 'f) dispatch \<Rightarrow> node \<Rightarrow> ('b, 'f) session \<Rightarrow> ((error + unit) \<times> ('b, 'f) session) option" where
  "run_kernel disp n s =
     (case input_buffers n s (n_inputs n) of Inl e \<Rightarrow> Some (Inl e, s)
      | Inr ins \<Rightarrow> (case output_buffers s (n_outputs n) of Inl e \<Rightarrow> Some (Inl e, s)
        | Inr outs \<Rightarrow>
            Option.bind (all_some (map (input_content s) ins)) (\<lambda>icont.
            Option.bind (all_some (map (output_content s) outs)) (\<lambda>ocont.
              case disp (n_op_name n) (n_op_version n) icont ocont (n_attributes n) (se_kv s) (se_backend s) of
                (r, bss, kv, b) \<Rightarrow> Option.bind (write_outputs (zip outs bss) (s\<lparr>se_kv := kv, se_backend := b\<rparr>)) (\<lambda>s.
                  Some (case r of Inr _ \<Rightarrow> (Inr (), s)
                    | Inl e \<Rightarrow> (Inl (Error (err_code e) (''op '' @ [CHR 0x27] @ n_op_name n @ [CHR 0x27] @ '' node='' @ u64_dec (n_id n) @
                        '': '' @ err_message e)), s)))))))"

definition unavailable :: "('b, 'f) backend \<Rightarrow> device_type \<Rightarrow> bool" where
  "unavailable B d \<longleftrightarrow> d \<noteq> DevCpu \<and> d \<noteq> bk_device_type B \<and> \<not> bk_uses_host_fallback B"

definition dispatch_path :: "('b, 'f) backend \<Rightarrow> schedule_decision option \<Rightarrow> ('b, 'f) dispatch" where
  "dispatch_path B d = (case d of
       Some d \<Rightarrow> if sd_device d = DevCpu \<and> bk_device_type B \<noteq> DevCpu \<and> bk_host_executable B then bk_dispatch_host B
         else bk_dispatch B
     | None \<Rightarrow> bk_dispatch B)"

definition run_op ::
  "'f runtime_env \<Rightarrow> ('b, 'f) backend \<Rightarrow> schedule_decision option \<Rightarrow> planned_op \<Rightarrow> planned_op option
     \<Rightarrow> ('b, 'f) session \<Rightarrow> ((error + unit) \<times> ('b, 'f) session) option" where
  "run_op env B d op next s =
     (case find_node (se_graph s) (po_node_id op) of
        None \<Rightarrow> Some (Inl (Error Internal (''missing node '' @ u64_dec (po_node_id op))), s)
      | Some n \<Rightarrow>
          if (case d of None \<Rightarrow> False | Some d \<Rightarrow> unavailable B (sd_device d))
          then Some (Inl (Error NotImplemented (''scheduler selected device '' @ device_to_string (sd_device (the d)) @
            '' unavailable on backend '' @ bk_name B)), s)
          else (case stage_streamed_inputs env n s of
              (Inl e, s) \<Rightarrow> Some (Inl e, s)
            | (Inr _, s) \<Rightarrow> run_kernel (dispatch_path B d) n (tick env (prefetch_next next s))))"

section \<open>A run\<close>

fun run_ops ::
  "'f runtime_env \<Rightarrow> ('b, 'f) backend \<Rightarrow> schedule_decision list \<Rightarrow> planned_op list \<Rightarrow> ('b, 'f) session
     \<Rightarrow> ((error + unit) \<times> ('b, 'f) session) option" where
  "run_ops env B ds [] s = Some (Inr (), s)"
| "run_ops env B ds (op # ops) s =
     (case run_op env B (case ds of [] \<Rightarrow> None | d # _ \<Rightarrow> Some d) op (case ops of [] \<Rightarrow> None | op' # _ \<Rightarrow> Some op') s of
        None \<Rightarrow> None
      | Some (Inl e, s) \<Rightarrow> Some (Inl e, s)
      | Some (Inr _, s) \<Rightarrow> run_ops env B (tl ds) ops s)"

definition enter_run :: "'f \<Rightarrow> ('b, 'f) session \<Rightarrow> ('b, 'f) session" where
  "enter_run zero s = (apply_pending_kv_drop zero s)\<lparr>se_in_run := True\<rparr>"

definition leave_run :: "'f \<Rightarrow> ('b, 'f) session \<Rightarrow> ('b, 'f) session" where
  "leave_run zero s = apply_pending_kv_drop zero (s\<lparr>se_in_run := False\<rparr>)"

definition commit_step :: "('b, 'f) session \<Rightarrow> ('b, 'f) session" where
  "commit_step s = s\<lparr>se_kv := map_option (\<lambda>c. if kv_configured c then kv_commit_step c else c) (se_kv s)\<rparr>"

definition finish_run ::
  "('b, 'f) backend \<Rightarrow> ('b, 'f) session \<Rightarrow> (error + unit) \<times> ('b, 'f) session" where
  "finish_run B s = (case bk_synchronize B (se_backend s) of
       (Inl e, b) \<Rightarrow> (Inl e, s\<lparr>se_backend := b\<rparr>)
     | (Inr _, b) \<Rightarrow> (Inr (), commit_step (s\<lparr>se_backend := b\<rparr>)))"

definition run ::
  "'f runtime_env \<Rightarrow> ('b, 'f) backend \<Rightarrow> ('b, 'f) session \<Rightarrow> ((error + unit) \<times> ('b, 'f) session) option" where
  "run env B s =
     (if \<not> se_ready s then Some (Inl (se_error ''session not ready''), s)
      else let s = tick env s in
        case reject_if_paused s of Inl e \<Rightarrow> Some (Inl e, s)
        | Inr _ \<Rightarrow> (case run_ops env B (device_schedule_plan (se_scheduler s) (se_plan s)) (ep_ops (se_plan s))
              (enter_run (re_zero env) s) of
            None \<Rightarrow> None
          | Some (Inl e, s) \<Rightarrow> Some (Inl e, leave_run (re_zero env) s)
          | Some (Inr _, s) \<Rightarrow> (case finish_run B s of (r, s) \<Rightarrow> Some (r, leave_run (re_zero env) s))))"

section \<open>What the lifecycle calls can change\<close>

text \<open>Inside a run a call from another thread changes the flags and the streaming store only.\<close>

definition same_but_events :: "('b, 'f) session \<Rightarrow> ('b, 'f) session \<Rightarrow> bool" where
  "same_but_events s s' \<longleftrightarrow> se_ready s' = se_ready s \<and> se_options s' = se_options s \<and> se_graph s' = se_graph s \<and>
     se_plan s' = se_plan s \<and> se_memory_plan s' = se_memory_plan s \<and> se_allocator s' = se_allocator s \<and>
     se_backend s' = se_backend s \<and> se_scheduler s' = se_scheduler s \<and> se_owned s' = se_owned s \<and>
     se_buffers s' = se_buffers s \<and> se_names s' = se_names s \<and> se_heap s' = se_heap s \<and> se_in_run s' = se_in_run s \<and>
     (se_cancel s \<longrightarrow> se_cancel s') \<and> (se_streaming s = None \<longleftrightarrow> se_streaming s' = None) \<and>
     (se_in_run s \<longrightarrow> se_kv s' = se_kv s)"

lemma same_but_events_refl [simp]: "same_but_events s s"
  by (simp add: same_but_events_def)

lemma same_but_events_trans: "same_but_events s t \<Longrightarrow> same_but_events t u \<Longrightarrow> same_but_events s u"
  by (simp add: same_but_events_def)

lemma apply_event_same: "same_but_events s (apply_event env e s)"
  by (cases e) (simp_all add: same_but_events_def request_cancel_def set_background_def on_memory_warning_def
      apply_pending_kv_drop_def Let_def)

lemma fold_events_same: "same_but_events s (fold (apply_event env) es s)"
proof (induction es arbitrary: s)
  case (Cons e es)
  from same_but_events_trans [OF apply_event_same Cons.IH] show ?case by simp
qed simp

lemma tick_same: "same_but_events s (tick env s)"
proof (cases "se_events s")
  case Nil
  then show ?thesis by (simp add: tick_def)
next
  case (Cons es rest)
  have "same_but_events s (s\<lparr>se_events := rest\<rparr>)" by (simp add: same_but_events_def)
  from same_but_events_trans [OF this fold_events_same] show ?thesis using Cons by (simp add: tick_def)
qed

text \<open>What an operation keeps: everything but buffers, memory, streaming, cache, backend state and events.\<close>

definition same_control :: "('b, 'f) session \<Rightarrow> ('b, 'f) session \<Rightarrow> bool" where
  "same_control s s' \<longleftrightarrow> se_ready s' = se_ready s \<and> se_options s' = se_options s \<and> se_graph s' = se_graph s \<and>
     se_plan s' = se_plan s \<and> se_scheduler s' = se_scheduler s \<and> se_names s' = se_names s \<and> se_in_run s' = se_in_run s \<and>
     (se_cancel s \<longrightarrow> se_cancel s')"

lemma same_control_refl [simp]: "same_control s s"
  by (simp add: same_control_def)

lemma same_control_trans: "same_control s t \<Longrightarrow> same_control t u \<Longrightarrow> same_control s u"
  by (simp add: same_control_def)

lemma same_control_events: "same_but_events s t \<Longrightarrow> same_control s t"
  by (simp add: same_but_events_def same_control_def)

lemma upload_frame: "upload_streamed i p n s = (r, s') \<Longrightarrow> same_control s s' \<and> se_kv s' = se_kv s"
  by (auto simp: upload_streamed_def same_control_def Let_def split: option.splits if_splits)

lemma stage_each_frame: "stage_each env skip is s = (r, s') \<Longrightarrow> same_control s s' \<and> se_kv s' = se_kv s"
proof (induction "is" arbitrary: s)
  case (Cons i "is")
  show ?case
  proof (cases "se_streaming s")
    case None
    then show ?thesis using Cons.prems by simp
  next
    case (Some st)
    have set: "same_control s (s\<lparr>se_streaming := Some st'\<rparr>)" for st' by (simp add: same_control_def)
    show ?thesis
    proof (cases "\<not> ss_is_streamed st i \<or> (ss_is_expert st i \<and> skip i)")
      case True
      then show ?thesis using Cons Some by auto
    next
      case False
      obtain x st' where st: "ss_stage (re_files env) (Some (re_loader env)) i st = (x, st')"
        by (cases "ss_stage (re_files env) (Some (re_loader env)) i st") auto
      note step = Cons.prems [unfolded stage_each.simps Some option.case if_not_P [OF False] st prod.case]
      show ?thesis
      proof (cases x)
        case (Inl e)
        then show ?thesis using step set by auto
      next
        case (Inr pn)
        obtain p n where pn: "pn = (p, n)" by (cases pn)
        obtain q s2 where q: "upload_streamed i p n (s\<lparr>se_streaming := Some st'\<rparr>) = (q, s2)"
          by (cases "upload_streamed i p n (s\<lparr>se_streaming := Some st'\<rparr>)") auto
        have u: "same_control s s2" "se_kv s2 = se_kv s"
          using upload_frame [OF q] same_control_trans [OF set] by auto
        show ?thesis
        proof (cases q)
          case (Inl e)
          then show ?thesis using step Inr pn q u by simp
        next
          case (Inr v)
          then have "stage_each env skip is s2 = (r, s')" using step \<open>x = Inr pn\<close> pn q by simp
          from Cons.IH [OF this] show ?thesis using u same_control_trans by metis
        qed
      qed
    qed
  qed
qed simp

lemma stage_streamed_frame:
  "stage_streamed_inputs env n s = (r, s') \<Longrightarrow> same_control s s' \<and> se_kv s' = se_kv s"
  by (auto simp: stage_streamed_inputs_def Let_def split: if_splits dest: stage_each_frame)

lemma prefetch_frame: "same_control s (prefetch_next next s) \<and> se_kv (prefetch_next next s) = se_kv s"
  by (simp add: prefetch_next_def same_control_def split: option.split)

lemma write_bytes_frame:
  "write_bytes b bs s = Some s' \<Longrightarrow> same_control s s' \<and> se_kv s' = se_kv s \<and> se_backend s' = se_backend s"
  by (auto simp: write_bytes_def same_control_def split: option.splits if_splits)

lemma write_outputs_frame:
  "write_outputs ws s = Some s' \<Longrightarrow> same_control s s' \<and> se_kv s' = se_kv s \<and> se_backend s' = se_backend s"
proof (induction ws arbitrary: s)
  case (Cons w ws)
  obtain b bs where w: "w = (b, bs)" by (cases w)
  from Cons.prems w obtain s1 where "write_bytes b (take (unat (tb_nbytes b)) bs) s = Some s1" "write_outputs ws s1 = Some s'"
    by (auto simp: bind_eq_Some_conv)
  from write_bytes_frame [OF this(1)] Cons.IH [OF this(2)] show ?case using same_control_trans by metis
qed simp

text \<open>A backend whose kernels leave the KV cache alone.\<close>

definition keeps_kv :: "('b, 'f) dispatch \<Rightarrow> bool" where
  "keeps_kv disp \<longleftrightarrow> (\<forall>op v ins outs as kv b. fst (snd (snd (disp op v ins outs as kv b))) = kv)"

lemma run_kernel_cases:
  assumes "run_kernel disp n s = Some (r, s')"
  obtains (same) e where "r = Inl e" "s' = s"
  | (ran) ins outs icont ocont q bss kv b where
      "input_buffers n s (n_inputs n) = Inr ins" "output_buffers s (n_outputs n) = Inr outs"
      "all_some (map (input_content s) ins) = Some icont" "all_some (map (output_content s) outs) = Some ocont"
      "disp (n_op_name n) (n_op_version n) icont ocont (n_attributes n) (se_kv s) (se_backend s) = (q, bss, kv, b)"
      "write_outputs (zip outs bss) (s\<lparr>se_kv := kv, se_backend := b\<rparr>) = Some s'" "q = Inr () \<longleftrightarrow> r = Inr ()"
proof (cases "input_buffers n s (n_inputs n)")
  case (Inl e)
  then have "r = Inl e" "s' = s" using assms by (auto simp: run_kernel_def)
  then show ?thesis by (rule same)
next
  case (Inr ins)
  show ?thesis
  proof (cases "output_buffers s (n_outputs n)")
    case (Inl e)
    then have "r = Inl e" "s' = s" using assms Inr by (auto simp: run_kernel_def)
    then show ?thesis by (rule same)
  next
    case Outs: (Inr outs)
    then obtain icont ocont where c: "all_some (map (input_content s) ins) = Some icont"
        "all_some (map (output_content s) outs) = Some ocont"
      using assms Inr by (auto simp: run_kernel_def bind_eq_Some_conv)
    obtain q bss kv b where d: "disp (n_op_name n) (n_op_version n) icont ocont (n_attributes n) (se_kv s) (se_backend s) =
        (q, bss, kv, b)" using prod_cases4 by blast
    have "write_outputs (zip outs bss) (s\<lparr>se_kv := kv, se_backend := b\<rparr>) = Some s' \<and> (q = Inr () \<longleftrightarrow> r = Inr ())"
      using assms Inr Outs c d by (cases q) (auto simp: run_kernel_def bind_eq_Some_conv)
    then show ?thesis using ran [OF Inr Outs c d] by blast
  qed
qed

lemma run_kernel_frame:
  assumes "run_kernel disp n s = Some (r, s')"
  shows "same_control s s' \<and> (keeps_kv disp \<longrightarrow> se_kv s' = se_kv s)"
  using assms
proof (cases rule: run_kernel_cases)
  case same
  then show ?thesis by simp
next
  case (ran ins outs icont ocont q bss kv b)
  have "same_control s (s\<lparr>se_kv := kv, se_backend := b\<rparr>)" by (simp add: same_control_def)
  moreover have "keeps_kv disp \<Longrightarrow> kv = se_kv s" using ran(5) by (metis fst_conv keeps_kv_def snd_conv)
  ultimately show ?thesis using write_outputs_frame [OF ran(6)] same_control_trans by fastforce
qed

lemma run_op_frame:
  assumes "run_op env B d op next s = Some (r, s')"
  shows "same_control s s' \<and> (se_in_run s \<longrightarrow> keeps_kv (bk_dispatch B) \<longrightarrow> keeps_kv (bk_dispatch_host B) \<longrightarrow> se_kv s' = se_kv s)"
proof (cases "find_node (se_graph s) (po_node_id op)")
  case None
  then show ?thesis using assms by (simp add: run_op_def)
next
  case (Some n)
  show ?thesis
  proof (cases "case d of None \<Rightarrow> False | Some d \<Rightarrow> unavailable B (sd_device d)")
    case True
    then show ?thesis using assms Some by (simp add: run_op_def)
  next
    case False
    note step = assms [unfolded run_op_def Some option.case(2) if_not_P [OF False]]
    obtain q s1 where q: "stage_streamed_inputs env n s = (q, s1)" by (cases "stage_streamed_inputs env n s") auto
    note st = stage_streamed_frame [OF q]
    show ?thesis
    proof (cases q)
      case (Inl e)
      then show ?thesis using step q st by simp
    next
      case (Inr u)
      let ?s = "tick env (prefetch_next next s1)"
      have k: "run_kernel (dispatch_path B d) n ?s = Some (r, s')" using step q Inr by simp
      have mid: "same_control s ?s" "se_in_run s \<longrightarrow> se_kv ?s = se_kv s"
        using st prefetch_frame [of s1 "next"] tick_same [of "prefetch_next next s1" env]
          same_control_trans same_control_events by (auto simp: same_control_def same_but_events_def)
      have "keeps_kv (dispatch_path B d)" if "keeps_kv (bk_dispatch B)" "keeps_kv (bk_dispatch_host B)"
        using that by (simp add: dispatch_path_def split: option.split)
      then show ?thesis using run_kernel_frame [OF k] mid same_control_trans by metis
    qed
  qed
qed

lemma run_ops_frame:
  assumes "run_ops env B ds ops s = Some (r, s')"
  shows "same_control s s' \<and> (se_in_run s \<longrightarrow> keeps_kv (bk_dispatch B) \<longrightarrow> keeps_kv (bk_dispatch_host B) \<longrightarrow> se_kv s' = se_kv s)"
  using assms
proof (induction ops arbitrary: ds s)
  case (Cons op ops)
  then obtain q s1 where q: "run_op env B (case ds of [] \<Rightarrow> None | d # _ \<Rightarrow> Some d) op
      (case ops of [] \<Rightarrow> None | op' # _ \<Rightarrow> Some op') s = Some (q, s1)" by (auto split: option.split_asm)
  note f = run_op_frame [OF q]
  show ?case
  proof (cases q)
    case (Inl e)
    then show ?thesis using Cons.prems q f by simp
  next
    case (Inr u)
    then have "run_ops env B (tl ds) ops s1 = Some (r, s')" using Cons.prems q by simp
    from Cons.IH [OF this] f show ?thesis using same_control_trans by (metis same_control_def)
  qed
qed simp

lemma run_entered:
  assumes "run env B s = Some (r, s')" "se_ready s" "reject_if_paused (tick env s) = Inr ()"
  obtains q t where "run_ops env B (device_schedule_plan (se_scheduler (tick env s)) (se_plan (tick env s)))
      (ep_ops (se_plan (tick env s))) (enter_run (re_zero env) (tick env s)) = Some (q, t)"
    "(r, s') = (case q of Inl e \<Rightarrow> (Inl e, leave_run (re_zero env) t)
       | Inr _ \<Rightarrow> (fst (finish_run B t), leave_run (re_zero env) (snd (finish_run B t))))"
proof -
  from assms obtain q t where q: "run_ops env B (device_schedule_plan (se_scheduler (tick env s)) (se_plan (tick env s)))
      (ep_ops (se_plan (tick env s))) (enter_run (re_zero env) (tick env s)) = Some (q, t)"
    by (auto simp: run_def Let_def split: option.split_asm)
  have "(r, s') = (case q of Inl e \<Rightarrow> (Inl e, leave_run (re_zero env) t)
       | Inr _ \<Rightarrow> (fst (finish_run B t), leave_run (re_zero env) (snd (finish_run B t))))"
    using assms q by (cases q) (auto simp: run_def Let_def split: prod.split_asm)
  with q show thesis by (rule that)
qed

lemma finish_run_flags:
  "se_drop_kv (snd (finish_run B t)) = se_drop_kv t"
  by (simp add: finish_run_def commit_step_def split: prod.split sum.split)

lemma leave_run_flags: "\<not> se_in_run (leave_run zero s)" "\<not> se_drop_kv (leave_run zero s)"
  by (simp_all add: leave_run_def apply_pending_kv_drop_def)

lemma leave_run_dropped:
  "se_drop_kv s \<Longrightarrow> se_kv (leave_run zero s) = Some c \<Longrightarrow> kv_past_len c = 0"
  by (auto simp: leave_run_def apply_pending_kv_drop_def drop_kv_def kv_reset_def kv_set_rope_scale_len_def Let_def)


end
