(* ===== verification/Session_Generate.thy ===== *)
theory Session_Generate
  imports Session_Run
begin

text \<open>
  \<open>Session::generate\<close> (\<open>session.cpp\<close>): the prompt is fed token by token, then tokens are sampled and fed back, until the
  count is reached, a stop token or a refusal of the callback, an error, a cancellation or a pause.

  The sampler is a parameter (\<open>sample_token_f32\<close> with its random generator as state), as is the callback, which decides
  on the tokens generated so far.  \<open>out_tokens\<close> is returned as the call leaves it, also with an
  error.  The times at which other threads act are the ticks of \<open>Session_State\<close>.
\<close>

section \<open>Steps\<close>

text \<open>\<open>static_cast<float>\<close> of an integer, rounded to nearest even, as four little-endian bytes.\<close>

definition f32_bits_of_int :: "int \<Rightarrow> u32" where
  "f32_bits_of_int i = (let n = nat (abs i); k = nat_log2 n;
       m = (if k \<le> 23 then int n * 2 ^ (23 - k) else int (round_half_even n (2 ^ (k - 23))))
     in word_of_int ((if i < 0 then 2 ^ 31 else 0) + (if n = 0 then 0 else (int k + 126) * 2 ^ 23 + m)))"

definition write_tokens_step :: "u64 \<Rightarrow> int \<Rightarrow> ('b, 'f) session \<Rightarrow> ((error + unit) \<times> ('b, 'f) session) option" where
  "write_tokens_step i tok s =
     (case se_buffers s i of None \<Rightarrow> Some (Inl (Error NotFound ''tokens buffer missing''), s)
      | Some b \<Rightarrow> let n = unat (tb_nbytes b) div 4 in
          if \<not> has_data b then Some (Inl (Error NotFound ''tokens buffer missing''), s)
          else if n = 0 then Some (Inl (se_error ''tokens buffer empty''), s)
          else map_option (\<lambda>s. (Inr (), s))
            (write_bytes b (replicate (4 * (n - 1)) 0 @ put_u32 (f32_bits_of_int tok)) s))"

record 'g sampler =
  sm_greedy :: bool
  sm_sample :: "u8 list \<Rightarrow> int list \<Rightarrow> 'g \<Rightarrow> (error + int) \<times> 'g"

text \<open>The last row of the scores, when their last dimension divides their number.\<close>

definition score_row :: "session_buffer \<Rightarrow> nat \<times> nat" where
  "score_row b = (let n = unat (tb_nbytes b) div 4; vocab = sint (last (tb_shape b)) in
     if length (tb_shape b) \<ge> 2 \<and> vocab > 0 \<and> n mod nat vocab = 0 then (n - nat vocab, nat vocab) else (0, n))"

definition read_sample_token ::
  "'g sampler \<Rightarrow> u64 \<Rightarrow> int list \<Rightarrow> 'g \<Rightarrow> ('b, 'f) session \<Rightarrow> ((error + int) \<times> 'g) option" where
  "read_sample_token sm i history g s =
     (case find_buffer i s of None \<Rightarrow> Some (Inl (Error NotFound ''scores buffer missing''), g)
      | Some b \<Rightarrow> if \<not> has_data b then Some (Inl (Error NotFound ''scores buffer missing''), g)
          else if unat (tb_nbytes b) div 4 = 0 then Some (Inl (se_error ''scores empty''), g)
          else map_option (\<lambda>bs. let (start, n) = score_row b in
              sm_sample sm (take (4 * n) (drop (4 * start) bs)) history g)
            (read_bytes s b (tb_nbytes b)))"

definition session_max_context :: "('b, 'f) session \<Rightarrow> int" where
  "session_max_context s =
     (let m = sx_max_context (se_options s); m = (if m \<le> 0 then meta_i64 (se_graph s) ''max_context'' 0 else m);
          m = (if m \<le> 0 then meta_i64 (se_graph s) ''context_length'' 0 else m)
      in if m \<le> 0 then meta_i64 (se_graph s) ''llama.context_length'' 0 else m)"

definition tokens_tensor :: "('b, 'f) session \<Rightarrow> error + u64" where
  "tokens_tensor s = (case se_names s ''tokens'' of Some i \<Rightarrow> Inr i
     | None \<Rightarrow> (case g_inputs (se_graph s) of i # _ \<Rightarrow> Inr i
         | [] \<Rightarrow> Inl (Error NotFound ''generate: no tokens input'')))"

definition scores_tensor :: "bool \<Rightarrow> ('b, 'f) session \<Rightarrow> error + u64" where
  "scores_tensor want_logits s =
     (if want_logits \<and> se_names s ''logits'' \<noteq> None then Inr (the (se_names s ''logits''))
      else case se_names s ''probs'' of Some i \<Rightarrow> Inr i
      | None \<Rightarrow> (case se_names s ''logits'' of Some i \<Rightarrow> Inr i
          | None \<Rightarrow> (case g_outputs (se_graph s) of i # _ \<Rightarrow> Inr i
              | [] \<Rightarrow> Inl (Error NotFound ''generate: no probs/logits output''))))"

definition set_scale :: "int \<Rightarrow> ('b, 'f) session \<Rightarrow> ('b, 'f) session" where
  "set_scale n s = s\<lparr>se_kv := map_option (kv_set_rope_scale_len n) (se_kv s)\<rparr>"

section \<open>The loops\<close>

text \<open>
  The context limit \<open>ctx\<close> is checked only where the window does not slide; \<open>None\<close> stands for no check.
\<close>

definition over :: "int option \<Rightarrow> int \<Rightarrow> bool" where
  "over ctx n \<longleftrightarrow> (case ctx of None \<Rightarrow> False | Some m \<Rightarrow> n > m)"

definition feed ::
  "'f runtime_env \<Rightarrow> ('b, 'f) backend \<Rightarrow> u64 \<Rightarrow> int \<Rightarrow> ('b, 'f) session \<Rightarrow> ((error + unit) \<times> ('b, 'f) session) option" where
  "feed env B i tok s = (case write_tokens_step i tok s of None \<Rightarrow> None
     | Some (Inl e, s) \<Rightarrow> Some (Inl e, s)
     | Some (Inr _, s) \<Rightarrow> run env B s)"

fun prefill ::
  "'f runtime_env \<Rightarrow> ('b, 'f) backend \<Rightarrow> int option \<Rightarrow> u64 \<Rightarrow> int list \<Rightarrow> int list \<Rightarrow> ('b, 'f) session
     \<Rightarrow> ((error + unit) \<times> int list \<times> ('b, 'f) session) option" where
  "prefill env B ctx i [] out s = Some (Inr (), out, s)"
| "prefill env B ctx i (tok # toks) out s =
     (let s = tick env s in
      case reject_if_paused s of Inl e \<Rightarrow> Some (Inl e, out, s)
      | Inr _ \<Rightarrow>
          if over ctx (int (length out) + 1)
          then Some (Inl (se_error ''context length exceeded during prefill''), out, s)
          else (case feed env B i tok s of None \<Rightarrow> None
            | Some (Inl e, s) \<Rightarrow> Some (Inl e, out, s)
            | Some (Inr _, s) \<Rightarrow> prefill env B ctx i toks (out @ [tok]) s))"

fun decode ::
  "'f runtime_env \<Rightarrow> ('b, 'f) backend \<Rightarrow> 'g sampler \<Rightarrow> int list \<Rightarrow> (int list \<Rightarrow> bool) option \<Rightarrow> int option \<Rightarrow> u64 \<Rightarrow> u64
     \<Rightarrow> nat \<Rightarrow> int list \<Rightarrow> 'g \<Rightarrow> ('b, 'f) session \<Rightarrow> ((error + unit) \<times> int list \<times> 'g \<times> ('b, 'f) session) option" where
  "decode env B sm stops cb ctx ti si 0 out g s = Some (Inr (), out, g, s)"
| "decode env B sm stops cb ctx ti si (Suc n) out g s =
     (let s = tick env s in
      case reject_if_paused s of Inl e \<Rightarrow> Some (Inl e, out, g, s)
      | Inr _ \<Rightarrow>
          if over ctx (int (length out) + 1)
          then Some (Inl (se_error ''context length exceeded during decode''), out, g, s)
          else (case read_sample_token sm si out g s of None \<Rightarrow> None
            | Some (Inl e, g) \<Rightarrow> Some (Inl e, out, g, s)
            | Some (Inr tok, g) \<Rightarrow>
                let out = out @ [tok] in
                if (case cb of None \<Rightarrow> False | Some f \<Rightarrow> \<not> f out) then Some (Inr (), out, g, s)
                else if tok \<in> set stops then Some (Inr (), out, g, s)
                else if n = 0 then Some (Inr (), out, g, s)
                else if over ctx (int (length out) + 1)
                then Some (Inl (se_error ''context length exceeded during decode''), out, g, s)
                else (case feed env B ti tok s of None \<Rightarrow> None
                  | Some (Inl e, s) \<Rightarrow> Some (Inl e, out, g, s)
                  | Some (Inr _, s) \<Rightarrow> decode env B sm stops cb ctx ti si n out g s)))"

section \<open>Generation\<close>

text \<open>The checks before the first run: the context limit, the two tensors and the KV cache.\<close>

definition generate_setup ::
  "'f runtime_env \<Rightarrow> int list \<Rightarrow> int \<Rightarrow> bool \<Rightarrow> ('b, 'f) session
     \<Rightarrow> ((error + int option \<times> u64 \<times> u64) \<times> ('b, 'f) session) option" where
  "generate_setup env prompt max_new want_logits s =
     (let ctx = session_max_context s; plen = int (length prompt); total = plen + max_new;
          limit = (if ctx > 0 \<and> sx_kv_window (se_options s) \<le> 0 then Some ctx else None)
      in if over limit plen then Some (Inl (se_error (''prompt length exceeds max_context ('' @ int_dec plen @ '' > '' @
             int_dec ctx @ '')'')), s)
         else if over limit total then Some (Inl (se_error (''prompt+max_new_tokens exceeds max_context ('' @
             int_dec total @ '' > '' @ int_dec ctx @ '')'')), s)
         else case tokens_tensor s of Inl e \<Rightarrow> Some (Inl e, s)
         | Inr ti \<Rightarrow> (case scores_tensor want_logits s of Inl e \<Rightarrow> Some (Inl e, s)
           | Inr si \<Rightarrow>
               let window = sx_kv_window (se_options s);
                   kv_max = (if window > 0 then window else if ctx > 0 then ctx
                     else max total (plen + max max_new 1))
               in (case ensure_kv_cache (re_zero env) (se_graph s) (sx_kv_sink (se_options s)) kv_max (se_kv s) of
                     None \<Rightarrow> None
                   | Some (Inl e, kv) \<Rightarrow> Some (Inl e, s\<lparr>se_kv := kv\<rparr>)
                   | Some (Inr _, kv) \<Rightarrow> Some (Inr (limit, ti, si), s\<lparr>se_kv := kv\<rparr>))))"

definition generate ::
  "'f runtime_env \<Rightarrow> ('b, 'f) backend \<Rightarrow> 'g sampler \<Rightarrow> int list \<Rightarrow> int \<Rightarrow> int list \<Rightarrow> (int list \<Rightarrow> bool) option \<Rightarrow> 'g
     \<Rightarrow> int list \<Rightarrow> ('b, 'f) session \<Rightarrow> ((error + unit) \<times> int list \<times> 'g \<times> ('b, 'f) session) option" where
  "generate env B sm prompt max_new stops cb g out0 s =
     (if \<not> se_ready s then Some (Inl (se_error ''session not ready''), out0, g, s)
      else if prompt = [] then Some (Inl (se_error ''prompt_tokens empty''), out0, g, s)
      else if max_new < 0 then Some (Inl (se_error ''max_new_tokens < 0''), out0, g, s)
      else let s = tick env (s\<lparr>se_cancel := False\<rparr>) in
        case reject_if_paused s of Inl e \<Rightarrow> Some (Inl e, out0, g, s)
        | Inr _ \<Rightarrow> (case generate_setup env prompt max_new (\<not> sm_greedy sm) s of
              None \<Rightarrow> None
            | Some (Inl e, s) \<Rightarrow> Some (Inl e, out0, g, s)
            | Some (Inr (limit, ti, si), s) \<Rightarrow>
                (case prefill env B limit ti prompt [] (set_scale (int (length prompt)) s) of
                   None \<Rightarrow> None
                 | Some (Inl e, out, s) \<Rightarrow> Some (Inl e, out, g, set_scale 0 s)
                 | Some (Inr _, out, s) \<Rightarrow>
                     map_option (\<lambda>(r, out, g, s). (r, out, g, set_scale 0 s))
                       (decode env B sm stops cb limit ti si (nat max_new) out g (set_scale 0 s)))))"

section \<open>What is generated\<close>

definition accepted :: "(int list \<Rightarrow> bool) option \<Rightarrow> int list \<Rightarrow> bool" where
  "accepted cb out \<longleftrightarrow> (case cb of None \<Rightarrow> True | Some f \<Rightarrow> f out)"

text \<open>The tokens after \<open>out\<close>: none but the last is a stop token or refused.\<close>

definition tokens_ok :: "int list \<Rightarrow> (int list \<Rightarrow> bool) option \<Rightarrow> int list \<Rightarrow> int list \<Rightarrow> bool" where
  "tokens_ok stops cb out new \<longleftrightarrow> (\<forall>k. Suc k < length new \<longrightarrow> new ! k \<notin> set stops \<and> accepted cb (out @ take (Suc k) new))"

definition ended :: "int list \<Rightarrow> (int list \<Rightarrow> bool) option \<Rightarrow> int list \<Rightarrow> int list \<Rightarrow> bool" where
  "ended stops cb out new \<longleftrightarrow> new \<noteq> [] \<and> (last new \<in> set stops \<or> \<not> accepted cb (out @ new))"

lemma tokens_ok_Nil [simp]: "tokens_ok stops cb out []" "tokens_ok stops cb out [tok]"
  by (simp_all add: tokens_ok_def)

lemma tokens_ok_Cons:
  assumes "tok \<notin> set stops" "accepted cb (out @ [tok])" "tokens_ok stops cb (out @ [tok]) new"
  shows "tokens_ok stops cb out (tok # new)"
  unfolding tokens_ok_def
proof (intro allI impI)
  fix k assume "Suc k < length (tok # new)"
  then show "(tok # new) ! k \<notin> set stops \<and> accepted cb (out @ take (Suc k) (tok # new))"
    using assms by (cases k) (auto simp: tokens_ok_def)
qed

lemma ended_Cons: "ended stops cb (out @ [tok]) new \<Longrightarrow> ended stops cb out (tok # new)"
  by (simp add: ended_def)

lemma decode_Suc_cases:
  assumes "decode env B sm stops cb ctx ti si (Suc n) out g s = Some (r, out', g', s')"
  shows "((\<exists>e. r = Inl e) \<and> out' = out) \<or>
    (\<exists>tok. out' = out @ [tok] \<and> (r = Inr () \<longrightarrow> n = 0 \<or> ended stops cb out [tok])) \<or>
    (\<exists>tok g1 s1. tok \<notin> set stops \<and> accepted cb (out @ [tok]) \<and>
       decode env B sm stops cb ctx ti si n (out @ [tok]) g1 s1 = Some (r, out', g', s'))"
proof (cases "reject_if_paused (tick env s)")
  case (Inl e)
  have "r = Inl e" "out' = out" using assms by (simp_all add: Inl Let_def)
  then show ?thesis by blast
next
  case (Inr u)
  then show ?thesis using assms
    by (auto simp: Let_def accepted_def ended_def split: sum.split_asm if_split_asm option.splits prod.split_asm)
qed

lemma decode_tokens:
  assumes "decode env B sm stops cb ctx ti si n out g s = Some (r, out', g', s')"
  shows "\<exists>new. out' = out @ new \<and> length new \<le> n \<and> tokens_ok stops cb out new \<and>
    (r = Inr () \<longrightarrow> length new = n \<or> ended stops cb out new)"
  using assms
proof (induction n arbitrary: out g s)
  case 0
  then show ?case by simp
next
  case (Suc n)
  consider (nothing) e where "r = Inl e" "out' = out"
    | (last_one) tok where "out' = out @ [tok]" "r = Inr () \<longrightarrow> n = 0 \<or> ended stops cb out [tok]"
    | (more) tok g1 s1 where "tok \<notin> set stops" "accepted cb (out @ [tok])"
        "decode env B sm stops cb ctx ti si n (out @ [tok]) g1 s1 = Some (r, out', g', s')"
    using decode_Suc_cases [OF Suc.prems] by blast
  then show ?case
  proof cases
    case nothing
    then show ?thesis by (intro exI [of _ "[]"]) simp
  next
    case (last_one tok)
    then show ?thesis by (intro exI [of _ "[tok]"]) auto
  next
    case (more tok g1 s1)
    from Suc.IH [OF more(3)] obtain new where new: "out' = (out @ [tok]) @ new" "length new \<le> n"
      "tokens_ok stops cb (out @ [tok]) new" "r = Inr () \<longrightarrow> length new = n \<or> ended stops cb (out @ [tok]) new" by blast
    then show ?thesis using tokens_ok_Cons [OF more(1,2)] ended_Cons by (intro exI [of _ "tok # new"]) auto
  qed
qed

lemma prefill_out:
  "prefill env B ctx i toks out s = Some (r, out', s') \<Longrightarrow> \<exists>k. out' = out @ take k toks \<and> (r = Inr () \<longrightarrow> out' = out @ toks)"
proof (induction toks arbitrary: out s)
  case (Cons tok toks)
  consider (stop) e where "r = Inl e" "out' = out"
    | (more) s1 where "prefill env B ctx i toks (out @ [tok]) s1 = Some (r, out', s')"
  proof (cases "reject_if_paused (tick env s)")
    case (Inl e)
    have "r = Inl e" "out' = out" using Cons.prems by (simp_all add: Inl Let_def)
    then show ?thesis by (rule that(1))
  next
    case (Inr u)
    then show ?thesis using Cons.prems that
      by (auto simp: Let_def split: sum.splits if_splits option.splits prod.splits)
  qed
  then show ?case
  proof cases
    case stop
    then show ?thesis by (intro exI [of _ 0]) simp
  next
    case more
    from Cons.IH [OF this] obtain k where "out' = (out @ [tok]) @ take k toks" "r = Inr () \<longrightarrow> out' = (out @ [tok]) @ toks" by blast
    then show ?thesis by (intro exI [of _ "Suc k"]) simp
  qed
qed (auto intro: exI [of _ 0])

lemma prefill_all: "prefill env B ctx i toks [] s = Some (Inr (), out', s') \<Longrightarrow> out' = toks"
  using prefill_out [of env B ctx i toks "[]" s "Inr ()" out' s'] by auto

lemma setup_state: "generate_setup env prompt m w s = Some (x, s') \<Longrightarrow> s' = s\<lparr>se_kv := se_kv s'\<rparr> \<and>
    (\<forall>l ti si. x = Inr (l, ti, si) \<longrightarrow> tokens_tensor s = Inr ti \<and> scores_tensor w s = Inr si)"
  by (auto simp: generate_setup_def Let_def split: if_splits sum.splits option.splits prod.splits)

lemma generate_cases:
  assumes "generate env B sm prompt max_new stops cb g out0 s = Some (r, out, g', s')"
  shows "((\<exists>e. r = Inl e) \<and> out = out0) \<or>
    (\<exists>e limit ti s1 s2. r = Inl e \<and> prefill env B limit ti prompt [] s1 = Some (Inl e, out, s2)) \<or>
    (0 \<le> max_new \<and> (\<exists>limit ti si s1 s2. decode env B sm stops cb limit ti si (nat max_new) prompt g s1 =
       Some (r, out, g', s2) \<and> s' = set_scale 0 s2))"
proof (cases "reject_if_paused (tick env (s\<lparr>se_cancel := False\<rparr>))")
  case (Inl e)
  have "\<exists>e. r = Inl e" "out = out0"
    using assms by (auto simp: Inl generate_def Let_def split: if_splits)
  then show ?thesis by blast
next
  case (Inr u)
  let ?s = "tick env (s\<lparr>se_cancel := False\<rparr>)"
  show ?thesis
  proof (cases "se_ready s \<and> prompt \<noteq> [] \<and> 0 \<le> max_new")
    case True
    then have eq: "Some (r, out, g', s') = (case generate_setup env prompt max_new (\<not> sm_greedy sm) ?s of
              None \<Rightarrow> None
            | Some (Inl e, s) \<Rightarrow> Some (Inl e, out0, g, s)
            | Some (Inr (limit, ti, si), s) \<Rightarrow>
                (case prefill env B limit ti prompt [] (set_scale (int (length prompt)) s) of
                   None \<Rightarrow> None
                 | Some (Inl e, out, s) \<Rightarrow> Some (Inl e, out, g, set_scale 0 s)
                 | Some (Inr _, out, s) \<Rightarrow>
                     map_option (\<lambda>(r, out, g, s). (r, out, g, set_scale 0 s))
                       (decode env B sm stops cb limit ti si (nat max_new) out g (set_scale 0 s))))"
      using assms Inr by (simp add: generate_def Let_def)
    then obtain q s1 where q: "generate_setup env prompt max_new (\<not> sm_greedy sm) ?s = Some (q, s1)"
      by (auto split: option.splits)
    show ?thesis
    proof (cases q)
      case (Inl e)
      then show ?thesis using eq q by simp
    next
      case (Inr x)
      obtain limit ti si where x: "x = (limit, ti, si)" by (cases x) auto
      with eq q Inr obtain q2 out2 s2
        where p: "prefill env B limit ti prompt [] (set_scale (int (length prompt)) s1) = Some (q2, out2, s2)"
        by (auto split: option.splits)
      show ?thesis
      proof (cases q2)
        case (Inl e)
        then show ?thesis using eq q Inr x p by auto
      next
        case (Inr v)
        then have "out2 = prompt" using p by (auto dest: prefill_all)
        then have "map_option (\<lambda>(r, out, g, s). (r, out, g, set_scale 0 s))
            (decode env B sm stops cb limit ti si (nat max_new) prompt g (set_scale 0 s2)) = Some (r, out, g', s')"
          using eq q \<open>q = Inr x\<close> x p Inr by simp
        then obtain s3 where "decode env B sm stops cb limit ti si (nat max_new) prompt g (set_scale 0 s2) =
            Some (r, out, g', s3)" "s' = set_scale 0 s3" by auto
        then show ?thesis using True by blast
      qed
    qed
  next
    case False
    then have "\<exists>e. r = Inl e" "out = out0" using assms by (auto simp: generate_def split: if_splits)
    then show ?thesis by blast
  qed
qed

text \<open>
  C0.generate_output: what a successful \<open>generate\<close> leaves in \<open>out_tokens\<close> is the prompt followed by at
  most \<open>max_new_tokens\<close> tokens; only the last of them can be a stop token or one the callback refused,
  and when there are fewer than asked for, it is such a token.
\<close>

theorem generate_output:
  assumes "generate env B sm prompt max_new stops cb g out0 s = Some (Inr (), out, g', s')"
  shows "\<exists>new. out = prompt @ new \<and> int (length new) \<le> max_new \<and>
    (\<forall>k. Suc k < length new \<longrightarrow> new ! k \<notin> set stops \<and> accepted cb (prompt @ take (Suc k) new)) \<and>
    (int (length new) = max_new \<or> new \<noteq> [] \<and> (last new \<in> set stops \<or> \<not> accepted cb (prompt @ new)))"
proof -
  obtain limit ti si s1 s2 where m: "0 \<le> max_new"
    and d: "decode env B sm stops cb limit ti si (nat max_new) prompt g s1 = Some (Inr (), out, g', s2)"
    using generate_cases [OF assms] by auto
  from decode_tokens [OF d] m show ?thesis by (auto simp: tokens_ok_def ended_def)
qed

lemma run_frame:
  assumes "run env B s = Some (r, s')" and "\<not> se_in_run s"
  shows "se_cancel s \<longrightarrow> se_cancel s'" "\<not> se_in_run s'" "se_options s' = se_options s" "se_graph s' = se_graph s"
proof -
  have t: "same_but_events s (tick env s)" by (rule tick_same)
  have "(se_cancel s \<longrightarrow> se_cancel s') \<and> \<not> se_in_run s' \<and> se_options s' = se_options s \<and> se_graph s' = se_graph s"
  proof (cases "se_ready s \<and> reject_if_paused (tick env s) = Inr ()")
    case True
    then obtain q u where q: "run_ops env B (device_schedule_plan (se_scheduler (tick env s)) (se_plan (tick env s)))
        (ep_ops (se_plan (tick env s))) (enter_run (re_zero env) (tick env s)) = Some (q, u)"
      and r: "(r, s') = (case q of Inl e \<Rightarrow> (Inl e, leave_run (re_zero env) u)
         | Inr _ \<Rightarrow> (fst (finish_run B u), leave_run (re_zero env) (snd (finish_run B u))))"
      using run_entered [OF assms(1)] by blast
    have e: "se_cancel (enter_run z x) = se_cancel x" "se_options (enter_run z x) = se_options x"
      "se_graph (enter_run z x) = se_graph x" for z and x :: "('a, 'b) session"
      by (simp_all add: enter_run_def apply_pending_kv_drop_def)
    have l: "se_cancel (leave_run z x) = se_cancel x" "se_options (leave_run z x) = se_options x"
      "se_graph (leave_run z x) = se_graph x" for z and x :: "('a, 'b) session"
      by (simp_all add: leave_run_def apply_pending_kv_drop_def)
    have f: "se_cancel (snd (finish_run B x)) = se_cancel x" "se_options (snd (finish_run B x)) = se_options x"
      "se_graph (snd (finish_run B x)) = se_graph x" for x
      by (simp_all add: finish_run_def commit_step_def split: prod.split sum.split)
    from r consider "s' = leave_run (re_zero env) u" | "s' = leave_run (re_zero env) (snd (finish_run B u))"
      by (cases q) auto
    then show ?thesis using run_ops_frame [OF q] t
      by cases (simp_all add: same_control_def same_but_events_def e l f leave_run_flags)
  next
    case False
    then have "s' = s \<or> s' = tick env s" using assms(1)
      by (cases "reject_if_paused (tick env s)") (auto simp: run_def Let_def split: if_split_asm)
    then show ?thesis using t assms(2) by (auto simp: same_but_events_def)
  qed
  then show "se_cancel s \<longrightarrow> se_cancel s'" "\<not> se_in_run s'" "se_options s' = se_options s" "se_graph s' = se_graph s" by auto
qed

lemma run_plan:
  assumes "run env B s = Some (r, s')"
  shows "se_plan s' = se_plan s \<and> se_graph s' = se_graph s \<and> se_names s' = se_names s"
proof -
  have t: "se_plan (tick env s) = se_plan s" "se_graph (tick env s) = se_graph s" "se_names (tick env s) = se_names s"
    using tick_same [of s env] by (simp_all add: same_but_events_def)
  have e: "se_plan (enter_run z x) = se_plan x" "se_graph (enter_run z x) = se_graph x"
    "se_plan (leave_run z x) = se_plan x" "se_graph (leave_run z x) = se_graph x"
    "se_plan (snd (finish_run B x)) = se_plan x" "se_graph (snd (finish_run B x)) = se_graph x"
    "se_names (enter_run z x) = se_names x" "se_names (leave_run z x) = se_names x" "se_names (snd (finish_run B x)) = se_names x"
    for z and x :: "('a, 'b) session"
    by (simp_all add: enter_run_def leave_run_def apply_pending_kv_drop_def finish_run_def commit_step_def
        split: prod.split sum.split)
  show ?thesis
  proof (cases "se_ready s \<and> reject_if_paused (tick env s) = Inr ()")
    case True
    then obtain q u where q: "run_ops env B (device_schedule_plan (se_scheduler (tick env s)) (se_plan (tick env s)))
        (ep_ops (se_plan (tick env s))) (enter_run (re_zero env) (tick env s)) = Some (q, u)"
      and r: "(r, s') = (case q of Inl e \<Rightarrow> (Inl e, leave_run (re_zero env) u)
         | Inr _ \<Rightarrow> (fst (finish_run B u), leave_run (re_zero env) (snd (finish_run B u))))"
      using run_entered [OF assms] by blast
    from r consider "s' = leave_run (re_zero env) u" | "s' = leave_run (re_zero env) (snd (finish_run B u))"
      by (cases q) auto
    then show ?thesis using run_ops_frame [OF q] t by cases (simp_all add: same_control_def e)
  next
    case False
    then have "s' = s \<or> s' = tick env s" using assms
      by (cases "reject_if_paused (tick env s)") (auto simp: run_def Let_def split: if_split_asm)
    then show ?thesis using t by auto
  qed
qed

end
