(* ===== verification/Session_Reuse.thy ===== *)
theory Session_Reuse
  imports Session_Generate
begin

text \<open>
  Sharing buffers changes nothing.  A session whose tensors live in the slots of the memory plan and one with a
  buffer for each tensor are run side by side: as long as kernels write all of their
  outputs, both give the same results and the same contents of inputs, outputs and weights, run after run.
  This is where the lifetimes of \<open>Memory_Plan\<close>, the order of \<open>Exec_Plan\<close> and the allocation of \<open>Session_State\<close> meet.
\<close>

section \<open>Lifetimes cover the uses\<close>

definition covers :: "nat \<Rightarrow> lifetime \<Rightarrow> bool" where
  "covers k l \<longleftrightarrow> 0 \<le> lt_first_use l \<and> lt_first_use l \<le> int k \<and> int k \<le> lt_last_use l"

lemma use_covers:
  assumes "lt_first_use l \<le> int oi"
  shows "covers oi (use_input (int oi) l)" "covers oi (use_output (int oi) l)"
    "lt_first_use (use_input (int oi) l) \<le> int oi" "lt_first_use (use_output (int oi) l) \<le> int oi"
  using assms by (auto simp: covers_def use_input_def use_output_def)

lemma covers_use:
  assumes "covers k l" "k \<le> oi"
  shows "covers k (use_input (int oi) l)" "covers k (use_output (int oi) l)"
  using assms by (auto simp: covers_def use_input_def use_output_def)

lemma fold_update_life:
  assumes "\<And>l. P l \<Longrightarrow> P (f l)" and "\<And>l. m i = Some l \<Longrightarrow> P l"
  shows "fold (update_life f) is m i = Some l \<Longrightarrow> P l"
  using assms(2)
proof (induction "is" arbitrary: m)
  case (Cons j "is")
  have "\<And>l. update_life f j m i = Some l \<Longrightarrow> P l"
    using Cons.prems(2) assms(1) by (auto simp: update_life_def split: option.splits if_splits)
  then show ?case using Cons by simp
qed simp

lemma fold_update_used:
  assumes "i \<in> set is" and "\<And>l. P l \<Longrightarrow> P (f l)" "\<And>l. P l \<Longrightarrow> Q (f l)" "\<And>l. Q l \<Longrightarrow> Q (f l)"
    and "\<And>l. m i = Some l \<Longrightarrow> P l"
  shows "fold (update_life f) is m i = Some l \<Longrightarrow> Q l"
  using assms(1,5)
proof (induction "is" arbitrary: m)
  case (Cons j "is")
  have P: "\<And>l. update_life f j m i = Some l \<Longrightarrow> P l"
    using Cons.prems(3) assms(2) by (auto simp: update_life_def split: option.splits if_splits)
  show ?case
  proof (cases "j = i")
    case True
    have "\<And>l. update_life f j m i = Some l \<Longrightarrow> Q l"
      using Cons.prems(3) assms(3) True by (auto simp: update_life_def split: option.splits if_splits)
    then show ?thesis using fold_update_life [of Q f "update_life f j m" i "is" l] assms(4) Cons.prems(1) by simp
  next
    case False
    then show ?thesis using Cons.IH [of "update_life f j m"] Cons.prems P by simp
  qed
qed simp

lemma scan_op_keeps:
  assumes "\<And>l. P l \<Longrightarrow> P (use_input (int oi) l)" "\<And>l. P l \<Longrightarrow> P (use_output (int oi) l)"
    and "\<And>l. m i = Some l \<Longrightarrow> P l" and "scan_op (oi, op) m i = Some l"
  shows "P l"
proof -
  have ins: "\<And>l. fold (update_life (use_input (int oi))) (po_inputs op) m i = Some l \<Longrightarrow> P l"
    by (rule fold_update_life [where P = P, OF assms(1,3)])
  show ?thesis
    by (rule fold_update_life [where P = P, OF assms(2) ins]) (use assms(4) in \<open>simp_all add: scan_op_def\<close>)
qed

lemma scan_op_covers:
  assumes "i \<in> set (po_inputs op) \<union> set (po_outputs op)" and m: "\<And>l. m i = Some l \<Longrightarrow> lt_first_use l \<le> int oi"
    and "scan_op (oi, op) m i = Some l"
  shows "covers oi l"
proof -
  let ?m = "fold (update_life (use_input (int oi))) (po_inputs op) m"
  have first: "\<And>l. ?m i = Some l \<Longrightarrow> lt_first_use l \<le> int oi"
    by (rule fold_update_life [where P = "\<lambda>l. lt_first_use l \<le> int oi" and f = "use_input (int oi)", OF use_covers(3) m])
  have res: "fold (update_life (use_output (int oi))) (po_outputs op) ?m i = Some l"
    using assms(3) by (simp add: scan_op_def)
  show ?thesis
  proof (cases "i \<in> set (po_outputs op)")
    case True
    show ?thesis
      by (rule fold_update_used [where P = "\<lambda>l. lt_first_use l \<le> int oi" and Q = "covers oi" and f = "use_output (int oi)" and m = ?m,
            OF True use_covers(4,2) covers_use(2) first res]) simp_all
  next
    case False
    then have i: "i \<in> set (po_inputs op)" using assms(1) by blast
    have "\<And>l. ?m i = Some l \<Longrightarrow> covers oi l"
      by (rule fold_update_used [where P = "\<lambda>l. lt_first_use l \<le> int oi" and Q = "covers oi" and f = "use_input (int oi)" and m = m,
            OF i use_covers(3,1) covers_use(1) m]) simp_all
    from fold_update_life [where P = "covers oi" and f = "use_output (int oi)", OF covers_use(2) this res]
    show ?thesis by simp
  qed
qed

lemma scan_covers:
  assumes init: "\<And>i l. m i = Some l \<Longrightarrow> lt_first_use l \<le> 0"
  shows "(fold scan_op (enumerate 0 ops) m i = Some l \<longrightarrow> lt_first_use l \<le> int (length ops)) \<and>
    (\<forall>k < length ops. i \<in> set (po_inputs (ops ! k)) \<union> set (po_outputs (ops ! k)) \<longrightarrow>
       fold scan_op (enumerate 0 ops) m i = Some l \<longrightarrow> covers k l)"
proof (induction ops arbitrary: l rule: rev_induct)
  case Nil
  then show ?case using init by simp
next
  case (snoc op ops)
  let ?n = "length ops" let ?m = "fold scan_op (enumerate 0 ops) m"
  have step: "fold scan_op (enumerate 0 (ops @ [op])) m = scan_op (?n, op) ?m"
    by (simp add: enumerate_append_eq)
  have first: "\<And>l. ?m i = Some l \<Longrightarrow> lt_first_use l \<le> int ?n" using snoc by blast
  have "lt_first_use l \<le> int ?n" if "scan_op (?n, op) ?m i = Some l"
    by (rule scan_op_keeps [where P = "\<lambda>l. lt_first_use l \<le> int ?n", OF use_covers(3,4) first that])
  moreover have "covers k l" if k: "k < Suc ?n" "scan_op (?n, op) ?m i = Some l"
    "i \<in> set (po_inputs ((ops @ [op]) ! k)) \<union> set (po_outputs ((ops @ [op]) ! k))" for k
  proof (cases "k = ?n")
    case True
    then show ?thesis using scan_op_covers [OF _ first k(2)] k(3) by (simp add: nth_append)
  next
    case False
    then have lt: "k < ?n" using k(1) by simp
    then have "i \<in> set (po_inputs (ops ! k)) \<union> set (po_outputs (ops ! k))" using k(3) by (simp add: nth_append)
    then have "\<And>l. ?m i = Some l \<Longrightarrow> covers k l" using snoc lt by blast
    then show ?thesis
      using scan_op_keeps [where P = "covers k" and oi = ?n and op = op, OF covers_use(1,2) _ k(2)] lt by simp
  qed
  ultimately show ?case unfolding step by auto
qed

lemma init_lives_first: "init_lives g p i = Some l \<Longrightarrow> lt_first_use l \<le> 0"
proof -
  have "fold (\<lambda>t m. m(t_id t \<mapsto> init_lifetime g p t)) ts m i = Some l \<Longrightarrow> (\<And>l. m i = Some l \<Longrightarrow> lt_first_use l \<le> 0) \<Longrightarrow>
      lt_first_use l \<le> 0" for ts m
  proof (induction ts arbitrary: m)
    case (Cons t ts)
    have "\<And>l. (m(t_id t \<mapsto> init_lifetime g p t)) i = Some l \<Longrightarrow> lt_first_use l \<le> 0"
      using Cons.prems(2) by (auto simp: init_lifetime_def Let_def split: if_splits)
    then show ?case using Cons.IH [of "m(t_id t \<mapsto> init_lifetime g p t)"] Cons.prems(1) by simp
  qed simp
  from this [of "g_tensors g" Map.empty] show "init_lives g p i = Some l \<Longrightarrow> lt_first_use l \<le> 0" by (simp add: init_lives_def)
qed

lemma use_covered:
  assumes "lives_of g p i = Some l" "k < length (ep_ops p)"
    "i \<in> set (po_inputs (ep_ops p ! k)) \<union> set (po_outputs (ep_ops p ! k))"
  shows "covers k l"
  using scan_covers [of "init_lives g p" "ep_ops p" i l] init_lives_first assms by (auto simp: lives_of_def)

text \<open>Weights and graph inputs and outputs live throughout.\<close>

definition lives_long :: "nat \<Rightarrow> lifetime \<Rightarrow> bool" where
  "lives_long n l \<longleftrightarrow> lt_first_use l = 0 \<and> int n \<le> lt_last_use l"

lemma lives_long_use: "lives_long n l \<Longrightarrow> lives_long n (use_input (int oi) l)" "lives_long n l \<Longrightarrow> lives_long n (use_output (int oi) l)"
  by (auto simp: lives_long_def use_input_def use_output_def)

lemma use_flags [simp]:
  "lt_is_weight (use_input oi l) = lt_is_weight l" "lt_is_graph_io (use_input oi l) = lt_is_graph_io l"
  "lt_is_weight (use_output oi l) = lt_is_weight l" "lt_is_graph_io (use_output oi l) = lt_is_graph_io l"
  by (simp_all add: use_input_def use_output_def)

lemma dedicated_lives_long:
  assumes "lives_of g p i = Some l" "dedicated l"
  shows "lives_long (length (ep_ops p)) l"
proof -
  let ?P = "\<lambda>l. dedicated l \<longrightarrow> lives_long (length (ep_ops p)) l"
  have init: "init_lives g p i = Some l \<Longrightarrow> ?P l" for l
  proof -
    have "fold (\<lambda>t m. m(t_id t \<mapsto> init_lifetime g p t)) ts m i = Some l \<Longrightarrow> (\<And>l. m i = Some l \<Longrightarrow> ?P l) \<Longrightarrow> ?P l" for ts m
    proof (induction ts arbitrary: m)
      case (Cons t ts)
      have "\<And>l. (m(t_id t \<mapsto> init_lifetime g p t)) i = Some l \<Longrightarrow> ?P l"
        using Cons.prems(2) by (auto simp: init_lifetime_def Let_def dedicated_def lives_long_def split: if_splits)
      then show ?case using Cons.IH [of "m(t_id t \<mapsto> init_lifetime g p t)"] Cons.prems(1) by simp
    qed simp
    from this [of "g_tensors g" Map.empty] show "init_lives g p i = Some l \<Longrightarrow> ?P l" by (simp add: init_lives_def)
  qed
  have "fold scan_op (enumerate k ops) m i = Some l \<Longrightarrow> (\<And>l. m i = Some l \<Longrightarrow> ?P l) \<Longrightarrow> ?P l" for k ops m l
  proof (induction ops arbitrary: k m)
    case (Cons op ops)
    have "\<And>l. scan_op (k, op) m i = Some l \<Longrightarrow> ?P l"
      by (rule scan_op_keeps [where P = ?P and oi = k and op = op and m = m])
        (use Cons.prems(2) lives_long_use in \<open>simp_all add: dedicated_def\<close>)
    then show ?case using Cons.IH [of "Suc k" "scan_op (k, op) m"] Cons.prems(1) by simp
  qed simp
  from this [of 0 "ep_ops p" "init_lives g p" l] init assms show ?thesis by (simp add: lives_of_def)
qed

text \<open>The tensors whose bytes must agree before operation \<open>k\<close>, and those that need a place during it.\<close>

definition agreed :: "graph \<Rightarrow> execution_plan \<Rightarrow> nat \<Rightarrow> u64 set" where
  "agreed g p k = {i. \<exists>l. lives_of g p i = Some l \<and> int k \<le> lt_last_use l \<and>
     (dedicated l \<or> (\<exists>j < k. j < length (ep_ops p) \<and> i \<in> set (po_outputs (ep_ops p ! j))))}"

definition placed :: "graph \<Rightarrow> execution_plan \<Rightarrow> nat \<Rightarrow> u64 set" where
  "placed g p k = {i. \<exists>l. lives_of g p i = Some l \<and> lt_first_use l \<le> int k \<and> int k \<le> lt_last_use l}"

definition lasting :: "graph \<Rightarrow> execution_plan \<Rightarrow> u64 set" where
  "lasting g p = {i. \<exists>l. lives_of g p i = Some l \<and> dedicated l}"

lemma agreed_placed: "agreed g p k \<subseteq> placed g p k"
proof
  fix i assume "i \<in> agreed g p k"
  then obtain l where l: "lives_of g p i = Some l" "int k \<le> lt_last_use l"
    and d: "dedicated l \<or> (\<exists>j < k. j < length (ep_ops p) \<and> i \<in> set (po_outputs (ep_ops p ! j)))"
    by (auto simp: agreed_def)
  have "lt_first_use l \<le> int k"
  proof (cases "dedicated l")
    case True
    then show ?thesis using dedicated_lives_long [OF l(1)] by (simp add: lives_long_def)
  next
    case False
    then obtain j where "j < k" "j < length (ep_ops p)" "i \<in> set (po_outputs (ep_ops p ! j))" using d by auto
    then show ?thesis using use_covered [OF l(1), of j] by (auto simp: covers_def)
  qed
  then show "i \<in> placed g p k" using l by (auto simp: placed_def)
qed

lemma outputs_placed:
  "k < length (ep_ops p) \<Longrightarrow> i \<in> set (po_outputs (ep_ops p ! k)) \<Longrightarrow> lives_of g p i \<noteq> None \<Longrightarrow> i \<in> placed g p k"
  using use_covered [of g p i _ k] by (fastforce simp: placed_def covers_def)

lemma agreed_step:
  "k < length (ep_ops p) \<Longrightarrow> agreed g p (Suc k) \<subseteq> agreed g p k \<union> set (po_outputs (ep_ops p ! k))"
  by (auto simp: agreed_def less_Suc_eq)

lemma lasting_agreed: "k \<le> length (ep_ops p) \<Longrightarrow> lasting g p \<subseteq> agreed g p k"
  using dedicated_lives_long by (fastforce simp: lasting_def agreed_def lives_long_def)

lemma agreed_0: "agreed g p 0 \<subseteq> lasting g p"
  by (auto simp: agreed_def lasting_def)

text \<open>Every input of an operation is kept or was produced before it.\<close>

definition fed :: "graph \<Rightarrow> execution_plan \<Rightarrow> bool" where
  "fed g p \<longleftrightarrow> (\<forall>k < length (ep_ops p). \<forall>i \<in> set (po_inputs (ep_ops p ! k)). lives_of g p i \<noteq> None \<longrightarrow>
     i \<in> lasting g p \<or> (\<exists>j < k. i \<in> set (po_outputs (ep_ops p ! j))))"

lemma inputs_agreed:
  assumes "fed g p" "k < length (ep_ops p)" "i \<in> set (po_inputs (ep_ops p ! k))" "lives_of g p i \<noteq> None"
  shows "i \<in> agreed g p k"
proof -
  obtain l where l: "lives_of g p i = Some l" using assms(4) by auto
  have "covers k l" using use_covered [OF l assms(2)] assms(3) by blast
  moreover have "dedicated l \<or> (\<exists>j < k. i \<in> set (po_outputs (ep_ops p ! j)))"
    using assms(1) [unfolded fed_def lasting_def, rule_format, OF assms(2-4)] l by auto
  ultimately show ?thesis using l assms(2) by (fastforce simp: agreed_def covers_def)
qed

text \<open>Tensors that need a place at the same time have different slots.\<close>

lemma placed_apart:
  assumes m: "m = build_memory_reuse_plan h g p" and i: "i \<in> placed g p k" "i \<in> t_id ` set (g_tensors g)"
    and j: "j \<in> placed g p k" "j \<in> t_id ` set (g_tensors g)" and "i \<noteq> j"
  shows "mr_tensor_to_slot m i \<noteq> mr_tensor_to_slot m j"
proof
  assume eq: "mr_tensor_to_slot m i = mr_tensor_to_slot m j"
  note safe = reuse_plan_safe [OF m]
  obtain q where q: "q < length (mr_slots m)" "mr_tensor_to_slot m i = Some q" "i \<in> set (bs_tenants (mr_slots m ! q))"
    using safe i(2) by (metis imageE)
  obtain q' where q': "q' < length (mr_slots m)" "mr_tensor_to_slot m j = Some q'" "j \<in> set (bs_tenants (mr_slots m ! q'))"
    using safe j(2) by (metis imageE)
  let ?sl = "mr_slots m ! q"
  have jt: "j \<in> set (bs_tenants ?sl)" using q q' eq by simp
  obtain a b where ab: "a < length (bs_tenants ?sl)" "bs_tenants ?sl ! a = i" "b < length (bs_tenants ?sl)"
    "bs_tenants ?sl ! b = j" using q(3) jt by (metis in_set_conv_nth)
  have "a \<noteq> b" using ab assms(6) by auto
  moreover have "?sl \<in> set (mr_slots m)" using q(1) by simp
  ultimately have "lt_last_use (the (lives_of g p i)) < lt_first_use (the (lives_of g p j)) \<or>
      lt_last_use (the (lives_of g p j)) < lt_first_use (the (lives_of g p i))"
    using safe ab by (metis linorder_neqE_nat)
  then show False using i(1) j(1) by (auto simp: placed_def)
qed

section \<open>Two sessions side by side\<close>

definition same_rest :: "('b, 'f) session \<Rightarrow> ('b, 'f) session \<Rightarrow> bool" where
  "same_rest s t \<longleftrightarrow> se_ready t = se_ready s \<and>
     se_options t = (se_options s)\<lparr>sx_enable_memory_reuse := sx_enable_memory_reuse (se_options t)\<rparr> \<and> se_graph t = se_graph s \<and> se_plan t = se_plan s \<and>
     se_backend t = se_backend s \<and> se_scheduler t = se_scheduler s \<and> se_streaming s = None \<and> se_streaming t = None \<and>
     se_kv t = se_kv s \<and> se_names t = se_names s \<and> se_cancel t = se_cancel s \<and> se_background t = se_background s \<and>
     se_in_run t = se_in_run s \<and> se_drop_kv t = se_drop_kv s \<and> se_events t = se_events s"

definition twin :: "session_buffer \<Rightarrow> session_buffer \<Rightarrow> bool" where
  "twin b b' \<longleftrightarrow> view_of b = view_of b' \<and> sb_staged b = None \<and> sb_staged b' = None \<and> tb_data b \<noteq> 0 \<and> tb_data b' \<noteq> 0"

definition backed :: "('b, 'f) session \<Rightarrow> bool" where
  "backed s \<longleftrightarrow> (\<forall>i b. se_buffers s i = Some b \<longrightarrow> sb_staged b = None \<and> tb_data b \<noteq> 0 \<and>
     (\<exists>bs. se_heap s (tb_data b) = Some bs \<and> unat (tb_nbytes b) \<le> length bs))"

definition content :: "('b, 'f) session \<Rightarrow> u64 \<Rightarrow> u8 list option" where
  "content s i = (case se_buffers s i of None \<Rightarrow> None | Some b \<Rightarrow> read_bytes s b (tb_nbytes b))"

definition sim :: "u64 set \<Rightarrow> ('b, 'f) session \<Rightarrow> ('b, 'f) session \<Rightarrow> bool" where
  "sim A s t \<longleftrightarrow> same_rest s t \<and> rel_fun (=) (rel_option twin) (se_buffers s) (se_buffers t) \<and> backed s \<and> backed t \<and>
     (\<forall>i \<in> A. content s i = content t i)"

definition apart :: "u64 set \<Rightarrow> (u64 \<rightharpoonup> session_buffer) \<Rightarrow> bool" where
  "apart A m \<longleftrightarrow> (\<forall>i \<in> A. \<forall>j \<in> A. i \<noteq> j \<longrightarrow> (\<forall>b b'. m i = Some b \<longrightarrow> m j = Some b' \<longrightarrow> tb_data b \<noteq> tb_data b'))"

lemma sim_mono: "sim A s t \<Longrightarrow> B \<subseteq> A \<Longrightarrow> sim B s t"
  by (auto simp: sim_def)

lemma apart_mono: "apart A m \<Longrightarrow> B \<subseteq> A \<Longrightarrow> apart B m"
  by (auto simp: apart_def)

lemma sim_twin:
  assumes "sim A s t" "se_buffers s i = Some b"
  obtains b' where "se_buffers t i = Some b'" "twin b b'"
  using assms by (auto simp: sim_def rel_fun_def option_rel_Some1 dest!: spec [of _ i])

lemma sim_none: "sim A s t \<Longrightarrow> se_buffers t i = None \<longleftrightarrow> se_buffers s i = None"
  by (auto simp: sim_def rel_fun_def dest!: spec [of _ i] elim: option.rel_cases)

lemma twin_fields: "twin b b' \<Longrightarrow> tb_nbytes b' = tb_nbytes b \<and> tb_shape b' = tb_shape b \<and> has_data b \<and> has_data b'"
  by (simp add: twin_def view_of_def has_data_def)

lemma backed_block:
  assumes "backed s" "se_buffers s i = Some b"
  obtains bs where "se_heap s (tb_data b) = Some bs" "block_at s b = Some bs" "unat (tb_nbytes b) \<le> length bs"
    "sb_staged b = None" "tb_data b \<noteq> 0" "content s i = Some (take (unat (tb_nbytes b)) bs)"
  using assms by (fastforce simp: backed_def block_at_def content_def read_bytes_def)

lemma take_overwrite: "length bs \<le> n \<Longrightarrow> n \<le> length old \<Longrightarrow> take n (overwrite old bs) = overwrite (take n old) bs"
  by (simp add: overwrite_def drop_take)

lemma write_backed:
  assumes b: "backed s" "se_buffers s i = Some b" and n: "length bs \<le> unat (tb_nbytes b)"
  obtains s' where "write_bytes b bs s = Some s'" "backed s'" "s' = s\<lparr>se_heap := se_heap s'\<rparr>"
    "content s' i = map_option (\<lambda>old. overwrite old bs) (content s i)"
    "\<And>j b'. se_buffers s j = Some b' \<Longrightarrow> tb_data b' \<noteq> tb_data b \<Longrightarrow> content s' j = content s j"
proof -
  from b obtain old where old: "se_heap s (tb_data b) = Some old" "block_at s b = Some old"
      "unat (tb_nbytes b) \<le> length old" "sb_staged b = None" "tb_data b \<noteq> 0"
      "content s i = Some (take (unat (tb_nbytes b)) old)" by (rule backed_block)
  let ?s = "s\<lparr>se_heap := (se_heap s)(tb_data b \<mapsto> overwrite old bs)\<rparr>"
  have w: "write_bytes b bs s = Some ?s" using old n by (simp add: write_bytes_def)
  have len: "length (overwrite old bs) = length old" using old(3) n by (simp add: overwrite_length)
  have "backed ?s" using b(1) len old(1) by (fastforce simp: backed_def)
  moreover have "content ?s i = map_option (\<lambda>old. overwrite old bs) (content s i)"
    using b(2) old n len by (simp add: content_def read_bytes_def block_at_def take_overwrite)
  moreover have "content ?s j = content s j" if "se_buffers s j = Some b'" "tb_data b' \<noteq> tb_data b" for j b'
  proof -
    have "sb_staged b' = None" using b(1) that(1) by (simp add: backed_def)
    then show ?thesis using that by (simp add: content_def read_bytes_def block_at_def)
  qed
  ultimately show thesis using w by (intro that [of ?s]) simp_all
qed

lemma write_sim:
  assumes sim: "sim A s t" and b: "se_buffers s i = Some b" "se_buffers t i = Some b'"
    and ap: "apart (insert i A) (se_buffers s)" "apart (insert i A) (se_buffers t)"
    and bs: "length bs \<le> unat (tb_nbytes b)" "i \<in> A \<or> length bs = unat (tb_nbytes b)"
  obtains s' t' where "write_bytes b bs s = Some s'" "write_bytes b' bs t = Some t'" "sim (insert i A) s' t'"
    "se_buffers s' = se_buffers s" "se_buffers t' = se_buffers t"
proof -
  have bk: "backed s" "backed t" using sim by (simp_all add: sim_def)
  have tw: "twin b b'" using sim_twin [OF sim b(1)] b(2) by auto
  note nb = twin_fields [OF tw]
  obtain s' where s: "write_bytes b bs s = Some s'" "backed s'" "s' = s\<lparr>se_heap := se_heap s'\<rparr>"
    "content s' i = map_option (\<lambda>old. overwrite old bs) (content s i)"
    "\<And>j c. se_buffers s j = Some c \<Longrightarrow> tb_data c \<noteq> tb_data b \<Longrightarrow> content s' j = content s j"
    using write_backed [OF bk(1) b(1) bs(1)] by metis
  obtain t' where t: "write_bytes b' bs t = Some t'" "backed t'" "t' = t\<lparr>se_heap := se_heap t'\<rparr>"
    "content t' i = map_option (\<lambda>old. overwrite old bs) (content t i)"
    "\<And>j c. se_buffers t j = Some c \<Longrightarrow> tb_data c \<noteq> tb_data b' \<Longrightarrow> content t' j = content t j"
    using write_backed [OF bk(2) b(2)] bs(1) nb by metis
  have bufs: "se_buffers s' = se_buffers s" "se_buffers t' = se_buffers t"
    by (subst s(3), simp) (subst t(3), simp)
  obtain x where x: "content s i = Some x" "length x = unat (tb_nbytes b)"
    using backed_block [OF bk(1) b(1)] by (metis length_take min.absorb2)
  obtain y where y: "content t i = Some y" "length y = unat (tb_nbytes b)"
    using backed_block [OF bk(2) b(2)] nb by (metis length_take min.absorb2)
  have here: "content s' i = content t' i"
  proof (cases "i \<in> A")
    case True
    then show ?thesis using s(4) t(4) sim by (simp add: sim_def)
  next
    case False
    then have "length bs = unat (tb_nbytes b)" using bs(2) by simp
    then show ?thesis using s(4) t(4) x y by (simp add: overwrite_def)
  qed
  have there: "content s' j = content t' j" if j: "j \<in> A" "j \<noteq> i" for j
  proof (cases "se_buffers s j")
    case None
    then show ?thesis using sim_none [OF sim, of j] bufs by (simp add: content_def)
  next
    case (Some c)
    then obtain c' where c': "se_buffers t j = Some c'" using sim_twin [OF sim] by metis
    have "tb_data c \<noteq> tb_data b" "tb_data c' \<noteq> tb_data b'"
      using ap j Some c' b by (auto simp: apart_def)
    then show ?thesis using s(5) [OF Some] t(5) [OF c'] sim j by (simp add: sim_def)
  qed
  have rest: "same_rest s' t'"
    by (subst s(3), subst t(3)) (use sim in \<open>simp add: sim_def same_rest_def\<close>)
  have "sim (insert i A) s' t'"
    using sim rest bufs s(2) t(2) here there by (auto simp: sim_def)
  then show thesis by (rule that [OF s(1) t(1) _ bufs])
qed

text \<open>A kernel writes all of its outputs, and what it writes does not depend on what was there.\<close>

definition overwrites :: "('b, 'f) dispatch \<Rightarrow> bool" where
  "overwrites disp \<longleftrightarrow> (\<forall>op v ins outs outs' as kv b r bss kv2 b2. map fst outs = map fst outs' \<longrightarrow>
     disp op v ins outs as kv b = (r, bss, kv2, b2) \<longrightarrow>
       (\<exists>bss'. disp op v ins outs' as kv b = (r, bss', kv2, b2) \<and> length bss = length outs \<and> length bss' = length outs \<and>
         (r = Inr () \<longrightarrow> bss' = bss \<and> list_all2 (\<lambda>o_view bs. length bs = unat (ov_nbytes (fst o_view))) outs bss)))"

lemma write_outputs_sim:
  assumes "sim A s t" "apart (A \<union> set is) (se_buffers s)" "apart (A \<union> set is) (se_buffers t)"
    and "map (se_buffers s) is = map Some bs" "map (se_buffers t) is = map Some bs'"
    and "list_all2 (\<lambda>b x. length x = unat (tb_nbytes b)) bs xss"
  shows "\<exists>s' t'. write_outputs (zip bs xss) s = Some s' \<and> write_outputs (zip bs' xss) t = Some t' \<and>
    sim (A \<union> set is) s' t' \<and> se_buffers s' = se_buffers s \<and> se_buffers t' = se_buffers t"
  using assms
proof (induction "is" arbitrary: A s t bs bs' xss)
  case (Cons i "is")
  obtain b cs b' cs' where bs: "bs = b # cs" "bs' = b' # cs'" "se_buffers s i = Some b" "se_buffers t i = Some b'"
    "map (se_buffers s) is = map Some cs" "map (se_buffers t) is = map Some cs'"
    using Cons.prems(4,5) by (auto simp: Cons_eq_map_conv map_eq_Cons_conv)
  obtain x ys where x: "xss = x # ys" "length x = unat (tb_nbytes b)"
    "list_all2 (\<lambda>b x. length x = unat (tb_nbytes b)) cs ys"
    using Cons.prems(6) bs(1) by (auto simp: list_all2_Cons1)
  have tw: "tb_nbytes b' = tb_nbytes b"
    using sim_twin [OF Cons.prems(1) bs(3)] bs(4) twin_fields by (metis option.inject)
  have ap: "apart (insert i A) (se_buffers s)" "apart (insert i A) (se_buffers t)"
    using Cons.prems(2,3) by (auto intro: apart_mono)
  obtain s1 t1 where w: "write_bytes b x s = Some s1" "write_bytes b' x t = Some t1" "sim (insert i A) s1 t1"
    "se_buffers s1 = se_buffers s" "se_buffers t1 = se_buffers t"
    using write_sim [OF Cons.prems(1) bs(3,4) ap, of x] x(2) by auto
  have "\<exists>s' t'. write_outputs (zip cs ys) s1 = Some s' \<and> write_outputs (zip cs' ys) t1 = Some t' \<and>
      sim (insert i A \<union> set is) s' t' \<and> se_buffers s' = se_buffers s1 \<and> se_buffers t' = se_buffers t1"
    using Cons.prems(2,3) bs(5,6) w x(3) by (intro Cons.IH) simp_all
  then show ?case using bs(1,2) x(1,2) w tw by simp
qed simp

lemma input_buffers_sim:
  assumes "sim A s t"
  shows "(\<exists>e. input_buffers n s is = Inl e \<and> input_buffers n t is = Inl e) \<or>
    (\<exists>bs bs'. input_buffers n s is = Inr bs \<and> input_buffers n t is = Inr bs' \<and>
       map (se_buffers s) is = map Some bs \<and> map (se_buffers t) is = map Some bs' \<and> list_all2 twin bs bs')"
proof (induction "is")
  case (Cons i "is")
  show ?case
  proof (cases "se_buffers s i")
    case None
    then show ?thesis using sim_none [OF assms, of i] by simp
  next
    case (Some b)
    then obtain b' where b': "se_buffers t i = Some b'" "twin b b'" by (rule sim_twin [OF assms])
    then show ?thesis using Some twin_fields [OF b'(2)] Cons.IH by auto
  qed
qed simp

lemma output_buffers_sim:
  assumes "sim A s t"
  shows "(\<exists>e. output_buffers s is = Inl e \<and> output_buffers t is = Inl e) \<or>
    (\<exists>bs bs'. output_buffers s is = Inr bs \<and> output_buffers t is = Inr bs' \<and>
       map (se_buffers s) is = map Some bs \<and> map (se_buffers t) is = map Some bs' \<and> list_all2 twin bs bs')"
proof (induction "is")
  case (Cons i "is")
  show ?case
  proof (cases "se_buffers s i")
    case None
    then show ?thesis using sim_none [OF assms, of i] by simp
  next
    case (Some b)
    then obtain b' where b': "se_buffers t i = Some b'" "twin b b'" by (rule sim_twin [OF assms])
    then show ?thesis using Some twin_fields [OF b'(2)] Cons.IH by auto
  qed
qed simp

text \<open>What the kernel sees.\<close>

lemma contents_backed:
  assumes "backed s" "map (se_buffers s) is = map Some bs"
  shows "all_some (map (input_content s) bs) = Some (zip (map view_of bs) (map (content s) is))"
    and "\<exists>cs. all_some (map (output_content s) bs) = Some (zip (map view_of bs) cs) \<and> length cs = length bs"
proof -
  have "all_some (map (input_content s) bs) = Some (zip (map view_of bs) (map (content s) is)) \<and>
      (\<exists>cs. all_some (map (output_content s) bs) = Some (zip (map view_of bs) cs) \<and> length cs = length bs)"
    using assms(2)
  proof (induction "is" arbitrary: bs)
    case (Cons i "is")
    obtain b cs where bs: "bs = b # cs" "se_buffers s i = Some b" "map (se_buffers s) is = map Some cs"
      using Cons.prems by (auto simp: Cons_eq_map_conv map_eq_Cons_conv)
    obtain x where x: "block_at s b = Some x" "unat (tb_nbytes b) \<le> length x" "tb_data b \<noteq> 0"
      "content s i = Some (take (unat (tb_nbytes b)) x)" using backed_block [OF assms(1) bs(2)] by metis
    from Cons.IH [OF bs(3)] obtain ys where ys: "all_some (map (input_content s) cs) = Some (zip (map view_of cs) (map (content s) is))"
      "all_some (map (output_content s) cs) = Some (zip (map view_of cs) ys)" "length ys = length cs" by blast
    have "input_content s b = Some (view_of b, content s i)" "output_content s b = Some (view_of b, take (unat (tb_nbytes b)) x)"
      using x by (simp_all add: input_content_def output_content_def has_data_def read_bytes_def)
    then show ?case using ys bs(1)
      by (auto simp: all_some_def split: if_splits intro: exI [of _ "take (unat (tb_nbytes b)) x # ys"])
  qed (simp add: all_some_def)
  then show "all_some (map (input_content s) bs) = Some (zip (map view_of bs) (map (content s) is))"
    and "\<exists>cs. all_some (map (output_content s) bs) = Some (zip (map view_of bs) cs) \<and> length cs = length bs" by blast+
qed

lemma write_outputs_total:
  assumes "backed s" "map (se_buffers s) is = map Some bs"
  shows "\<exists>s'. write_outputs (zip bs xss) s = Some s'"
  using assms
proof (induction bs arbitrary: s "is" xss)
  case (Cons b bs)
  obtain i js where i: "is = i # js" "se_buffers s i = Some b" "map (se_buffers s) js = map Some bs"
    using Cons.prems(2) by (cases "is") auto
  show ?case
  proof (cases xss)
    case (Cons x ys)
    obtain s1 where w: "write_bytes b (take (unat (tb_nbytes b)) x) s = Some s1" "backed s1" "s1 = s\<lparr>se_heap := se_heap s1\<rparr>"
      by (rule write_backed [OF Cons.prems(1) i(2), of "take (unat (tb_nbytes b)) x"]) simp
    have "se_buffers s1 = se_buffers s" by (subst w(3)) simp
    then show ?thesis using Cons.IH [OF w(2), of js ys] i(3) w(1) Cons by simp
  qed simp
qed simp

lemma content_frame:
  assumes "se_buffers s' = se_buffers s" "se_heap s' = se_heap s" "se_streaming s' = se_streaming s"
  shows "content s' = content s" "backed s' = backed s"
proof -
  have "read_bytes s' b n = read_bytes s b n" for b n by (simp add: read_bytes_def block_at_def assms cong: option.case_cong)
  then show "content s' = content s" by (simp add: fun_eq_iff content_def assms cong: option.case_cong)
  show "backed s' = backed s" by (simp add: backed_def assms)
qed

lemma sim_rest:
  assumes "sim A s t"
  shows "sim A (s\<lparr>se_kv := kv, se_backend := b\<rparr>) (t\<lparr>se_kv := kv, se_backend := b\<rparr>)"
proof -
  have "content (x\<lparr>se_kv := kv, se_backend := b\<rparr>) = content x" "backed (x\<lparr>se_kv := kv, se_backend := b\<rparr>) = backed x"
    for x :: "('a, 'b) session" by (rule content_frame; simp)+
  then show ?thesis using assms by (simp add: sim_def same_rest_def)
qed

lemma run_kernel_eq:
  assumes "input_buffers n s (n_inputs n) = Inr bs" "output_buffers s (n_outputs n) = Inr cs"
    "all_some (map (input_content s) bs) = Some icont" "all_some (map (output_content s) cs) = Some ocont"
    "disp (n_op_name n) (n_op_version n) icont ocont (n_attributes n) (se_kv s) (se_backend s) = (q, bss, kv, b)"
    "write_outputs (zip cs bss) (s\<lparr>se_kv := kv, se_backend := b\<rparr>) = Some s'"
  shows "run_kernel disp n s = Some (case q of Inr _ \<Rightarrow> Inr ()
    | Inl e \<Rightarrow> Inl (Error (err_code e) (''op '' @ [CHR 0x27] @ n_op_name n @ [CHR 0x27] @ '' node='' @ u64_dec (n_id n) @
        '': '' @ err_message e)), s')"
  using assms by (cases q) (simp_all add: run_kernel_def)

lemma run_kernel_sim:
  assumes sim: "sim A s t" and disp: "overwrites disp"
    and ins: "\<And>i. i \<in> set (n_inputs n) \<Longrightarrow> se_buffers s i \<noteq> None \<Longrightarrow> i \<in> A"
    and ap: "apart (A \<union> set (n_outputs n)) (se_buffers s)" "apart (A \<union> set (n_outputs n)) (se_buffers t)"
  shows "\<exists>r s' t'. run_kernel disp n s = Some (r, s') \<and> run_kernel disp n t = Some (r, t') \<and>
    (r = Inr () \<longrightarrow> sim (A \<union> set (n_outputs n)) s' t' \<and> se_buffers s' = se_buffers s \<and> se_buffers t' = se_buffers t)"
proof -
  have bk: "backed s" "backed t" and rest: "se_kv t = se_kv s" "se_backend t = se_backend s"
    using sim by (simp_all add: sim_def same_rest_def)
  from input_buffers_sim [OF sim, of n "n_inputs n"] show ?thesis
  proof (elim disjE exE conjE)
    fix e assume "input_buffers n s (n_inputs n) = Inl e" "input_buffers n t (n_inputs n) = Inl e"
    then show ?thesis by (simp add: run_kernel_def)
  next
    fix bs bs' assume i: "input_buffers n s (n_inputs n) = Inr bs" "input_buffers n t (n_inputs n) = Inr bs'"
      "map (se_buffers s) (n_inputs n) = map Some bs" "map (se_buffers t) (n_inputs n) = map Some bs'" "list_all2 twin bs bs'"
    from output_buffers_sim [OF sim, of "n_outputs n"] show ?thesis
    proof (elim disjE exE conjE)
      fix e assume "output_buffers s (n_outputs n) = Inl e" "output_buffers t (n_outputs n) = Inl e"
      then show ?thesis using i by (simp add: run_kernel_def)
    next
      fix cs cs' assume o: "output_buffers s (n_outputs n) = Inr cs" "output_buffers t (n_outputs n) = Inr cs'"
        "map (se_buffers s) (n_outputs n) = map Some cs" "map (se_buffers t) (n_outputs n) = map Some cs'" "list_all2 twin cs cs'"
      have views: "map view_of bs' = map view_of bs" "map view_of cs' = map view_of cs"
        using i(5) o(5) by (auto simp: list_all2_conv_all_nth twin_def intro!: nth_equalityI)
      have "content s j = content t j" if "j \<in> set (n_inputs n)" for j
      proof -
        have "se_buffers s j \<noteq> None" using i(3) that by (metis in_set_conv_nth length_map nth_map option.distinct(1))
        then show ?thesis using ins [OF that] sim by (simp add: sim_def)
      qed
      then have same: "map (content s) (n_inputs n) = map (content t) (n_inputs n)" by simp
      obtain ys where ys: "all_some (map (output_content s) cs) = Some (zip (map view_of cs) ys)" "length ys = length cs"
        using contents_backed(2) [OF bk(1) o(3)] by blast
      obtain zs where zs: "all_some (map (output_content t) cs') = Some (zip (map view_of cs') zs)" "length zs = length cs'"
        using contents_backed(2) [OF bk(2) o(4)] by blast
      note icont = contents_backed(1) [OF bk(1) i(3)] contents_backed(1) [OF bk(2) i(4)]
      let ?ins = "zip (map view_of bs) (map (content s) (n_inputs n))"
      let ?outs = "zip (map view_of cs) ys" let ?outs' = "zip (map view_of cs') zs"
      have fsts: "map fst ?outs = map fst ?outs'" using ys(2) zs(2) views(2) by (metis length_map map_fst_zip)
      obtain q bss kv b where d: "disp (n_op_name n) (n_op_version n) ?ins ?outs (n_attributes n) (se_kv s) (se_backend s) =
          (q, bss, kv, b)" using prod_cases4 by blast
      obtain bss' where d': "disp (n_op_name n) (n_op_version n) ?ins ?outs' (n_attributes n) (se_kv s) (se_backend s) =
          (q, bss', kv, b)" "length bss = length ?outs" "length bss' = length ?outs"
          "q = Inr () \<Longrightarrow> bss' = bss \<and> list_all2 (\<lambda>o_view bs. length bs = unat (ov_nbytes (fst o_view))) ?outs bss"
        using disp [unfolded overwrites_def, rule_format, OF fsts d] by blast
      let ?s = "s\<lparr>se_kv := kv, se_backend := b\<rparr>" let ?t = "t\<lparr>se_kv := kv, se_backend := b\<rparr>"
      obtain s' where s': "write_outputs (zip cs bss) ?s = Some s'"
        using write_outputs_total [of ?s "n_outputs n" cs bss] bk(1) o(3) by (auto simp: backed_def)
      obtain t' where t': "write_outputs (zip cs' bss') ?t = Some t'"
        using write_outputs_total [of ?t "n_outputs n" cs' bss'] bk(2) o(4) by (auto simp: backed_def)
      have d2: "disp (n_op_name n) (n_op_version n) ?ins ?outs' (n_attributes n) (se_kv t) (se_backend t) = (q, bss', kv, b)"
        using d'(1) rest by simp
      have runs: "\<exists>r. run_kernel disp n s = Some (r, s') \<and> run_kernel disp n t = Some (r, t') \<and> (r = Inr () \<longrightarrow> q = Inr ())"
        using run_kernel_eq [where disp = disp and s = s and n = n, OF i(1) o(1) icont(1) ys(1) d s']
          run_kernel_eq [where disp = disp and s = t and n = n, OF i(2) o(2) icont(2) [unfolded views(1) same [symmetric]] zs(1) d2 t'] by (cases q) simp_all
      have "sim (A \<union> set (n_outputs n)) s' t' \<and> se_buffers s' = se_buffers s \<and> se_buffers t' = se_buffers t" if "q = Inr ()"
      proof -
        have b: "bss' = bss" and lens: "list_all2 (\<lambda>b x. length x = unat (tb_nbytes b)) cs bss"
          using d'(4) [OF that] ys(2) by (auto simp: list_all2_conv_all_nth view_of_def)
        have "\<exists>s' t'. write_outputs (zip cs bss) ?s = Some s' \<and> write_outputs (zip cs' bss) ?t = Some t' \<and>
            sim (A \<union> set (n_outputs n)) s' t' \<and> se_buffers s' = se_buffers ?s \<and> se_buffers t' = se_buffers ?t"
          using ap o lens by (intro write_outputs_sim sim_rest sim) simp_all
        then show ?thesis using s' t' b by auto
      qed
      then show ?thesis using runs by blast
    qed
  qed
qed

lemma event_sim:
  assumes "sim A s t"
  shows "sim A (apply_event env e s) (apply_event env e t) \<and>
    se_buffers (apply_event env e s) = se_buffers s \<and> se_buffers (apply_event env e t) = se_buffers t"
proof -
  have eq: "se_streaming s = None" "se_streaming t = None" using assms by (simp_all add: sim_def same_rest_def)
  have frame: "se_buffers (apply_event env e x) = se_buffers x \<and> se_heap (apply_event env e x) = se_heap x \<and>
      se_streaming (apply_event env e x) = se_streaming x"
    if "se_streaming x = None" for x
    using that by (cases e) (simp_all add: request_cancel_def set_background_def on_memory_warning_def
        apply_pending_kv_drop_def Let_def)
  have "same_rest (apply_event env e s) (apply_event env e t)"
    using assms by (cases e) (simp_all add: sim_def same_rest_def request_cancel_def set_background_def
        on_memory_warning_def apply_pending_kv_drop_def Let_def)
  moreover have "content (apply_event env e s) = content s" "backed (apply_event env e s) = backed s"
    by (rule content_frame; use frame [OF eq(1)] in simp)+
  moreover have "content (apply_event env e t) = content t" "backed (apply_event env e t) = backed t"
    by (rule content_frame; use frame [OF eq(2)] in simp)+
  moreover have "se_buffers (apply_event env e s) = se_buffers s" "se_buffers (apply_event env e t) = se_buffers t"
    using frame [OF eq(1)] frame [OF eq(2)] by blast+
  ultimately show ?thesis using assms by (simp only: sim_def) simp
qed

lemma tick_sim:
  fixes s t :: "('b, 'f) session"
  assumes "sim A s t"
  shows "sim A (tick env s) (tick env t)" "se_buffers (tick env s) = se_buffers s" "se_buffers (tick env t) = se_buffers t"
proof -
  have ev: "sim A (fold (apply_event env) es s) (fold (apply_event env) es t) \<and>
      se_buffers (fold (apply_event env) es s) = se_buffers s \<and> se_buffers (fold (apply_event env) es t) = se_buffers t"
    if "sim A s t" for es s t
    using that
  proof (induction es arbitrary: s t)
    case (Cons e es)
    then show ?case using event_sim [OF Cons.prems, of env e] Cons.IH [of "apply_event env e s" "apply_event env e t"] by simp
  qed simp
  have same: "se_events t = se_events s" using assms by (simp add: sim_def same_rest_def)
  have "sim A (s\<lparr>se_events := r\<rparr>) (t\<lparr>se_events := r\<rparr>)" for r
  proof -
    have "content (x\<lparr>se_events := r\<rparr>) = content x" "backed (x\<lparr>se_events := r\<rparr>) = backed x" for x :: "('b, 'f) session"
      by (rule content_frame; simp)+
    then show ?thesis using assms by (simp add: sim_def same_rest_def)
  qed
  note ev = ev [OF this]
  show "sim A (tick env s) (tick env t)" "se_buffers (tick env s) = se_buffers s" "se_buffers (tick env t) = se_buffers t"
    using assms ev by (simp_all add: tick_def same split: list.split)
qed

text \<open>The plan names the graph's nodes with their inputs and outputs.\<close>

definition plan_names :: "graph \<Rightarrow> execution_plan \<Rightarrow> bool" where
  "plan_names g p \<longleftrightarrow> (\<forall>op \<in> set (ep_ops p). \<exists>n. find_node g (po_node_id op) = Some n \<and> n_inputs n = po_inputs op \<and>
     n_outputs n = po_outputs op)"

lemma run_op_sim:
  assumes sim: "sim A s t" and B: "overwrites (bk_dispatch B)" "overwrites (bk_dispatch_host B)"
    and n: "find_node (se_graph s) (po_node_id op) = Some n"
    and ins: "\<And>i. i \<in> set (n_inputs n) \<Longrightarrow> se_buffers s i \<noteq> None \<Longrightarrow> i \<in> A"
    and ap: "apart (A \<union> set (n_outputs n)) (se_buffers s)" "apart (A \<union> set (n_outputs n)) (se_buffers t)"
  shows "\<exists>r s' t'. run_op env B d op next s = Some (r, s') \<and> run_op env B d op next t = Some (r, t') \<and>
    (r = Inr () \<longrightarrow> sim (A \<union> set (n_outputs n)) s' t' \<and> se_buffers s' = se_buffers s \<and> se_buffers t' = se_buffers t)"
proof -
  have rest: "se_graph t = se_graph s" "se_streaming s = None" "se_streaming t = None"
    using sim by (simp_all add: sim_def same_rest_def)
  have B': "overwrites (dispatch_path B d)" using B by (simp add: dispatch_path_def split: option.split)
  note t = tick_sim [OF sim, of env]
  have "\<exists>r s' t'. run_kernel (dispatch_path B d) n (tick env s) = Some (r, s') \<and>
      run_kernel (dispatch_path B d) n (tick env t) = Some (r, t') \<and>
      (r = Inr () \<longrightarrow> sim (A \<union> set (n_outputs n)) s' t' \<and> se_buffers s' = se_buffers (tick env s) \<and>
        se_buffers t' = se_buffers (tick env t))"
    using ins ap t(2,3) by (intro run_kernel_sim [OF t(1) B']) simp_all
  then show ?thesis
    using n rest t by (auto simp: run_op_def stage_streamed_inputs_def prefetch_next_def)
qed

lemma run_ops_sim:
  assumes B: "overwrites (bk_dispatch B)" "overwrites (bk_dispatch_host B)"
    and names: "plan_names g p" and fed: "fed g p" and dom: "\<And>i. se_buffers s i \<noteq> None \<Longrightarrow> lives_of g p i \<noteq> None"
    and ap: "\<And>k. k < length (ep_ops p) \<Longrightarrow> apart (placed g p k) (se_buffers s)" "apart UNIV (se_buffers t)"
  shows "sim (agreed g p k) s t \<Longrightarrow> se_graph s = g \<Longrightarrow> k \<le> length (ep_ops p) \<Longrightarrow>
    \<exists>r s' t'. run_ops env B ds (drop k (ep_ops p)) s = Some (r, s') \<and> run_ops env B ds (drop k (ep_ops p)) t = Some (r, t') \<and>
      (r = Inr () \<longrightarrow> sim (agreed g p (length (ep_ops p))) s' t' \<and> se_buffers s' = se_buffers s \<and> se_buffers t' = se_buffers t)"
  using dom ap
proof (induction "length (ep_ops p) - k" arbitrary: k ds s t)
  case 0
  then have k: "k = length (ep_ops p)" by simp
  then show ?case using 0 by simp
next
  case (Suc m)
  then have k: "k < length (ep_ops p)" by simp
  let ?op = "ep_ops p ! k"
  have split: "drop k (ep_ops p) = ?op # drop (Suc k) (ep_ops p)" using k by (simp add: Cons_nth_drop_Suc)
  obtain n where n: "find_node g (po_node_id ?op) = Some n" "n_inputs n = po_inputs ?op" "n_outputs n = po_outputs ?op"
    using names k by (metis nth_mem plan_names_def)
  have ins: "i \<in> agreed g p k" if "i \<in> set (n_inputs n)" "se_buffers s i \<noteq> None" for i
    using inputs_agreed [OF fed k] that n(2) Suc.prems(4) by simp
  have ap: "apart (agreed g p k \<union> set (n_outputs n)) (se_buffers s)"
  proof -
    have "apart (placed g p k) (se_buffers s)" by (rule Suc.prems(5) [OF k])
    moreover have "i \<in> placed g p k" if "i \<in> agreed g p k \<union> set (n_outputs n)" "se_buffers s i \<noteq> None" for i
      using that agreed_placed outputs_placed [OF k] Suc.prems(4) n(3) by auto
    ultimately show ?thesis unfolding apart_def by (metis option.distinct(1))
  qed
  have apt: "apart (agreed g p k \<union> set (n_outputs n)) (se_buffers t)" using Suc.prems(6) by (rule apart_mono) simp
  let ?d = "case ds of [] \<Rightarrow> None | d # _ \<Rightarrow> Some d"
  let ?next = "case drop (Suc k) (ep_ops p) of [] \<Rightarrow> None | op' # _ \<Rightarrow> Some op'"
  obtain r s1 t1 where op: "run_op env B ?d ?op ?next s = Some (r, s1)" "run_op env B ?d ?op ?next t = Some (r, t1)"
    and ok: "r = Inr () \<Longrightarrow> sim (agreed g p k \<union> set (n_outputs n)) s1 t1 \<and> se_buffers s1 = se_buffers s \<and>
      se_buffers t1 = se_buffers t"
    using run_op_sim [OF Suc.prems(1) B _ ins ap apt, of ?op env ?d ?next] n(1) Suc.prems(2) by auto
  show ?case
  proof (cases r)
    case (Inl e)
    then show ?thesis using op by (simp add: split)
  next
    case (Inr u)
    then have s1: "sim (agreed g p k \<union> set (n_outputs n)) s1 t1" "se_buffers s1 = se_buffers s" "se_buffers t1 = se_buffers t"
      using ok by simp_all
    have "sim (agreed g p (Suc k)) s1 t1" by (rule sim_mono [OF s1(1)]) (use agreed_step [OF k] n(3) in simp)
    moreover have "se_graph s1 = g" using run_op_frame [OF op(1)] Suc.prems(2) by (simp add: same_control_def)
    ultimately have "\<exists>r s' t'. run_ops env B (tl ds) (drop (Suc k) (ep_ops p)) s1 = Some (r, s') \<and>
        run_ops env B (tl ds) (drop (Suc k) (ep_ops p)) t1 = Some (r, t') \<and>
        (r = Inr () \<longrightarrow> sim (agreed g p (length (ep_ops p))) s' t' \<and> se_buffers s' = se_buffers s1 \<and> se_buffers t' = se_buffers t1)"
      using Suc.hyps(2) k Suc.prems(4-6) s1 by (intro Suc.hyps(1)) simp_all
    then show ?thesis using op Inr s1(2,3) by (simp add: split)
  qed
qed

text \<open>What both sessions are built from; no operation changes it.\<close>

definition sharing :: "graph \<Rightarrow> execution_plan \<Rightarrow> ('b, 'f) session \<Rightarrow> ('b, 'f) session \<Rightarrow> bool" where
  "sharing g p s t \<longleftrightarrow> se_graph s = g \<and> se_plan s = p \<and> plan_names g p \<and> fed g p \<and>
     (\<forall>i. se_buffers s i \<noteq> None \<longrightarrow> lives_of g p i \<noteq> None) \<and> (\<forall>k. apart (placed g p k) (se_buffers s)) \<and>
     apart UNIV (se_buffers t)"

lemma sharing_frame:
  "sharing g p s t \<Longrightarrow> same_control s s' \<Longrightarrow> se_buffers s' = se_buffers s \<Longrightarrow> se_buffers t' = se_buffers t \<Longrightarrow> sharing g p s' t'"
  by (simp add: sharing_def same_control_def)

lemma sim_frame:
  assumes "sim A s t" "same_rest s' t'"
    and "se_buffers s' = se_buffers s" "se_heap s' = se_heap s" "se_streaming s' = se_streaming s"
    and "se_buffers t' = se_buffers t" "se_heap t' = se_heap t" "se_streaming t' = se_streaming t"
  shows "sim A s' t'"
  using assms content_frame [OF assms(3-5)] content_frame [OF assms(6-8)] by (simp add: sim_def)

lemma sim_same: "sim A s t \<Longrightarrow> same_rest s t"
  by (simp add: sim_def)

lemma enter_run_sim: "sim A s t \<Longrightarrow> sim A (enter_run zero s) (enter_run zero t)"
proof -
  assume a: "sim A s t"
  then have "same_rest s t" by (rule sim_same)
  then have "same_rest (enter_run zero s) (enter_run zero t)"
    by (simp add: same_rest_def enter_run_def apply_pending_kv_drop_def)
  then show ?thesis by (rule sim_frame [OF a]) (simp_all add: enter_run_def apply_pending_kv_drop_def)
qed

lemma leave_run_sim: "sim A s t \<Longrightarrow> sim A (leave_run zero s) (leave_run zero t)"
proof -
  assume a: "sim A s t"
  then have "same_rest s t" by (rule sim_same)
  then have "same_rest (leave_run zero s) (leave_run zero t)"
    by (simp add: same_rest_def leave_run_def apply_pending_kv_drop_def)
  then show ?thesis by (rule sim_frame [OF a]) (simp_all add: leave_run_def apply_pending_kv_drop_def)
qed

lemma finish_run_sim:
  assumes "sim A s t"
  shows "fst (finish_run B t) = fst (finish_run B s)" "sim A (snd (finish_run B s)) (snd (finish_run B t))"
proof -
  obtain r b where b: "bk_synchronize B (se_backend s) = (r, b)" by (cases "bk_synchronize B (se_backend s)")
  have r: "same_rest s t" by (rule sim_same [OF assms])
  then have b': "bk_synchronize B (se_backend t) = (r, b)" using b by (simp add: same_rest_def)
  show "fst (finish_run B t) = fst (finish_run B s)" using b b' by (cases r) (simp_all add: finish_run_def)
  show "sim A (snd (finish_run B s)) (snd (finish_run B t))"
    by (rule sim_frame [OF assms]; use b b' r in \<open>cases r\<close>; simp add: finish_run_def commit_step_def same_rest_def)
qed

lemma run_buffers:
  "se_buffers (enter_run zero s) = se_buffers s" "se_buffers (leave_run zero s) = se_buffers s"
  "se_buffers (snd (finish_run B s)) = se_buffers s"
  "se_plan (enter_run zero s) = se_plan s" "se_graph (enter_run zero s) = se_graph s"
  "same_control s (tick env s)"
  by (simp_all add: enter_run_def leave_run_def apply_pending_kv_drop_def finish_run_def commit_step_def
      same_control_events tick_same split: prod.split sum.split)

lemma run_sim:
  assumes B: "overwrites (bk_dispatch B)" "overwrites (bk_dispatch_host B)"
    and sim: "sim (lasting g p) s t" and sh: "sharing g p s t"
  shows "\<exists>r s' t'. run env B s = Some (r, s') \<and> run env B t = Some (r, t') \<and>
    (r = Inr () \<longrightarrow> sim (lasting g p) s' t' \<and> se_buffers s' = se_buffers s \<and> se_buffers t' = se_buffers t)"
proof -
  have rest: "se_ready t = se_ready s" using sim by (simp add: sim_def same_rest_def)
  note tk = tick_sim [OF sim, of env]
  have tr: "same_rest (tick env s) (tick env t)" by (rule sim_same [OF tk(1)])
  then have rej: "reject_if_paused (tick env t) = reject_if_paused (tick env s)"
    by (simp add: same_rest_def reject_if_paused_def)
  show ?thesis
  proof (cases "se_ready s")
    case False
    then show ?thesis using rest by (simp add: run_def)
  next
    case True
    show ?thesis
    proof (cases "reject_if_paused (tick env s)")
      case (Inl e)
      then show ?thesis using True rest rej by (simp add: run_def Let_def)
    next
      case (Inr u)
      let ?s = "enter_run (re_zero env) (tick env s)" let ?t = "enter_run (re_zero env) (tick env t)"
      have g: "se_graph (tick env s) = g" "se_plan (tick env s) = p"
        using run_buffers(6) [of s env] sh by (simp_all add: same_control_def sharing_def)
      have g': "se_plan (tick env t) = p" "se_scheduler (tick env t) = se_scheduler (tick env s)"
        using tr g by (simp_all add: same_rest_def)
      let ?ds = "device_schedule_plan (se_scheduler (tick env s)) p"
      have start: "sim (agreed g p 0) ?s ?t" by (rule enter_run_sim, rule sim_mono [OF tk(1) agreed_0])
      have "\<exists>r s' t'. run_ops env B ?ds (drop 0 (ep_ops p)) ?s = Some (r, s') \<and> run_ops env B ?ds (drop 0 (ep_ops p)) ?t = Some (r, t') \<and>
          (r = Inr () \<longrightarrow> sim (agreed g p (length (ep_ops p))) s' t' \<and> se_buffers s' = se_buffers ?s \<and> se_buffers t' = se_buffers ?t)"
        using sh g tk(2,3) by (intro run_ops_sim [OF B _ _ _ _ _ start]) (simp_all add: sharing_def run_buffers)
      then obtain r s1 t1 where ops: "run_ops env B ?ds (ep_ops p) ?s = Some (r, s1)" "run_ops env B ?ds (ep_ops p) ?t = Some (r, t1)"
        and ok: "r = Inr () \<Longrightarrow> sim (agreed g p (length (ep_ops p))) s1 t1 \<and> se_buffers s1 = se_buffers ?s \<and> se_buffers t1 = se_buffers ?t"
        by auto
      show ?thesis
      proof (cases r)
        case (Inl e)
        then show ?thesis using True rest rej Inr g g' ops by (simp add: run_def Let_def)
      next
        case InrR: (Inr v)
        then have s1: "sim (lasting g p) s1 t1" "se_buffers s1 = se_buffers s" "se_buffers t1 = se_buffers t"
          using ok sim_mono [OF _ lasting_agreed [OF order_refl]] by (auto simp: run_buffers tk(2,3))
        note fin = finish_run_sim [OF s1(1), of B]
        let ?s2 = "leave_run (re_zero env) (snd (finish_run B s1))" let ?t2 = "leave_run (re_zero env) (snd (finish_run B t1))"
        have "run env B s = Some (fst (finish_run B s1), ?s2)" "run env B t = Some (fst (finish_run B s1), ?t2)"
          using True rest rej Inr g g' ops InrR fin(1) by (simp_all add: run_def Let_def case_prod_beta)
        moreover have "sim (lasting g p) ?s2 ?t2" by (rule leave_run_sim [OF fin(2)])
        moreover have "se_buffers ?s2 = se_buffers s" "se_buffers ?t2 = se_buffers t" using s1(2,3) by (simp_all add: run_buffers)
        ultimately show ?thesis by blast
      qed
    qed
  qed
qed

section \<open>Generating with shared buffers\<close>

lemma lasting_apart: "sharing g p s t \<Longrightarrow> apart (lasting g p) (se_buffers s)" "sharing g p s t \<Longrightarrow> apart A (se_buffers t)"
proof -
  assume sh: "sharing g p s t"
  have "lasting g p \<subseteq> placed g p 0" using lasting_agreed [of 0 p g] agreed_placed [of g p 0] by simp
  moreover have "apart (placed g p 0) (se_buffers s)" using sh by (simp add: sharing_def)
  ultimately show "apart (lasting g p) (se_buffers s)" by (rule apart_mono [rotated])
  show "apart A (se_buffers t)" using sh by (auto simp: sharing_def intro: apart_mono)
qed

lemma write_token_sim:
  assumes sim: "sim (lasting g p) s t" and sh: "sharing g p s t" and i: "i \<in> lasting g p"
  shows "\<exists>r s' t'. write_tokens_step i tok s = Some (r, s') \<and> write_tokens_step i tok t = Some (r, t') \<and>
    (r = Inr () \<longrightarrow> sim (lasting g p) s' t' \<and> se_buffers s' = se_buffers s \<and> se_buffers t' = se_buffers t \<and> same_control s s')"
proof (cases "se_buffers s i")
  case None
  then show ?thesis using sim_none [OF sim, of i] by (simp add: write_tokens_step_def)
next
  case (Some b)
  then obtain b' where b': "se_buffers t i = Some b'" "twin b b'" by (rule sim_twin [OF sim])
  note nb = twin_fields [OF b'(2)]
  define n where "n = unat (tb_nbytes b) div 4"
  show ?thesis
  proof (cases "n = 0")
    case True
    then show ?thesis using Some b' nb by (simp add: write_tokens_step_def n_def)
  next
    case False
    let ?bs = "replicate (4 * (n - 1)) 0 @ put_u32 (f32_bits_of_int tok)"
    have "length ?bs = 4 * n" using False by (simp add: put_u32_def)
    then have len: "length ?bs \<le> unat (tb_nbytes b)" using n_def by (metis div_times_less_eq_dividend mult.commute)
    have ins: "insert i (lasting g p) = lasting g p" using i by auto
    obtain s' t' where w: "write_bytes b ?bs s = Some s'" "write_bytes b' ?bs t = Some t'" "sim (lasting g p) s' t'"
      "se_buffers s' = se_buffers s" "se_buffers t' = se_buffers t"
      using write_sim [OF sim Some b'(1) _ _ len] lasting_apart [OF sh] i unfolding ins by auto
    have "same_control s s'" using write_bytes_frame [OF w(1)] by simp
    then show ?thesis using Some b' nb False w by (simp add: write_tokens_step_def n_def [symmetric])
  qed
qed

lemma feed_sim:
  assumes B: "overwrites (bk_dispatch B)" "overwrites (bk_dispatch_host B)"
    and sim: "sim (lasting g p) s t" and sh: "sharing g p s t" and i: "i \<in> lasting g p"
  shows "\<exists>r s' t'. feed env B i tok s = Some (r, s') \<and> feed env B i tok t = Some (r, t') \<and>
    (r = Inr () \<longrightarrow> sim (lasting g p) s' t' \<and> sharing g p s' t')"
proof -
  obtain r s1 t1 where w: "write_tokens_step i tok s = Some (r, s1)" "write_tokens_step i tok t = Some (r, t1)"
    and ok: "r = Inr () \<Longrightarrow> sim (lasting g p) s1 t1 \<and> se_buffers s1 = se_buffers s \<and> se_buffers t1 = se_buffers t \<and>
      same_control s s1"
    using write_token_sim [OF sim sh i] by blast
  show ?thesis
  proof (cases r)
    case (Inl e)
    then show ?thesis using w by (simp add: feed_def)
  next
    case (Inr u)
    then have sim1: "sim (lasting g p) s1 t1" and sh1: "sharing g p s1 t1" using ok sharing_frame [OF sh] by simp_all
    obtain q s2 t2 where r: "run env B s1 = Some (q, s2)" "run env B t1 = Some (q, t2)"
      and ok2: "q = Inr () \<Longrightarrow> sim (lasting g p) s2 t2 \<and> se_buffers s2 = se_buffers s1 \<and> se_buffers t2 = se_buffers t1"
      using run_sim [OF B sim1 sh1] by blast
    have "sharing g p s2 t2" if "q = Inr ()"
    proof -
      have "se_plan s2 = se_plan s1 \<and> se_graph s2 = se_graph s1" using run_plan [OF r(1)] by simp
      then show ?thesis using sh1 ok2 [OF that] by (simp add: sharing_def)
    qed
    then show ?thesis using w Inr r ok2 by (simp add: feed_def)
  qed
qed

lemma tick_sharing: "sim A s t \<Longrightarrow> sharing g p s t \<Longrightarrow> sharing g p (tick env s) (tick env t)"
  by (rule sharing_frame [OF _ run_buffers(6) tick_sim(2,3)])

lemma paused_sim: "sim A s t \<Longrightarrow> reject_if_paused (tick env t) = reject_if_paused (tick env s)"
  using sim_same [OF tick_sim(1)] by (fastforce simp: same_rest_def reject_if_paused_def)

lemma prefill_sim:
  assumes B: "overwrites (bk_dispatch B)" "overwrites (bk_dispatch_host B)" and i: "i \<in> lasting g p"
  shows "sim (lasting g p) s t \<Longrightarrow> sharing g p s t \<Longrightarrow>
    \<exists>r out' s' t'. prefill env B ctx i toks out s = Some (r, out', s') \<and> prefill env B ctx i toks out t = Some (r, out', t') \<and>
      (r = Inr () \<longrightarrow> sim (lasting g p) s' t' \<and> sharing g p s' t')"
proof (induction toks arbitrary: out s t)
  case (Cons tok toks)
  note tk = tick_sim(1) [OF Cons.prems(1), of env] and sh = tick_sharing [OF Cons.prems, of env]
  note rej = paused_sim [OF Cons.prems(1), of env]
  show ?case
  proof (cases "reject_if_paused (tick env s)")
    case (Inl e)
    then show ?thesis using rej by (simp add: Let_def)
  next
    case (Inr u)
    obtain r s1 t1 where f: "feed env B i tok (tick env s) = Some (r, s1)" "feed env B i tok (tick env t) = Some (r, t1)"
      and ok: "r = Inr () \<Longrightarrow> sim (lasting g p) s1 t1 \<and> sharing g p s1 t1"
      using feed_sim [OF B tk sh i] by blast
    note rej' = trans [OF rej Inr]
    show ?thesis
    proof (cases "over ctx (int (length out) + 1)")
      case True
      then show ?thesis by (simp add: Let_def Inr rej')
    next
      case over: False
      show ?thesis
      proof (cases r)
        case (Inl e)
        then show ?thesis by (simp add: Let_def \<open>reject_if_paused (tick env s) = Inr u\<close> rej' over f)
      next
        case InrR: (Inr v)
        have eqs: "prefill env B ctx i (tok # toks) out s = prefill env B ctx i toks (out @ [tok]) s1"
          "prefill env B ctx i (tok # toks) out t = prefill env B ctx i toks (out @ [tok]) t1"
          by (simp_all add: Let_def Inr rej' over f InrR)
        show ?thesis unfolding eqs by (rule Cons.IH) (use ok InrR in simp_all)
      qed
    qed
  qed
qed simp

lemma sample_sim:
  assumes sim: "sim (lasting g p) s t" and i: "i \<in> lasting g p"
  shows "\<exists>r g'. read_sample_token sm i hist gen s = Some (r, g') \<and> read_sample_token sm i hist gen t = Some (r, g')"
proof (cases "se_buffers s i")
  case None
  then show ?thesis using sim_none [OF sim, of i] by (simp add: read_sample_token_def find_buffer_def)
next
  case (Some b)
  then obtain b' where b': "se_buffers t i = Some b'" "twin b b'" by (rule sim_twin [OF sim])
  note nb = twin_fields [OF b'(2)]
  have "content s i = content t i" using sim i by (simp add: sim_def)
  then have eq: "read_bytes s b (tb_nbytes b) = read_bytes t b' (tb_nbytes b)" using Some b'(1) nb by (simp add: content_def)
  have "backed s" using sim by (simp add: sim_def)
  from backed_block [OF this Some] obtain bs where bs: "read_bytes s b (tb_nbytes b) = Some bs"
    using Some by (metis content_def option.simps(5))
  then have bt: "read_bytes t b' (tb_nbytes b) = Some bs" using eq nb by simp
  have row: "score_row b' = score_row b" using nb by (simp add: score_row_def)
  obtain st n where sn: "score_row b = (st, n)" by (cases "score_row b")
  show ?thesis
  proof (cases "unat (tb_nbytes b) div 4 = 0")
    case True
    then show ?thesis using Some b'(1) nb by (simp add: read_sample_token_def find_buffer_def)
  next
    case False
    then show ?thesis using Some b'(1) nb bt bs row sn
      by (cases "sm_sample sm (take (4 * n) (drop (4 * st) bs)) hist gen") (simp add: read_sample_token_def find_buffer_def)
  qed
qed

lemma decode_sim:
  assumes B: "overwrites (bk_dispatch B)" "overwrites (bk_dispatch_host B)"
    and i: "ti \<in> lasting g p" "si \<in> lasting g p"
  shows "sim (lasting g p) s t \<Longrightarrow> sharing g p s t \<Longrightarrow>
    \<exists>r out' gen' s' t'. decode env B sm stops cb ctx ti si n out gen s = Some (r, out', gen', s') \<and>
      decode env B sm stops cb ctx ti si n out gen t = Some (r, out', gen', t')"
proof (induction n arbitrary: out gen s t)
  case (Suc n)
  note tk = tick_sim(1) [OF Suc.prems(1), of env] and sh = tick_sharing [OF Suc.prems, of env]
  note rej = paused_sim [OF Suc.prems(1), of env]
  show ?case
  proof (cases "reject_if_paused (tick env s)")
    case (Inl e)
    then show ?thesis using rej by (simp add: Let_def)
  next
    case (Inr u)
    note go = Inr trans [OF rej Inr]
    show ?thesis
    proof (cases "over ctx (int (length out) + 1)")
      case True
      then show ?thesis by (simp add: Let_def go)
    next
      case over: False
      obtain q g2 where q: "read_sample_token sm si out gen (tick env s) = Some (q, g2)"
        "read_sample_token sm si out gen (tick env t) = Some (q, g2)"
        using sample_sim [OF tk i(2), where sm = sm and hist = out and gen = gen] by blast
      show ?thesis
      proof (cases q)
        case (Inl e)
        then show ?thesis by (simp add: Let_def go over q)
      next
        case tok: (Inr tok)
        let ?out = "out @ [tok]"
        show ?thesis
        proof (cases "(case cb of None \<Rightarrow> False | Some f \<Rightarrow> \<not> f ?out) \<or> tok \<in> set stops \<or> n = 0 \<or>
            over ctx (int (length ?out) + 1)")
          case True
          then show ?thesis by (auto simp: Let_def go over q tok)
        next
          case False
          then have f: "\<not> (case cb of None \<Rightarrow> False | Some f \<Rightarrow> \<not> f ?out)" "tok \<notin> set stops" "n \<noteq> 0"
            "\<not> over ctx (int (length ?out) + 1)" by (simp_all only: de_Morgan_disj not_False_eq_True simp_thms)
          obtain r s1 t1 where fd: "feed env B ti tok (tick env s) = Some (r, s1)" "feed env B ti tok (tick env t) = Some (r, t1)"
            and ok: "r = Inr () \<Longrightarrow> sim (lasting g p) s1 t1 \<and> sharing g p s1 t1"
            using feed_sim [OF B tk sh i(1)] by blast
          have eqs: "decode env B sm stops cb ctx ti si (Suc n) out gen x = (case feed env B ti tok (tick env x) of None \<Rightarrow> None
                  | Some (Inl e, s) \<Rightarrow> Some (Inl e, ?out, g2, s)
                  | Some (Inr _, s) \<Rightarrow> decode env B sm stops cb ctx ti si n ?out g2 s)"
            if "reject_if_paused (tick env x) = Inr u" "read_sample_token sm si out gen (tick env x) = Some (q, g2)" for x
            using f over tok that by (simp only: decode.simps Let_def sum.case option.case prod.case if_False)
          note es = eqs [OF go(1) q(1)] and et = eqs [OF go(2) q(2)]
          show ?thesis
          proof (cases r)
            case (Inl e)
            then show ?thesis unfolding es et by (simp add: fd)
          next
            case (Inr v)
            then have "\<exists>r out' gen' s' t'. decode env B sm stops cb ctx ti si n ?out g2 s1 = Some (r, out', gen', s') \<and>
                decode env B sm stops cb ctx ti si n ?out g2 t1 = Some (r, out', gen', t')"
              using ok by (intro Suc.IH) simp_all
            then show ?thesis unfolding es et fd option.case prod.case Inr sum.case .
          qed
        qed
      qed
    qed
  qed
qed simp

end
