(* ===== verification/Session_Alloc.thy ===== *)
theory Session_Alloc
  imports Session_Reuse
begin

text \<open>
  What \<open>allocate_all_tensors\<close> leaves when it succeeds, without streaming and packed weights: with memory reuse a
  view of a slot for each tensor, without it a buffer of its own, all zero.
  The addresses come from \<open>malloc\<close> or the arena; that live blocks have different, non-null ones is the hypothesis
  \<open>blocks_apart\<close>.
\<close>

section \<open>Live blocks\<close>

definition blocks_apart :: "('k \<rightharpoonup> 'a tensor_buffer_scheme) \<Rightarrow> bool" where
  "blocks_apart m \<longleftrightarrow> (\<forall>k b. m k = Some b \<longrightarrow> tb_data b \<noteq> 0) \<and>
     (\<forall>k k' b b'. m k = Some b \<longrightarrow> m k' = Some b' \<longrightarrow> tb_data b = tb_data b' \<longrightarrow> k = k')"

lemma blocks_apartD: "blocks_apart m \<Longrightarrow> m k = Some b \<Longrightarrow> m k' = Some b' \<Longrightarrow> tb_data b = tb_data b' \<Longrightarrow> k = k'"
  by (simp add: blocks_apart_def)

lemma blocks_apart_nonnull: "blocks_apart m \<Longrightarrow> m k = Some b \<Longrightarrow> tb_data b \<noteq> 0"
  by (auto simp: blocks_apart_def)

text \<open>The members an allocation can change.\<close>

definition alloc_only :: "('b, 'f) session \<Rightarrow> ('b, 'f) session \<Rightarrow> bool" where
  "alloc_only s s' \<longleftrightarrow> s' = s\<lparr>se_allocator := se_allocator s', se_owned := se_owned s', se_buffers := se_buffers s',
     se_heap := se_heap s'\<rparr>"

lemma alloc_only_trans: "alloc_only s t \<Longrightarrow> alloc_only t u \<Longrightarrow> alloc_only s u"
  by (cases s, cases t, cases u) (simp add: alloc_only_def)

lemma alloc_only_refl [simp]: "alloc_only s s"
  by (simp add: alloc_only_def)

lemma alloc_only_fields:
  assumes "alloc_only s s'"
  shows "se_streaming s' = se_streaming s" "se_memory_plan s' = se_memory_plan s" "se_graph s' = se_graph s"
    "se_options s' = se_options s"
  using assms by (cases s, cases s', simp add: alloc_only_def)+

lemma zeroed_block_ok:
  assumes "zeroed_block mem base k n s = (Inr p, s')"
  shows "alloc_only s s'" "se_owned s' = se_owned s" "se_buffers s' = se_buffers s"
    "se_heap s' = (se_heap s)(p \<mapsto> replicate (unat n) 0)"
  using assms by (auto simp: zeroed_block_def alloc_only_def split: prod.splits sum.splits)

section \<open>Slots\<close>

definition zero_block :: "('b, 'f) session \<Rightarrow> 'a tensor_buffer_scheme \<Rightarrow> bool" where
  "zero_block s b \<longleftrightarrow> se_heap s (tb_data b) = Some (replicate (unat (tb_nbytes b)) 0)"

lemma slots_allocated:
  assumes "allocate_slots mem base k sls s = (Inr (), s')" "se_streaming s = None" "distinct (map bs_slot_id sls)"
  shows "alloc_only s s' \<and> se_buffers s' = se_buffers s \<and>
    (\<forall>j. j \<notin> bs_slot_id ` set sls \<longrightarrow> se_owned s' j = se_owned s j) \<and>
    (\<forall>a. (\<forall>sl \<in> set sls. tb_data (the (se_owned s' (bs_slot_id sl))) \<noteq> a) \<longrightarrow> se_heap s' a = se_heap s a) \<and>
    (\<forall>sl \<in> set sls. \<exists>b. se_owned s' (bs_slot_id sl) = Some b \<and> tb_nbytes b = bs_bytes sl \<and>
       (blocks_apart (se_owned s') \<longrightarrow> zero_block s' b))"
  using assms
proof (induction sls arbitrary: k s)
  case (Cons sl sls)
  have "\<not> slot_streamed s sl" using Cons.prems(2) by (simp add: slot_streamed_def streamed_def split: list.split)
  then obtain p s1 where z: "zeroed_block mem base k (bs_bytes sl) s = (Inr p, s1)"
    using Cons.prems(1) by (auto split: prod.splits sum.splits)
  let ?b = "\<lparr>tb_id = (case bs_tenants sl of [] \<Rightarrow> 0 | i # _ \<Rightarrow> i), tb_dtype = DT_F32, tb_shape = [], tb_data = p,
    tb_nbytes = bs_bytes sl, tb_owned = True, tb_quant_format = QF_F32, tb_quant_rows = 0, tb_quant_cols = 0\<rparr>"
  let ?s1 = "s1\<lparr>se_owned := (se_owned s1)(bs_slot_id sl \<mapsto> ?b)\<rparr>"
  have step: "allocate_slots mem base (Suc k) sls ?s1 = (Inr (), s')"
    using Cons.prems(1) \<open>\<not> slot_streamed s sl\<close> z by simp
  note zb = zeroed_block_ok [OF z]
  have o1: "alloc_only s ?s1" by (rule alloc_only_trans [OF zb(1)]) (simp add: alloc_only_def)
  have str: "se_streaming ?s1 = None" using alloc_only_fields(1) [OF o1] Cons.prems(2) by simp
  have d: "distinct (map bs_slot_id sls)" "bs_slot_id sl \<notin> bs_slot_id ` set sls" using Cons.prems(3) by auto
  note ih = Cons.IH [OF step str d(1)]
  have here: "se_owned s' (bs_slot_id sl) = Some ?b" using ih d(2) by simp
  have "zero_block s' ?b" if ap: "blocks_apart (se_owned s')"
  proof -
    have "tb_data (the (se_owned s' (bs_slot_id sl'))) \<noteq> p" if sl': "sl' \<in> set sls" for sl'
    proof
      assume eq: "tb_data (the (se_owned s' (bs_slot_id sl'))) = p"
      obtain b where b: "se_owned s' (bs_slot_id sl') = Some b" using ih sl' by blast
      then have "bs_slot_id sl' = bs_slot_id sl" using blocks_apartD [OF ap b here] eq by simp
      then show False using d(2) sl' by (metis image_eqI)
    qed
    then have "se_heap s' p = se_heap ?s1 p" using ih by blast
    then show ?thesis using zb(4) by (simp add: zero_block_def)
  qed
  moreover have "se_heap s' a = se_heap s a" if "\<forall>sl' \<in> set (sl # sls). tb_data (the (se_owned s' (bs_slot_id sl'))) \<noteq> a" for a
  proof -
    have "p \<noteq> a" using that here by simp
    moreover have "se_heap s' a = se_heap ?s1 a" using ih that by simp
    ultimately show ?thesis using zb(4) by simp
  qed
  moreover have "alloc_only s s'" using alloc_only_trans [OF o1] ih by blast
  ultimately show ?case using ih zb(2,3) here by simp
qed simp

section \<open>Views\<close>

definition plain_view :: "tensor \<Rightarrow> u64 \<Rightarrow> session_buffer" where
  "plain_view t p = blank_buffer\<lparr>tb_id := t_id t, tb_dtype := DT_F32, tb_shape := t_shape t, tb_nbytes := view_nbytes t, tb_data := p\<rparr>"

lemma views_made:
  assumes "make_views ts s = (Inr (), s')" "se_streaming s = None" "distinct (map t_id ts)"
    "\<And>t. t \<in> set ts \<Longrightarrow> se_buffers s (t_id t) = None"
  shows "s' = s\<lparr>se_buffers := se_buffers s'\<rparr> \<and> (\<forall>i. i \<notin> t_id ` set ts \<longrightarrow> se_buffers s' i = se_buffers s i) \<and>
    (\<forall>t \<in> set ts. \<exists>sid ob. mr_tensor_to_slot (se_memory_plan s) (t_id t) = Some sid \<and> se_owned s sid = Some ob \<and>
       se_buffers s' (t_id t) = Some (plain_view t (tb_data ob)))"
  using assms
proof (induction ts arbitrary: s)
  case (Cons t ts)
  have ns: "\<not> streamed s (t_id t)" using Cons.prems(2) by (simp add: streamed_def)
  have c: "coercible (t_dtype t)" using Cons.prems(1) by (auto split: if_splits)
  obtain sid ob where so: "mr_tensor_to_slot (se_memory_plan s) (t_id t) = Some sid" "se_owned s sid = Some ob"
    using Cons.prems(1) ns c by (auto simp: Let_def split: option.splits if_splits)
  let ?s1 = "add_buffer (t_id t) (plain_view t (tb_data ob)) s"
  have s1: "?s1 = s\<lparr>se_buffers := (se_buffers s)(t_id t \<mapsto> plain_view t (tb_data ob))\<rparr>"
    using Cons.prems(4) [of t] by (simp add: add_buffer_def emplace_def)
  have step: "make_views ts ?s1 = (Inr (), s')"
    using Cons.prems(1) ns c so by (simp add: Let_def plain_view_def)
  have d: "distinct (map t_id ts)" "t_id t \<notin> t_id ` set ts" using Cons.prems(3) by auto
  have free: "se_buffers ?s1 (t_id u) = None" if "u \<in> set ts" for u
    using Cons.prems(4) [of u] that d(2) unfolding s1 by (auto simp: image_iff)
  have str: "se_streaming ?s1 = None" using Cons.prems(2) unfolding s1 by simp
  note ih = Cons.IH [OF step str d(1) free]
  have eqs: "se_memory_plan ?s1 = se_memory_plan s" "se_owned ?s1 = se_owned s" unfolding s1 by simp_all
  have "s' = ?s1\<lparr>se_buffers := se_buffers s'\<rparr>" using ih by blast
  also have "\<dots> = s\<lparr>se_buffers := se_buffers s'\<rparr>" unfolding s1 by simp
  finally have "s' = s\<lparr>se_buffers := se_buffers s'\<rparr>" .
  moreover have "se_buffers s' i = se_buffers s i" if "i \<notin> t_id ` set (t # ts)" for i
  proof -
    have "se_buffers s' i = se_buffers ?s1 i" using ih that by simp
    then show ?thesis using that by (simp add: s1)
  qed
  moreover have "se_buffers s' (t_id t) = Some (plain_view t (tb_data ob))"
  proof -
    have "se_buffers s' (t_id t) = se_buffers ?s1 (t_id t)" using ih d(2) by blast
    then show ?thesis by (simp add: s1)
  qed
  ultimately show ?case using ih so unfolding eqs by auto
qed simp

section \<open>A buffer for each tensor\<close>

definition plain_buffer :: "tensor \<Rightarrow> u64 \<Rightarrow> session_buffer" where
  "plain_buffer t p = blank_buffer\<lparr>tb_id := t_id t, tb_dtype := DT_F32, tb_shape := t_shape t, tb_data := p,
     tb_nbytes := estimate_tensor_bytes (t\<lparr>t_dtype := DT_F32\<rparr>), tb_owned := True\<rparr>"

lemma allocate_plain_ok:
  assumes "allocate_plain mem base k t s = (Inr (), s')" "se_buffers s (t_id t) = None"
  obtains p where "alloc_only s s'" "se_owned s' = se_owned s"
    "se_buffers s' = (se_buffers s)(t_id t \<mapsto> plain_buffer t p)"
    "se_heap s' = (se_heap s)(p \<mapsto> replicate (unat (tb_nbytes (plain_buffer t p))) 0)" "tb_nbytes (plain_buffer t p) \<noteq> 0"
proof -
  let ?n = "estimate_tensor_bytes (t\<lparr>t_dtype := DT_F32\<rparr>)"
  obtain q a where q: "allocate_bytes (mem k) (base k) ?n (se_allocator s) = (q, a)"
    by (cases "allocate_bytes (mem k) (base k) ?n (se_allocator s)")
  have n: "?n \<noteq> 0" using assms(1) by (auto simp: allocate_plain_def allocate_tensor_def Let_def)
  obtain p where p: "q = Inr p" using assms(1) q n
    by (cases q) (auto simp: allocate_plain_def allocate_tensor_def Let_def)
  let ?b = "(tensor_buffer.truncate blank_buffer)\<lparr>tb_id := t_id t, tb_dtype := DT_F32, tb_shape := t_shape t,
     tb_data := p, tb_nbytes := ?n, tb_owned := True\<rparr>"
  have ext: "tensor_buffer.extend ?b \<lparr>sb_staged = None\<rparr> = plain_buffer t p"
    by (simp add: plain_buffer_def blank_buffer_def tensor_buffer.defs session_buffer.defs)
  have "s' = add_buffer (t_id t) (plain_buffer t p)
      (s\<lparr>se_allocator := a, se_heap := (se_heap s)(p \<mapsto> replicate (unat ?n) 0)\<rparr>)"
    using assms(1) q p n ext by (simp add: allocate_plain_def allocate_tensor_def Let_def)
  then have s': "s' = s\<lparr>se_allocator := a, se_heap := (se_heap s)(p \<mapsto> replicate (unat ?n) 0),
      se_buffers := (se_buffers s)(t_id t \<mapsto> plain_buffer t p)\<rparr>"
    using assms(2) by (simp add: add_buffer_def emplace_def)
  show thesis
  proof (rule that [of p])
    show "alloc_only s s'" unfolding s' by (simp add: alloc_only_def)
  qed (use n in \<open>simp_all add: s' plain_buffer_def\<close>)
qed

lemma each_allocated:
  assumes "allocate_each mem base k ts s = (Inr (), s')" "se_streaming s = None" "distinct (map t_id ts)"
    "\<And>t. t \<in> set ts \<Longrightarrow> se_buffers s (t_id t) = None" "\<And>t. t \<in> set ts \<Longrightarrow> \<not> stays_packed s t"
  shows "alloc_only s s' \<and> (\<forall>i. i \<notin> t_id ` set ts \<longrightarrow> se_buffers s' i = se_buffers s i) \<and>
    (\<forall>a. (\<forall>t \<in> set ts. tb_data (the (se_buffers s' (t_id t))) \<noteq> a) \<longrightarrow> se_heap s' a = se_heap s a) \<and>
    (\<forall>t \<in> set ts. \<exists>p. se_buffers s' (t_id t) = Some (plain_buffer t p) \<and> tb_nbytes (plain_buffer t p) \<noteq> 0 \<and>
       (blocks_apart (se_buffers s') \<longrightarrow> zero_block s' (plain_buffer t p)))"
  using assms
proof (induction ts arbitrary: k s)
  case (Cons t ts)
  have ns: "\<not> streamed s (t_id t)" using Cons.prems(2) by (simp add: streamed_def)
  have c: "coercible (t_dtype t)" using Cons.prems(1) by (auto split: if_splits)
  have np: "\<not> stays_packed s t" using Cons.prems(5) by simp
  obtain r s1 where al: "allocate_plain mem base k t s = (r, s1)" by (cases "allocate_plain mem base k t s")
  have r: "r = Inr ()" and step: "allocate_each mem base (Suc k) ts s1 = (Inr (), s')"
    using Cons.prems(1) ns c np al by (auto split: sum.splits)
  obtain p where p: "alloc_only s s1" "se_owned s1 = se_owned s"
    "se_buffers s1 = (se_buffers s)(t_id t \<mapsto> plain_buffer t p)"
    "se_heap s1 = (se_heap s)(p \<mapsto> replicate (unat (tb_nbytes (plain_buffer t p))) 0)" "tb_nbytes (plain_buffer t p) \<noteq> 0"
    using allocate_plain_ok [OF al [unfolded r]] Cons.prems(4) [of t] by auto
  have d: "distinct (map t_id ts)" "t_id t \<notin> t_id ` set ts" using Cons.prems(3) by auto
  have str: "se_streaming s1 = None" using alloc_only_fields(1) [OF p(1)] Cons.prems(2) by simp
  have free: "se_buffers s1 (t_id u) = None" if "u \<in> set ts" for u
    using Cons.prems(4) [of u] that d(2) unfolding p(3) by (auto simp: image_iff)
  have np': "\<not> stays_packed s1 u" if "u \<in> set ts" for u
    using Cons.prems(5) [of u] that alloc_only_fields(4) [OF p(1)] by (simp add: stays_packed_def)
  note ih = Cons.IH [OF step str d(1) free np']
  have here: "se_buffers s' (t_id t) = Some (plain_buffer t p)"
  proof -
    have "se_buffers s' (t_id t) = se_buffers s1 (t_id t)" using ih d(2) by blast
    then show ?thesis by (simp add: p(3))
  qed
  have dat: "tb_data (plain_buffer t p) = p" by (simp add: plain_buffer_def)
  have "zero_block s' (plain_buffer t p)" if ap: "blocks_apart (se_buffers s')"
  proof -
    have "tb_data (the (se_buffers s' (t_id u))) \<noteq> p" if u: "u \<in> set ts" for u
    proof
      assume eq: "tb_data (the (se_buffers s' (t_id u))) = p"
      obtain b where b: "se_buffers s' (t_id u) = Some b" using ih u by blast
      then have "t_id u = t_id t" using blocks_apartD [OF ap b here] eq dat by simp
      then show False using d(2) u by (metis image_eqI)
    qed
    then have "se_heap s' p = se_heap s1 p" using ih by blast
    then show ?thesis using p(4) dat by (simp add: zero_block_def)
  qed
  moreover have "se_heap s' a = se_heap s a" if "\<forall>u \<in> set (t # ts). tb_data (the (se_buffers s' (t_id u))) \<noteq> a" for a
  proof -
    have "p \<noteq> a" using that here dat by simp
    moreover have "se_heap s' a = se_heap s1 a" using ih that by simp
    ultimately show ?thesis using p(4) by simp
  qed
  moreover have "se_buffers s' i = se_buffers s i" if "i \<notin> t_id ` set (t # ts)" for i
  proof -
    have "se_buffers s' i = se_buffers s1 i" using ih that by simp
    then show ?thesis using that by (simp add: p(3))
  qed
  moreover have "alloc_only s s'" using alloc_only_trans [OF p(1)] ih by blast
  moreover have "\<exists>q. se_buffers s' (t_id t) = Some (plain_buffer t q) \<and> tb_nbytes (plain_buffer t q) \<noteq> 0 \<and>
      (blocks_apart (se_buffers s') \<longrightarrow> zero_block s' (plain_buffer t q))"
    using here p(5) calculation(1) by blast
  ultimately show ?case using ih by simp
qed simp

end
