(* ===== verification/Session_Share.thy ===== *)
theory Session_Share
  imports Session_Alloc
begin

text \<open>
  \<open>generate\<close> with shared buffers, and the allocation that shares them.
\<close>

section \<open>Generation\<close>

lemma reuse_flag_only:
  assumes "same_rest s t"
  shows "sx_max_context (se_options t) = sx_max_context (se_options s)"
    "sx_kv_window (se_options t) = sx_kv_window (se_options s)" "sx_kv_sink (se_options t) = sx_kv_sink (se_options s)"
proof -
  obtain b where "se_options t = (se_options s)\<lparr>sx_enable_memory_reuse := b\<rparr>" using assms unfolding same_rest_def by metis
  then show "sx_max_context (se_options t) = sx_max_context (se_options s)"
    "sx_kv_window (se_options t) = sx_kv_window (se_options s)" "sx_kv_sink (se_options t) = sx_kv_sink (se_options s)"
    by simp_all
qed

lemma setup_fields:
  assumes "sim A s t"
  shows "session_max_context t = session_max_context s" "tokens_tensor t = tokens_tensor s"
    "scores_tensor w t = scores_tensor w s" "sx_kv_window (se_options t) = sx_kv_window (se_options s)"
    "sx_kv_sink (se_options t) = sx_kv_sink (se_options s)" "se_graph t = se_graph s" "se_kv t = se_kv s"
proof -
  have r: "same_rest s t" using assms by (rule sim_same)
  then have n: "se_names t = se_names s" and g: "se_graph t = se_graph s" "se_kv t = se_kv s" unfolding same_rest_def by blast+
  note o_eq = reuse_flag_only [OF r]
  show "session_max_context t = session_max_context s" by (simp only: session_max_context_def o_eq g)
  show "tokens_tensor t = tokens_tensor s" by (simp only: tokens_tensor_def n g)
  show "scores_tensor w t = scores_tensor w s" by (simp only: scores_tensor_def n g)
  show "sx_kv_window (se_options t) = sx_kv_window (se_options s)"
    "sx_kv_sink (se_options t) = sx_kv_sink (se_options s)" "se_graph t = se_graph s" "se_kv t = se_kv s"
    by (rule o_eq g)+
qed

lemma with_kv_sim: "sim A s t \<Longrightarrow> sim A (s\<lparr>se_kv := kv\<rparr>) (t\<lparr>se_kv := kv\<rparr>)"
proof -
  assume a: "sim A s t"
  then have "same_rest s t" by (rule sim_same)
  then have "same_rest (s\<lparr>se_kv := kv\<rparr>) (t\<lparr>se_kv := kv\<rparr>)" by (simp add: same_rest_def)
  then show ?thesis by (rule sim_frame [OF a]) simp_all
qed

lemma with_cancel_sim: "sim A s t \<Longrightarrow> sim A (s\<lparr>se_cancel := c\<rparr>) (t\<lparr>se_cancel := c\<rparr>)"
proof -
  assume a: "sim A s t"
  then have "same_rest s t" by (rule sim_same)
  then have "same_rest (s\<lparr>se_cancel := c\<rparr>) (t\<lparr>se_cancel := c\<rparr>)" by (simp add: same_rest_def)
  then show ?thesis by (rule sim_frame [OF a]) simp_all
qed

lemma set_scale_sim: "sim A s t \<Longrightarrow> sim A (set_scale n s) (set_scale n t)"
  using with_kv_sim [of A s t "map_option (kv_set_rope_scale_len n) (se_kv s)"]
  by (simp add: set_scale_def sim_def same_rest_def)

text \<open>The setup reads the same in both sessions and changes the KV cache only.\<close>

definition setup_result ::
  "'f runtime_env \<Rightarrow> int list \<Rightarrow> int \<Rightarrow> bool \<Rightarrow> ('b, 'f) session \<Rightarrow> ((error + int option \<times> u64 \<times> u64) \<times> 'f kv_cache option) option"
  where "setup_result env prompt m w s = map_option (\<lambda>(x, s'). (x, se_kv s')) (generate_setup env prompt m w s)"

lemma setup_result_sim: "sim A s t \<Longrightarrow> setup_result env prompt m w t = setup_result env prompt m w s"
proof -
  assume a: "sim A s t"
  show ?thesis
    by (simp add: setup_result_def generate_setup_def Let_def setup_fields [OF a] split: sum.split option.split prod.split)
qed

lemma setup_sim:
  assumes "sim A s t"
  shows "(generate_setup env prompt m w s = None \<and> generate_setup env prompt m w t = None) \<or>
    (\<exists>x kv. generate_setup env prompt m w s = Some (x, s\<lparr>se_kv := kv\<rparr>) \<and> generate_setup env prompt m w t = Some (x, t\<lparr>se_kv := kv\<rparr>))"
proof (cases "generate_setup env prompt m w s")
  case None
  then show ?thesis using setup_result_sim [OF assms, of env prompt m w] by (simp add: setup_result_def)
next
  case (Some xs)
  obtain x s' where xs: "xs = (x, s')" by (cases xs)
  then obtain t' where t: "generate_setup env prompt m w t = Some (x, t')" "se_kv t' = se_kv s'"
    using setup_result_sim [OF assms, of env prompt m w] Some by (auto simp: setup_result_def)
  have "s' = s\<lparr>se_kv := se_kv s'\<rparr>" "t' = t\<lparr>se_kv := se_kv s'\<rparr>"
    using setup_state [OF Some [unfolded xs]] setup_state [OF t(1)] t(2) by simp_all
  then show ?thesis using Some t(1) unfolding xs by metis
qed

text \<open>What a call returns, without the session it leaves.\<close>

definition returned :: "((error + unit) \<times> int list \<times> 'g \<times> ('b, 'f) session) option \<Rightarrow> ((error + unit) \<times> int list \<times> 'g) option" where
  "returned = map_option (\<lambda>(r, out, g, s). (r, out, g))"

lemma generate_sim:
  assumes B: "overwrites (bk_dispatch B)" "overwrites (bk_dispatch_host B)"
    and sim: "sim (lasting g p) s t" and sh: "sharing g p s t"
    and i: "\<And>i. tokens_tensor s = Inr i \<Longrightarrow> i \<in> lasting g p" "\<And>i. scores_tensor (\<not> sm_greedy sm) s = Inr i \<Longrightarrow> i \<in> lasting g p"
  shows "returned (generate env B sm prompt m stops cb gen out s) = returned (generate env B sm prompt m stops cb gen out t)"
proof (cases "se_ready s \<and> prompt \<noteq> [] \<and> 0 \<le> m")
  case False
  have "se_ready t = se_ready s" using sim_same [OF sim] by (simp add: same_rest_def)
  then show ?thesis using False by (auto simp: generate_def returned_def)
next
  case True
  have ready: "se_ready t = se_ready s" using sim_same [OF sim] by (simp add: same_rest_def)
  let ?sa = "s\<lparr>se_cancel := False\<rparr>" let ?ta = "t\<lparr>se_cancel := False\<rparr>"
  let ?s = "tick env ?sa" let ?t = "tick env ?ta"
  have sim0: "sim (lasting g p) ?sa ?ta" by (rule with_cancel_sim [OF sim])
  have sh0: "sharing g p ?sa ?ta" using sh by (simp add: sharing_def)
  note tk = tick_sim(1) [OF sim0, of env] and shk = tick_sharing [OF sim0 sh0, of env] and rej = paused_sim [OF sim0, of env]
  have names: "se_names ?s = se_names s" "se_graph ?s = se_graph s"
    using tick_same [of ?sa env] by (simp_all add: same_but_events_def)
  have fields: "tokens_tensor ?s = tokens_tensor s" "scores_tensor w ?s = scores_tensor w s" for w
    by (simp_all only: tokens_tensor_def scores_tensor_def names)
  let ?w = "\<not> sm_greedy sm"
  show ?thesis
  proof (cases "reject_if_paused ?s")
    case (Inl e)
    then show ?thesis using True ready rej by (simp add: generate_def Let_def returned_def)
  next
    case (Inr u)
    note go = Inr trans [OF rej Inr]
    from setup_sim [OF tk, of env prompt m ?w] show ?thesis
    proof (elim disjE exE conjE)
      assume "generate_setup env prompt m ?w ?s = None" "generate_setup env prompt m ?w ?t = None"
      then show ?thesis using True ready go by (simp add: generate_def Let_def)
    next
      fix x kv
      assume su: "generate_setup env prompt m ?w ?s = Some (x, ?s\<lparr>se_kv := kv\<rparr>)"
        "generate_setup env prompt m ?w ?t = Some (x, ?t\<lparr>se_kv := kv\<rparr>)"
      show ?thesis
      proof (cases x)
        case (Inl e)
        then show ?thesis using True ready go su by (simp add: generate_def Let_def returned_def)
      next
        case xr: (Inr y)
        obtain limit ti si where x: "x = Inr (limit, ti, si)" using xr by (cases y) auto
        have ids: "ti \<in> lasting g p" "si \<in> lasting g p"
          using setup_state [OF su(1)] x fields i by auto
        let ?sb = "set_scale (int (length prompt)) (?s\<lparr>se_kv := kv\<rparr>)" let ?tb = "set_scale (int (length prompt)) (?t\<lparr>se_kv := kv\<rparr>)"
        have sim1: "sim (lasting g p) ?sb ?tb" by (rule set_scale_sim [OF with_kv_sim [OF tk]])
        have sh1: "sharing g p ?sb ?tb" using shk by (simp add: sharing_def set_scale_def)
        obtain r out' s2 t2 where pf: "prefill env B limit ti prompt [] ?sb = Some (r, out', s2)"
          "prefill env B limit ti prompt [] ?tb = Some (r, out', t2)"
          and ok: "r = Inr () \<Longrightarrow> sim (lasting g p) s2 t2 \<and> sharing g p s2 t2"
          using prefill_sim [OF B ids(1) sim1 sh1] by blast
        have eqs: "generate env B sm prompt m stops cb gen out s = (case prefill env B limit ti prompt [] ?sb of
               None \<Rightarrow> None
             | Some (Inl e, out, s) \<Rightarrow> Some (Inl e, out, gen, set_scale 0 s)
             | Some (Inr _, out, s) \<Rightarrow> map_option (\<lambda>(r, out, g, s). (r, out, g, set_scale 0 s))
                 (decode env B sm stops cb limit ti si (nat m) out gen (set_scale 0 s)))"
          "generate env B sm prompt m stops cb gen out t = (case prefill env B limit ti prompt [] ?tb of
               None \<Rightarrow> None
             | Some (Inl e, out, s) \<Rightarrow> Some (Inl e, out, gen, set_scale 0 s)
             | Some (Inr _, out, s) \<Rightarrow> map_option (\<lambda>(r, out, g, s). (r, out, g, set_scale 0 s))
                 (decode env B sm stops cb limit ti si (nat m) out gen (set_scale 0 s)))"
          using True ready go su x by (simp_all add: generate_def Let_def)
        show ?thesis
        proof (cases r)
          case (Inl e)
          then show ?thesis unfolding eqs pf by (simp add: returned_def)
        next
          case (Inr v)
          then have ok2: "sim (lasting g p) s2 t2" "sharing g p s2 t2" using ok by simp_all
          note sim2 = set_scale_sim [OF ok2(1), of 0]
          have sh2: "sharing g p (set_scale 0 s2) (set_scale 0 t2)" using ok2(2) by (simp add: sharing_def set_scale_def)
          obtain q out2 gen2 s3 t3 where d: "decode env B sm stops cb limit ti si (nat m) out' gen (set_scale 0 s2) = Some (q, out2, gen2, s3)"
            "decode env B sm stops cb limit ti si (nat m) out' gen (set_scale 0 t2) = Some (q, out2, gen2, t3)"
            using decode_sim [OF B ids sim2 sh2, where env = env and sm = sm and stops = stops and cb = cb and ctx = limit
                and n = "nat m" and out = out' and gen = gen] by blast
          then show ?thesis unfolding eqs pf Inr by (simp add: returned_def)
        qed
      qed
    qed
  qed
qed

section \<open>The allocated sessions\<close>

text \<open>Every input of a node is a weight, a graph input or output, or is produced by another node.\<close>

definition kept_tensor :: "graph \<Rightarrow> u64 \<Rightarrow> bool" where
  "kept_tensor g i \<longleftrightarrow> i \<in> set (g_inputs g) \<or> i \<in> set (g_outputs g) \<or> (\<exists>t \<in> set (g_tensors g). t_id t = i \<and> t_is_weight t)"

definition wired :: "graph \<Rightarrow> bool" where
  "wired g \<longleftrightarrow> (\<forall>n \<in> set (g_nodes g). \<forall>i \<in> set (n_inputs n). kept_tensor g i \<or>
     (case producer_of (g_nodes g) i of None \<Rightarrow> False | Some q \<Rightarrow> q \<noteq> n_id n))"

text \<open>Tensors whose size in the memory plan is the size of their f32 view.\<close>

definition word_sized :: "graph \<Rightarrow> bool" where
  "word_sized g \<longleftrightarrow> (\<forall>t \<in> set (g_tensors g). t_dtype t = DT_F32 \<or> t_dtype t = DT_I32)"

lemma flags_kept:
  assumes "lives_of g p i = Some l" "distinct (map t_id (g_tensors g))"
  shows "dedicated l \<longleftrightarrow> kept_tensor g i"
proof -
  let ?P = "\<lambda>i l. dedicated l \<longleftrightarrow> kept_tensor g i"
  have "fold (\<lambda>t m. m(t_id t \<mapsto> init_lifetime g p t)) ts Map.empty i = Some l \<Longrightarrow>
      \<exists>t \<in> set ts. t_id t = i \<and> l = init_lifetime g p t" for ts l
    by (induction ts rule: rev_induct) (auto split: if_splits)
  then have init: "init_lives g p i = Some l \<Longrightarrow> ?P i l" for l
    using assms(2) by (fastforce simp: init_lives_def init_lifetime_def Let_def dedicated_def kept_tensor_def distinct_map inj_on_def)
  have "fold scan_op (enumerate k ops) m i = Some l \<Longrightarrow> (\<And>l. m i = Some l \<Longrightarrow> ?P i l) \<Longrightarrow> ?P i l" for k ops m l
  proof (induction ops arbitrary: k m)
    case (Cons op ops)
    have "\<And>l. scan_op (k, op) m i = Some l \<Longrightarrow> ?P i l"
      by (rule scan_op_keeps [where P = "?P i" and oi = k and op = op and m = m])
        (use Cons.prems(2) in \<open>simp_all add: dedicated_def\<close>)
    then show ?case using Cons.IH [of "Suc k" "scan_op (k, op) m"] Cons.prems(1) by simp
  qed simp
  from this [of 0 "ep_ops p" "init_lives g p" l] init assms(1) show ?thesis by (simp add: lives_of_def)
qed

lemma lives_dom: "lives_of g p i \<noteq> None \<longleftrightarrow> i \<in> t_id ` set (g_tensors g)"
  using lives_ok_lives_of [of g p] last_tensor_dom [of "g_tensors g" i]
  by (auto simp: lives_ok_def dest!: spec [of _ i] split: option.splits)

lemma kept_lasting:
  assumes "distinct (map t_id (g_tensors g))"
  shows "i \<in> lasting g p \<longleftrightarrow> i \<in> t_id ` set (g_tensors g) \<and> kept_tensor g i"
  using flags_kept [OF _ assms, of p i] lives_dom [of g p i] by (auto simp: lasting_def)

lemma plan_named:
  assumes "build_execution_plan hm hs g = Some (Inr p)"
  shows "plan_names g p"
proof (cases "g_nodes g = []")
  case True
  then show ?thesis using assms by (auto simp: build_execution_plan_def plan_skeleton_def plan_names_def)
next
  case False
  have d: "distinct (map n_id (g_nodes g))" using plan_success_cases [OF assms False] by metis
  show ?thesis unfolding plan_names_def
  proof
    fix op assume "op \<in> set (ep_ops p)"
    then obtain k where "k < length (ep_ops p)" "ep_ops p ! k = op" by (auto simp: in_set_conv_nth)
    then obtain n where n: "n \<in> set (g_nodes g)" "po_node_id op = n_id n" "po_inputs op = n_inputs n" "po_outputs op = n_outputs n"
      using built_plan_topological [OF assms] by blast
    have "find_node g (po_node_id op) = Some n" using find_node_distinct [OF d n(1)] n(2) by simp
    then show "\<exists>n. find_node g (po_node_id op) = Some n \<and> n_inputs n = po_inputs op \<and> n_outputs n = po_outputs op"
      using n by auto
  qed
qed

lemma wired_fed:
  assumes "build_execution_plan hm hs g = Some (Inr p)" "wired g" "distinct (map t_id (g_tensors g))"
  shows "fed g p"
  unfolding fed_def
proof (intro allI impI ballI)
  fix k i assume k: "k < length (ep_ops p)" and i: "i \<in> set (po_inputs (ep_ops p ! k))" "lives_of g p i \<noteq> None"
  have ne: "g_nodes g \<noteq> []" using assms(1) k by (auto simp: build_execution_plan_def plan_skeleton_def split: if_splits)
  have d: "distinct (map n_id (g_nodes g))" using plan_success_cases [OF assms(1) ne] by metis
  note top = built_plan_topological [OF assms(1)]
  obtain n where n: "n \<in> set (g_nodes g)" "po_node_id (ep_ops p ! k) = n_id n" "po_inputs (ep_ops p ! k) = n_inputs n"
    "set (po_dependencies (ep_ops p ! k)) = {q. (q, n_id n) \<in> depends (g_nodes g)}"
    "\<forall>d \<in> set (po_dependencies (ep_ops p ! k)). \<exists>j < k. po_node_id (ep_ops p ! j) = d"
    using top k by blast
  show "i \<in> lasting g p \<or> (\<exists>j < k. i \<in> set (po_outputs (ep_ops p ! j)))"
  proof (cases "kept_tensor g i")
    case True
    then show ?thesis using i(2) lives_dom [of g p i] by (simp add: kept_lasting [OF assms(3)])
  next
    case False
    then obtain q where q: "producer_of (g_nodes g) i = Some q" "q \<noteq> n_id n"
      using assms(2) [unfolded wired_def, rule_format, OF n(1), of i] i(1) n(3)
      by (cases "producer_of (g_nodes g) i") simp_all
    have "(q, n_id n) \<in> depends (g_nodes g)" using q i(1) n(1,3) by (auto simp: depends_def)
    then obtain j where j: "j < k" "po_node_id (ep_ops p ! j) = q" using n(4,5) by blast
    have jl: "j < length (ep_ops p)" using j(1) k by simp
    obtain m where m: "m \<in> set (g_nodes g)" "po_node_id (ep_ops p ! j) = n_id m" "po_outputs (ep_ops p ! j) = n_outputs m"
      using top jl by blast
    obtain m' where m': "m' \<in> set (g_nodes g)" "n_id m' = q" "i \<in> set (n_outputs m')"
      using producer_of_SomeD [OF q(1)] by blast
    have "m' = m" using d m m' j(2) by (auto simp: distinct_map inj_on_def)
    then show ?thesis using m(3) m'(3) j(1) by auto
  qed
qed

lemma slot_ids:
  assumes "m = build_memory_reuse_plan h g p"
  shows "map bs_slot_id (mr_slots m) = [0..<length (mr_slots m)]"
proof -
  let ?ls = "lifetimes_of h g p"
  have ids: "distinct (map lt_tensor_id ?ls)" unfolding lifetimes_of_spec(1) by simp
  obtain done' where inv: "reuse_inv (lives_of g p) done' (assign_slots ?ls)"
    using assign_slots_inv [of ?ls "lives_of g p"] lifetimes_of_spec(2) ids by blast
  have "mr_slots m = ru_slots (assign_slots ?ls)" by (simp add: assms build_memory_reuse_plan_def Let_def)
  then show ?thesis using inv by (auto simp: reuse_inv_def intro!: nth_equalityI)
qed

lemma last_tensor_unique:
  assumes "distinct (map t_id ts)" "t \<in> set ts" "last_tensor ts (t_id t) = Some u"
  shows "u = t"
proof -
  have "last_tensor ts i = Some u \<Longrightarrow> u \<in> set ts \<and> t_id u = i" for ts i
    by (induction ts rule: rev_induct) (auto simp: last_tensor_def split: if_splits)
  from this [OF assms(3)] show ?thesis using assms(1,2) by (auto simp: distinct_map inj_on_def)
qed

lemma slot_holds:
  assumes m: "m = build_memory_reuse_plan h g p" and d: "distinct (map t_id (g_tensors g))"
    and t: "t \<in> set (g_tensors g)" "mr_tensor_to_slot m (t_id t) = Some k"
  shows "k < length (mr_slots m) \<and> estimate_tensor_bytes t \<le> bs_bytes (mr_slots m ! k)"
proof -
  note safe = reuse_plan_safe [OF m]
  obtain q where q: "q < length (mr_slots m)" "mr_tensor_to_slot m (t_id t) = Some q" "t_id t \<in> set (bs_tenants (mr_slots m ! q))"
    using safe t(1) by blast
  have qk: "q = k" using q(2) t(2) by simp
  obtain l where l: "lives_of g p (t_id t) = Some l" using lives_dom [of g p "t_id t"] t(1) by auto
  obtain u where u: "last_tensor (g_tensors g) (t_id t) = Some u" "lt_bytes l = estimate_tensor_bytes u"
    using lives_ok_lives_of [of g p] l by (fastforce simp: lives_ok_def dest: spec [of _ "t_id t"])
  have "u = t" using last_tensor_unique [OF d t(1) u(1)] .
  moreover have "lt_bytes (the (lives_of g p (t_id t))) \<le> bs_bytes (mr_slots m ! q)"
    using safe q(1,3) nth_mem by blast
  ultimately show ?thesis using l u(2) q(1) qk by simp
qed

lemma word_sized_bytes:
  assumes "t_dtype t = DT_F32 \<or> t_dtype t = DT_I32" "estimate_tensor_bytes (t\<lparr>t_dtype := DT_F32\<rparr>) \<noteq> 0"
  shows "view_nbytes t = estimate_tensor_bytes t" "estimate_tensor_bytes (t\<lparr>t_dtype := DT_F32\<rparr>) = estimate_tensor_bytes t"
proof -
  have n: "shape_numel (t_shape t) \<noteq> 0" using assms(2) by (auto simp: estimate_tensor_bytes_def Let_def)
  then have "shape_numel (t_shape t) > 0" by (simp add: word_neq_0_conv)
  then show "view_nbytes t = estimate_tensor_bytes t" "estimate_tensor_bytes (t\<lparr>t_dtype := DT_F32\<rparr>) = estimate_tensor_bytes t"
    using n assms(1) by (auto simp: view_nbytes_def estimate_tensor_bytes_def Let_def mult.commute)
qed

text \<open>A session as \<open>create\<close> leaves it before the allocation.\<close>

definition unallocated :: "('b, 'f) session \<Rightarrow> bool" where
  "unallocated s \<longleftrightarrow> se_buffers s = Map.empty \<and> se_owned s = Map.empty \<and> se_streaming s = None"

text \<open>The same session without memory reuse.\<close>

definition reuse_off :: "('b, 'f) session \<Rightarrow> ('b, 'f) session" where
  "reuse_off s = s\<lparr>se_options := (se_options s)\<lparr>sx_enable_memory_reuse := False\<rparr>\<rparr>"

lemma alloc_same_rest:
  assumes "alloc_only s0 s" "alloc_only (reuse_off s0) t" "se_streaming s0 = None"
  shows "same_rest s t"
  using assms by (cases s0, cases s, cases t) (simp add: alloc_only_def same_rest_def reuse_off_def)

lemma zero_content:
  assumes "se_buffers s i = Some b" "sb_staged b = None" "tb_data b \<noteq> 0" "se_heap s (tb_data b) = Some (replicate n 0)"
    "unat (tb_nbytes b) \<le> n"
  shows "content s i = Some (replicate (unat (tb_nbytes b)) 0)"
  using assms by (simp add: content_def read_bytes_def block_at_def min_def)

lemma shared_allocation:
  assumes s0: "se_graph s0 = g" "se_memory_plan s0 = build_memory_reuse_plan h g p" "unallocated s0"
    and d: "distinct (map t_id (g_tensors g))" and on: "sx_enable_memory_reuse (se_options s0)" "g_tensors g \<noteq> []"
    and s: "allocate_all_tensors mem base s0 = (Inr (), s)" "blocks_apart (se_owned s)"
  shows "alloc_only s0 s" "\<forall>i. i \<notin> t_id ` set (g_tensors g) \<longrightarrow> se_buffers s i = None"
    "\<forall>t \<in> set (g_tensors g). \<exists>k b. mr_tensor_to_slot (build_memory_reuse_plan h g p) (t_id t) = Some k \<and> se_owned s k = Some b \<and>
       se_buffers s (t_id t) = Some (plain_view t (tb_data b))"
    "k < length (mr_slots (build_memory_reuse_plan h g p)) \<Longrightarrow> \<exists>b. se_owned s k = Some b \<and>
       tb_nbytes b = bs_bytes (mr_slots (build_memory_reuse_plan h g p) ! k) \<and> zero_block s b"
proof -
  let ?m = "build_memory_reuse_plan h g p"
  have slots: "mr_slots ?m \<noteq> []" using reuse_plan_safe [OF refl, of g h p] on(2) by (cases "g_tensors g") auto
  obtain s1 where s1: "allocate_slots mem base 0 (mr_slots ?m) s0 = (Inr (), s1)" "make_views (g_tensors g) s1 = (Inr (), s)"
  proof -
    obtain r s1 where a: "allocate_slots mem base 0 (mr_slots ?m) s0 = (r, s1)" by (cases "allocate_slots mem base 0 (mr_slots ?m) s0")
    have b: "(case r of Inl e \<Rightarrow> (Inl e, s1) | Inr _ \<Rightarrow> make_views (g_tensors (se_graph s1)) s1) = (Inr (), s)"
      using s(1) s0(2) on(1) slots a by (simp add: allocate_all_tensors_def)
    have r: "r = Inr ()" using b by (cases r) simp_all
    have "alloc_only s0 s1" using slots_allocated [OF a [unfolded r]] s0(3) by (simp add: slot_ids unallocated_def)
    then have "se_graph s1 = g" using alloc_only_fields(3) s0(1) by metis
    then show thesis using that a b r by simp
  qed
  have str: "se_streaming s0 = None" "se_buffers s0 = Map.empty" using s0(3) by (simp_all add: unallocated_def)
  have sl: "alloc_only s0 s1" "se_buffers s1 = Map.empty"
    "\<forall>sl \<in> set (mr_slots ?m). \<exists>b. se_owned s1 (bs_slot_id sl) = Some b \<and> tb_nbytes b = bs_bytes sl \<and>
       (blocks_apart (se_owned s1) \<longrightarrow> zero_block s1 b)"
    using slots_allocated [OF s1(1) str(1)] str(2) by (simp_all add: slot_ids)
  note f1 = alloc_only_fields [OF sl(1)]
  have vw: "s = s1\<lparr>se_buffers := se_buffers s\<rparr>" "\<forall>i. i \<notin> t_id ` set (g_tensors g) \<longrightarrow> se_buffers s i = None"
    "\<forall>t \<in> set (g_tensors g). \<exists>sid ob. mr_tensor_to_slot ?m (t_id t) = Some sid \<and> se_owned s1 sid = Some ob \<and>
       se_buffers s (t_id t) = Some (plain_view t (tb_data ob))"
    using views_made [OF s1(2)] f1(1,2) str(1) sl(2) d s0(2) by simp_all
  have own: "se_owned s = se_owned s1" "se_heap s = se_heap s1"
    using arg_cong [OF vw(1), of se_owned] arg_cong [OF vw(1), of se_heap] by simp_all
  show "alloc_only s0 s" by (rule alloc_only_trans [OF sl(1)]) (subst vw(1), simp add: alloc_only_def)
  show "\<forall>i. i \<notin> t_id ` set (g_tensors g) \<longrightarrow> se_buffers s i = None" by (rule vw(2))
  show "\<forall>t \<in> set (g_tensors g). \<exists>k b. mr_tensor_to_slot ?m (t_id t) = Some k \<and> se_owned s k = Some b \<and>
       se_buffers s (t_id t) = Some (plain_view t (tb_data b))" using vw(3) own(1) by simp
  show "\<exists>b. se_owned s k = Some b \<and> tb_nbytes b = bs_bytes (mr_slots ?m ! k) \<and> zero_block s b" if "k < length (mr_slots ?m)"
  proof -
    have "bs_slot_id (mr_slots ?m ! k) = k" using arg_cong [OF slot_ids [OF refl, of h g p], of "\<lambda>xs. xs ! k"] that by simp
    then show ?thesis using sl(3) own s(2) that nth_mem by (metis zero_block_def)
  qed
qed

lemma allocated_twins:
  assumes plan: "build_execution_plan hm hs g = Some (Inr p)"
    and s0: "se_graph s0 = g" "se_plan s0 = p" "se_memory_plan s0 = build_memory_reuse_plan h g p" "unallocated s0"
    and d: "distinct (map t_id (g_tensors g))" and wired: "wired g" and ws: "word_sized g"
    and np: "\<forall>t \<in> set (g_tensors g). \<not> stays_packed s0 t"
    and on: "sx_enable_memory_reuse (se_options s0)" "g_tensors g \<noteq> []"
    and s: "allocate_all_tensors mem base s0 = (Inr (), s)" "blocks_apart (se_owned s)"
    and t: "allocate_all_tensors mem' base' (reuse_off s0) = (Inr (), t)" "blocks_apart (se_buffers t)"
  shows "sim UNIV s t" "sharing g p s t"
proof -
  let ?m = "build_memory_reuse_plan h g p"
  have str: "se_streaming s0 = None" using s0(4) by (simp add: unallocated_def)
  note shared = shared_allocation [OF s0(1,3,4) d on s]
  let ?r = "reuse_off s0"
  have r0: "se_streaming ?r = None" "se_buffers ?r = Map.empty" "se_graph ?r = g" "\<forall>x \<in> set (g_tensors g). \<not> stays_packed ?r x"
    using s0(4,1) np by (simp_all add: reuse_off_def stays_packed_def unallocated_def)
  have each: "allocate_each mem' base' 0 (g_tensors g) ?r = (Inr (), t)"
    using t(1) s0(1) by (simp add: allocate_all_tensors_def reuse_off_def)
  have tb: "alloc_only ?r t" "\<forall>i. i \<notin> t_id ` set (g_tensors g) \<longrightarrow> se_buffers t i = None"
    "\<forall>x \<in> set (g_tensors g). \<exists>q. se_buffers t (t_id x) = Some (plain_buffer x q) \<and> tb_nbytes (plain_buffer x q) \<noteq> 0 \<and>
       zero_block t (plain_buffer x q)"
    using each_allocated [OF each r0(1) d] r0(2,4) t(2) by simp_all
  have per: "\<exists>k ob q. mr_tensor_to_slot ?m (t_id x) = Some k \<and> se_owned s k = Some ob \<and>
      se_buffers s (t_id x) = Some (plain_view x (tb_data ob)) \<and> se_buffers t (t_id x) = Some (plain_buffer x q) \<and>
      twin (plain_view x (tb_data ob)) (plain_buffer x q) \<and>
      content s (t_id x) = Some (replicate (unat (view_nbytes x)) 0) \<and>
      content t (t_id x) = Some (replicate (unat (view_nbytes x)) 0) \<and>
      (\<exists>bs. se_heap s (tb_data ob) = Some bs \<and> unat (view_nbytes x) \<le> length bs) \<and>
      (\<exists>bs. se_heap t q = Some bs \<and> unat (view_nbytes x) \<le> length bs)"
    if x: "x \<in> set (g_tensors g)" for x
  proof -
    obtain k ob where k: "mr_tensor_to_slot ?m (t_id x) = Some k" "se_owned s k = Some ob"
      "se_buffers s (t_id x) = Some (plain_view x (tb_data ob))" using shared(3) x by blast
    obtain q where q: "se_buffers t (t_id x) = Some (plain_buffer x q)" "tb_nbytes (plain_buffer x q) \<noteq> 0"
      "zero_block t (plain_buffer x q)" using tb(3) x by blast
    have nb: "view_nbytes x = estimate_tensor_bytes x" "estimate_tensor_bytes (x\<lparr>t_dtype := DT_F32\<rparr>) = estimate_tensor_bytes x"
      using word_sized_bytes [of x] ws x q(2) by (simp_all add: word_sized_def plain_buffer_def)
    have pos: "k < length (mr_slots ?m)" "estimate_tensor_bytes x \<le> bs_bytes (mr_slots ?m ! k)"
      using slot_holds [OF refl d x k(1)] by simp_all
    obtain b where b: "se_owned s k = Some b" "tb_nbytes b = bs_bytes (mr_slots ?m ! k)" "zero_block s b"
      using shared(4) [OF pos(1)] by blast
    have ob: "b = ob" using b(1) k(2) by simp
    have nz: "tb_data ob \<noteq> 0" "q \<noteq> 0"
      using blocks_apart_nonnull [OF s(2) b(1)] blocks_apart_nonnull [OF t(2) q(1)] ob by (simp_all add: plain_buffer_def)
    have le: "unat (view_nbytes x) \<le> unat (bs_bytes (mr_slots ?m ! k))" using pos(2) nb(1) by (simp add: word_le_nat_alt)
    have hs: "se_heap s (tb_data ob) = Some (replicate (unat (bs_bytes (mr_slots ?m ! k))) 0)"
      using b ob by (simp add: zero_block_def)
    have ht: "se_heap t q = Some (replicate (unat (view_nbytes x)) 0)"
      using q(3) nb by (simp add: zero_block_def plain_buffer_def)
    have tw: "twin (plain_view x (tb_data ob)) (plain_buffer x q)"
      using nz nb by (simp add: twin_def view_of_def plain_view_def plain_buffer_def blank_buffer_def)
    have cs: "content s (t_id x) = Some (replicate (unat (view_nbytes x)) 0)"
      using zero_content [OF k(3) _ _ _ _] hs nz(1) le by (simp add: plain_view_def blank_buffer_def)
    have ct: "content t (t_id x) = Some (replicate (unat (view_nbytes x)) 0)"
      using zero_content [OF q(1), of "unat (view_nbytes x)"] ht nz(2) nb by (simp add: plain_buffer_def blank_buffer_def)
    show ?thesis using k(1) b(1) ob k(3) q(1) tw cs ct hs ht le by auto
  qed
  have outside: "se_buffers s i = None \<and> se_buffers t i = None" if "i \<notin> t_id ` set (g_tensors g)" for i
    using shared(2) tb(2) that by blast
  have bufs: "rel_fun (=) (rel_option twin) (se_buffers s) (se_buffers t)"
  proof (rule rel_funI)
    fix i j :: u64 assume "i = j"
    then show "rel_option twin (se_buffers s i) (se_buffers t j)"
      using per outside [of i] by (cases "i \<in> t_id ` set (g_tensors g)") force+
  qed
  have bk: "backed s" "backed t"
  proof -
    have "sb_staged b = None \<and> tb_data b \<noteq> 0 \<and> (\<exists>bs. se_heap s (tb_data b) = Some bs \<and> unat (tb_nbytes b) \<le> length bs)"
      if b: "se_buffers s i = Some b" for i b
    proof -
      obtain x where x: "x \<in> set (g_tensors g)" "i = t_id x" using outside [of i] b by auto
      show ?thesis using per [OF x(1)] b x(2) by (auto simp: plain_view_def blank_buffer_def twin_def)
    qed
    then show "backed s" by (simp add: backed_def)
    have "sb_staged b = None \<and> tb_data b \<noteq> 0 \<and> (\<exists>bs. se_heap t (tb_data b) = Some bs \<and> unat (tb_nbytes b) \<le> length bs)"
      if b: "se_buffers t i = Some b" for i b
    proof -
      obtain x where x: "x \<in> set (g_tensors g)" "i = t_id x" using outside [of i] b by auto
      obtain ob :: tensor_buffer and q where q: "se_buffers t i = Some (plain_buffer x q)" "twin (plain_view x (tb_data ob)) (plain_buffer x q)"
        "\<exists>bs. se_heap t q = Some bs \<and> unat (view_nbytes x) \<le> length bs" using per [OF x(1)] unfolding x(2) by blast
      then show ?thesis using b twin_fields [OF q(2)]
        by (auto simp: plain_buffer_def plain_view_def blank_buffer_def twin_def)
    qed
    then show "backed t" by (simp add: backed_def)
  qed
  have cont: "content s i = content t i" for i
  proof (cases "i \<in> t_id ` set (g_tensors g)")
    case True
    then obtain x where "x \<in> set (g_tensors g)" "i = t_id x" by blast
    then show ?thesis using per [of x] by auto
  next
    case False
    then show ?thesis using outside [of i] by (simp add: content_def)
  qed
  show "sim UNIV s t" using alloc_same_rest [OF shared(1) tb(1) str] bufs bk cont by (simp add: sim_def)
  have gp: "se_graph s = g" "se_plan s = p" using shared(1) s0(1,2) by (cases s0, cases s, simp add: alloc_only_def)+
  have "apart (placed g p k) (se_buffers s)" for k
    unfolding apart_def
  proof (intro ballI impI allI)
    fix i j b b' assume i: "i \<in> placed g p k" "se_buffers s i = Some b" and j: "j \<in> placed g p k" "se_buffers s j = Some b'" and ne: "i \<noteq> j"
    obtain x where x: "x \<in> set (g_tensors g)" "i = t_id x" using outside [of i] i(2) by auto
    obtain y where y: "y \<in> set (g_tensors g)" "j = t_id y" using outside [of j] j(2) by auto
    obtain ki oi where ki: "mr_tensor_to_slot ?m i = Some ki" "se_owned s ki = Some oi" "tb_data b = tb_data oi"
      using per [OF x(1)] x(2) i(2) by (auto simp: plain_view_def)
    obtain kj oj where kj: "mr_tensor_to_slot ?m j = Some kj" "se_owned s kj = Some oj" "tb_data b' = tb_data oj"
      using per [OF y(1)] y(2) j(2) by (auto simp: plain_view_def)
    have "ki \<noteq> kj" using placed_apart [OF refl i(1) _ j(1) _ ne, of h] x y ki(1) kj(1) by auto
    then show "tb_data b \<noteq> tb_data b'" using blocks_apartD [OF s(2) ki(2) kj(2)] ki(3) kj(3) by auto
  qed
  moreover have "apart UNIV (se_buffers t)" using blocks_apartD [OF t(2)] by (auto simp: apart_def)
  moreover have "lives_of g p i \<noteq> None" if "se_buffers s i \<noteq> None" for i
    using outside [of i] that lives_dom [of g p i] by auto
  ultimately show "sharing g p s t" using gp plan_named [OF plan] wired_fed [OF plan wired d] by (simp add: sharing_def)
qed

section \<open>A session in use\<close>

datatype session_call = SetTensor string "u8 list" | GetTensor string u64 | RunGraph

fun call_step ::
  "'f runtime_env \<Rightarrow> ('b, 'f) backend \<Rightarrow> session_call \<Rightarrow> ('b, 'f) session \<Rightarrow> ((error + u8 list) \<times> ('b, 'f) session) option" where
  "call_step env B (SetTensor n bs) s = map_option (\<lambda>(r, s). (map_sum id (\<lambda>_. []) r, s)) (set_tensor n bs s)"
| "call_step env B (GetTensor n nb) s = map_option (\<lambda>r. (r, s)) (get_tensor n nb s)"
| "call_step env B RunGraph s = map_option (\<lambda>(r, s). (map_sum id (\<lambda>_. []) r, s)) (run env B s)"

text \<open>The answers to a list of calls, and the session after them; both end with the first error.\<close>

fun session_calls ::
  "'f runtime_env \<Rightarrow> ('b, 'f) backend \<Rightarrow> session_call list \<Rightarrow> ('b, 'f) session
     \<Rightarrow> (error + u8 list) option list \<times> ('b, 'f) session option" where
  "session_calls env B [] s = ([], Some s)"
| "session_calls env B (c # cs) s = (case call_step env B c s of
     None \<Rightarrow> ([None], None)
   | Some (Inl e, s) \<Rightarrow> ([Some (Inl e)], None)
   | Some (Inr x, s) \<Rightarrow> (case session_calls env B cs s of (as, r) \<Rightarrow> (Some (Inr x) # as, r)))"

text \<open>The calls name weights and graph inputs and outputs only.\<close>

definition kept_name :: "graph \<Rightarrow> ('b, 'f) session \<Rightarrow> string \<Rightarrow> bool" where
  "kept_name g s n \<longleftrightarrow> (\<forall>i. resolve_tensor n s = Inr i \<longrightarrow> kept_tensor g i)"

fun kept_call :: "graph \<Rightarrow> ('b, 'f) session \<Rightarrow> session_call \<Rightarrow> bool" where
  "kept_call g s (SetTensor n bs) = kept_name g s n"
| "kept_call g s (GetTensor n nb) = kept_name g s n"
| "kept_call g s RunGraph = True"

lemma resolve_same:
  assumes "se_names t = se_names s" "\<And>i. se_buffers t i = None \<longleftrightarrow> se_buffers s i = None"
  shows "resolve_tensor n t = resolve_tensor n s"
  unfolding resolve_tensor_def assms ..

lemma kept_call_same:
  assumes "se_names t = se_names s" "se_buffers t = se_buffers s"
  shows "kept_call g t c = kept_call g s c"
  by (cases c) (simp_all add: kept_name_def resolve_same [OF assms(1)] assms(2))

lemma call_sim:
  assumes B: "overwrites (bk_dispatch B)" "overwrites (bk_dispatch_host B)"
    and sim: "sim (lasting g p) s t" and sh: "sharing g p s t" and d: "distinct (map t_id (g_tensors g))"
    and c: "kept_call g s c"
  shows "\<exists>r s' t'. call_step env B c s = Some (r, s') \<and> call_step env B c t = Some (r, t') \<and>
    (\<forall>x. r = Inr x \<longrightarrow> sim (lasting g p) s' t' \<and> sharing g p s' t' \<and> se_names s' = se_names s \<and> se_buffers s' = se_buffers s)"
proof -
  have rest: "se_ready t = se_ready s" "se_names t = se_names s" using sim_same [OF sim] by (simp_all add: same_rest_def)
  have rs: "resolve_tensor n t = resolve_tensor n s" for n by (rule resolve_same [OF rest(2) sim_none [OF sim]])
  have last: "i \<in> lasting g p" if "se_buffers s i \<noteq> None" "kept_tensor g i" for i
    using sh that kept_lasting [OF d, of i p] lives_dom [of g p i] by (simp add: sharing_def)
  show ?thesis
  proof (cases c)
    case (SetTensor n bs)
    show ?thesis
    proof (cases "se_ready s")
      case False
      then show ?thesis using SetTensor rest by (simp add: set_tensor_def)
    next
      case ready: True
      show ?thesis
      proof (cases "resolve_tensor n s")
        case (Inl e)
        then show ?thesis using SetTensor ready rest rs by (simp add: set_tensor_def)
      next
        case res: (Inr i)
        show ?thesis
        proof (cases "se_buffers s i")
          case None
          then show ?thesis using SetTensor ready rest rs res sim_none [OF sim, of i] by (simp add: set_tensor_def)
        next
          case (Some b)
          then obtain b' where b': "se_buffers t i = Some b'" "twin b b'" by (rule sim_twin [OF sim])
          note nb = twin_fields [OF b'(2)]
          show ?thesis
          proof (cases "length bs = unat (tb_nbytes b)")
            case False
            then show ?thesis using SetTensor ready rest rs res Some b' nb by (simp add: set_tensor_def)
          next
            case True
            have i: "i \<in> lasting g p" using last [of i] Some c SetTensor res by (simp add: kept_name_def)
            then have ins: "insert i (lasting g p) = lasting g p" by auto
            obtain s' t' where w: "write_bytes b bs s = Some s'" "write_bytes b' bs t = Some t'" "sim (lasting g p) s' t'"
              "se_buffers s' = se_buffers s" "se_buffers t' = se_buffers t"
              using write_sim [OF sim Some b'(1) _ _ eq_refl [OF True]] lasting_apart [OF sh] i unfolding ins by auto
            have "same_control s s'" using write_bytes_frame [OF w(1)] by simp
            then have "se_names s' = se_names s" "sharing g p s' t'" using sharing_frame [OF sh _ w(4,5)] by (simp_all add: same_control_def)
            then show ?thesis using SetTensor ready rest rs res Some b' nb True w by (simp add: set_tensor_def)
          qed
        qed
      qed
    qed
  next
    case (GetTensor n nb)
    have "get_tensor n nb t = get_tensor n nb s \<and> get_tensor n nb s \<noteq> None"
    proof (cases "resolve_tensor n s")
      case (Inl e)
      then show ?thesis using rest rs by (simp add: get_tensor_def)
    next
      case res: (Inr i)
      show ?thesis
      proof (cases "se_buffers s i")
        case None
        then show ?thesis using rest rs res sim_none [OF sim, of i] by (simp add: get_tensor_def find_buffer_def)
      next
        case (Some b)
        then obtain b' where b': "se_buffers t i = Some b'" "twin b b'" by (rule sim_twin [OF sim])
        have i: "i \<in> lasting g p" using last [of i] Some c GetTensor res by (simp add: kept_name_def)
        have "content s i = content t i" using sim i by (simp add: sim_def)
        moreover have "backed s" using sim by (simp add: sim_def)
        from backed_block [OF this Some] have "content s i \<noteq> None" by (metis option.distinct(1))
        ultimately show ?thesis using rest rs res Some b' twin_fields [OF b'(2)]
          by (simp add: get_tensor_def find_buffer_def content_def)
      qed
    qed
    then show ?thesis using GetTensor sim sh by auto
  next
    case RunGraph
    obtain r s' t' where r: "run env B s = Some (r, s')" "run env B t = Some (r, t')"
      and ok: "r = Inr () \<Longrightarrow> sim (lasting g p) s' t' \<and> se_buffers s' = se_buffers s \<and> se_buffers t' = se_buffers t"
      using run_sim [OF B sim sh] by blast
    show ?thesis
    proof (cases r)
      case (Inl e)
      then show ?thesis using RunGraph r by simp
    next
      case (Inr u)
      have "se_names s' = se_names s" "sharing g p s' t'" using run_plan [OF r(1)] ok Inr sh by (simp_all add: sharing_def)
      then show ?thesis using RunGraph r Inr ok by simp
    qed
  qed
qed

lemma calls_sim:
  assumes B: "overwrites (bk_dispatch B)" "overwrites (bk_dispatch_host B)" and d: "distinct (map t_id (g_tensors g))"
  shows "sim (lasting g p) s t \<Longrightarrow> sharing g p s t \<Longrightarrow> \<forall>c \<in> set cs. kept_call g s c \<Longrightarrow>
    fst (session_calls env B cs t) = fst (session_calls env B cs s) \<and>
    rel_option (\<lambda>u v. sim (lasting g p) u v \<and> sharing g p u v \<and> se_names u = se_names s)
      (snd (session_calls env B cs s)) (snd (session_calls env B cs t))"
proof (induction cs arbitrary: s t)
  case (Cons c cs)
  have c: "kept_call g s c" using Cons.prems(3) by simp
  obtain r s' t' where r: "call_step env B c s = Some (r, s')" "call_step env B c t = Some (r, t')"
    and ok: "\<And>x. r = Inr x \<Longrightarrow> sim (lasting g p) s' t' \<and> sharing g p s' t' \<and> se_names s' = se_names s \<and> se_buffers s' = se_buffers s"
    using call_sim [OF B Cons.prems(1,2) d c] by blast
  show ?case
  proof (cases r)
    case (Inl e)
    then show ?thesis using r by simp
  next
    case (Inr x)
    note ok = ok [OF Inr]
    have kc: "\<forall>c \<in> set cs. kept_call g s' c" using Cons.prems(3) kept_call_same [of s' s g] ok by simp
    have "fst (session_calls env B cs t') = fst (session_calls env B cs s') \<and>
        rel_option (\<lambda>u v. sim (lasting g p) u v \<and> sharing g p u v \<and> se_names u = se_names s')
          (snd (session_calls env B cs s')) (snd (session_calls env B cs t'))"
      by (rule Cons.IH) (use ok kc in simp_all)
    then show ?thesis using r Inr ok by (simp add: case_prod_beta)
  qed
qed simp

text \<open>
  C0.memory_reuse_transparent: take a graph in which every input of a node is a weight, a graph input or output,
  or comes from another node, with 4-byte tensors that are not kept packed.  Allocate its session once with
  the memory plan's shared slots and once with a buffer for each tensor.  If kernels write all of their outputs,
  every list of calls that sets and reads weights, graph inputs and graph outputs
  and runs the graph gets the same answers from both, and so does a generation after it.
\<close>

theorem memory_reuse_transparent:
  assumes "build_execution_plan hm hs g = Some (Inr p)"
    and "se_graph s0 = g" "se_plan s0 = p" "se_memory_plan s0 = build_memory_reuse_plan h g p" "unallocated s0"
    and "distinct (map t_id (g_tensors g))" "g_tensors g \<noteq> []" "wired g" "word_sized g"
    and "\<forall>t \<in> set (g_tensors g). \<not> stays_packed s0 t" "sx_enable_memory_reuse (se_options s0)"
    and "allocate_all_tensors mem base s0 = (Inr (), s)" "blocks_apart (se_owned s)"
    and "allocate_all_tensors mem' base' (reuse_off s0) = (Inr (), t)" "blocks_apart (se_buffers t)"
    and "overwrites (bk_dispatch B)" "overwrites (bk_dispatch_host B)"
    and "\<forall>c \<in> set cs. kept_call g s c"
    and "\<forall>i. tokens_tensor s = Inr i \<or> scores_tensor (\<not> sm_greedy sm) s = Inr i \<longrightarrow> has_tensor g i \<and> kept_tensor g i"
  shows "fst (session_calls env B cs (t\<lparr>se_ready := True\<rparr>)) = fst (session_calls env B cs (s\<lparr>se_ready := True\<rparr>)) \<and>
    rel_option (\<lambda>u v. returned (generate env B sm prompt m stops cb gen out u) = returned (generate env B sm prompt m stops cb gen out v))
      (snd (session_calls env B cs (s\<lparr>se_ready := True\<rparr>))) (snd (session_calls env B cs (t\<lparr>se_ready := True\<rparr>)))"
proof -
  let ?s = "s\<lparr>se_ready := True\<rparr>" let ?t = "t\<lparr>se_ready := True\<rparr>"
  note tw = allocated_twins [OF assms(1-6,8-10,11,7,12-15)]
  have sim: "sim (lasting g p) ?s ?t"
  proof (rule sim_frame [OF sim_mono [OF tw(1)]])
    show "same_rest ?s ?t" using sim_same [OF tw(1)] by (simp add: same_rest_def)
  qed simp_all
  have sh: "sharing g p ?s ?t" using tw(2) by (simp add: sharing_def)
  have kc: "\<forall>c \<in> set cs. kept_call g ?s c" using assms(18) kept_call_same [of ?s s g] by simp
  have last: "i \<in> lasting g p" if "has_tensor g i" "kept_tensor g i" for i
    using that kept_lasting [OF assms(6), of i p] by (simp add: has_tensor_iff)
  have names: "tokens_tensor u = tokens_tensor s" "scores_tensor w u = scores_tensor w s"
    if "se_names u = se_names ?s" "sharing g p u v" for u and v :: "('a, 'b) session" and w
  proof -
    have "se_names u = se_names s" "se_graph u = se_graph s" using that tw(2) by (simp_all add: sharing_def)
    then show "tokens_tensor u = tokens_tensor s" "scores_tensor w u = scores_tensor w s"
      by (simp_all only: tokens_tensor_def scores_tensor_def)
  qed
  note calls = calls_sim [OF assms(16,17,6) sim sh kc, where env = env]
  have "returned (generate env B sm prompt m stops cb gen out u) = returned (generate env B sm prompt m stops cb gen out v)"
    if "sim (lasting g p) u v \<and> sharing g p u v \<and> se_names u = se_names ?s" for u v
    using that names [of u v] assms(19) last by (intro generate_sim [OF assms(16,17), where g = g and p = p]) auto
  then have "rel_option (\<lambda>u v. returned (generate env B sm prompt m stops cb gen out u) = returned (generate env B sm prompt m stops cb gen out v))
      (snd (session_calls env B cs ?s)) (snd (session_calls env B cs ?t))"
    using calls by (blast intro: option.rel_mono_strong)
  then show ?thesis using calls by blast
qed

end
