(* ===== verification/Session_Cancel.thy ===== *)
theory Session_Cancel
  imports Session_Generate
begin

text \<open>
  \<open>request_cancel\<close> stops a generation.  A request that arrives at the \<open>j\<close>-th point where the session observes other
  threads bounds what is generated: each token of the prompt and each new one takes at least one such point.
\<close>

section \<open>Events are consumed in order\<close>

definition cancel_within :: "nat \<Rightarrow> lifecycle_event list list \<Rightarrow> bool" where
  "cancel_within m es \<longleftrightarrow> (\<exists>i < m. i < length es \<and> RequestCancel \<in> set (es ! i))"

text \<open>\<open>s'\<close> comes after \<open>s\<close> in an execution: some events were delivered, and a cancellation among them is seen.\<close>

definition later :: "('b, 'f) session \<Rightarrow> ('b, 'f) session \<Rightarrow> bool" where
  "later s s' \<longleftrightarrow> (\<exists>m. se_events s' = drop m (se_events s) \<and> (se_cancel s \<or> cancel_within m (se_events s) \<longrightarrow> se_cancel s'))"

lemma later_same: "se_events s' = se_events s \<Longrightarrow> (se_cancel s \<Longrightarrow> se_cancel s') \<Longrightarrow> later s s'"
  unfolding later_def by (rule exI [of _ 0]) (simp add: cancel_within_def)

lemma later_refl [simp]: "later s s"
  by (rule later_same) simp_all

lemma cancel_within_add:
  "cancel_within (m + n) es \<longleftrightarrow> cancel_within m es \<or> cancel_within n (drop m es)"
proof
  assume "cancel_within (m + n) es"
  then obtain i where i: "i < m + n" "i < length es" "RequestCancel \<in> set (es ! i)" by (auto simp: cancel_within_def)
  show "cancel_within m es \<or> cancel_within n (drop m es)"
  proof (cases "i < m")
    case False
    then have "i - m < n \<and> i - m < length (drop m es) \<and> RequestCancel \<in> set (drop m es ! (i - m))" using i by auto
    then show ?thesis unfolding cancel_within_def by blast
  qed (use i in \<open>auto simp: cancel_within_def\<close>)
next
  assume "cancel_within m es \<or> cancel_within n (drop m es)"
  then show "cancel_within (m + n) es"
  proof
    assume "cancel_within n (drop m es)"
    then obtain i where i: "i < n" "i < length (drop m es)" "RequestCancel \<in> set (drop m es ! i)" by (auto simp: cancel_within_def)
    then have "m + i < m + n \<and> m + i < length es \<and> RequestCancel \<in> set (es ! (m + i))" by auto
    then show ?thesis unfolding cancel_within_def by blast
  qed (meson cancel_within_def trans_less_add1)
qed

lemma later_trans: "later s t \<Longrightarrow> later t u \<Longrightarrow> later s u"
proof -
  assume "later s t" "later t u"
  then obtain m n where m: "se_events t = drop m (se_events s)" "se_cancel s \<or> cancel_within m (se_events s) \<longrightarrow> se_cancel t"
    and n: "se_events u = drop n (se_events t)" "se_cancel t \<or> cancel_within n (se_events t) \<longrightarrow> se_cancel u"
    by (auto simp: later_def)
  have "se_events u = drop (m + n) (se_events s)" using m(1) n(1) by (simp add: add.commute)
  moreover have "se_cancel s \<or> cancel_within (m + n) (se_events s) \<longrightarrow> se_cancel u"
    using m n(2) by (auto simp: cancel_within_add)
  ultimately show ?thesis unfolding later_def by blast
qed

lemma apply_event_later:
  "se_events (apply_event env e s) = se_events s" "se_cancel (apply_event env e s) \<longleftrightarrow> se_cancel s \<or> e = RequestCancel"
  by (cases e; simp add: request_cancel_def set_background_def on_memory_warning_def apply_pending_kv_drop_def Let_def)+

lemma events_later:
  "se_events (fold (apply_event env) es s) = se_events s"
  "se_cancel (fold (apply_event env) es s) \<longleftrightarrow> se_cancel s \<or> RequestCancel \<in> set es"
  by (induction es arbitrary: s) (auto simp: apply_event_later)

lemma tick_events:
  "se_events (tick env s) = drop 1 (se_events s)"
  "se_cancel (tick env s) \<longleftrightarrow> se_cancel s \<or> cancel_within 1 (se_events s)"
  by (auto simp: tick_def events_later cancel_within_def split: list.split)

lemma tick_later [simp]: "later s (tick env s)"
  unfolding later_def using tick_events by blast

section \<open>Every operation goes forward\<close>

lemma upload_later: "upload_streamed i p n s = (r, s') \<Longrightarrow> se_events s' = se_events s \<and> se_cancel s' = se_cancel s"
  by (auto simp: upload_streamed_def Let_def split: option.splits)

lemma stage_each_later: "stage_each env skip is s = (r, s') \<Longrightarrow> se_events s' = se_events s \<and> se_cancel s' = se_cancel s"
proof (induction "is" arbitrary: s)
  case (Cons i "is")
  show ?case
  proof (cases "se_streaming s")
    case None
    then show ?thesis using Cons.prems by simp
  next
    case (Some st)
    show ?thesis
    proof (cases "\<not> ss_is_streamed st i \<or> (ss_is_expert st i \<and> skip i)")
      case True
      then show ?thesis using Cons Some by auto
    next
      case False
      obtain x st' where st: "ss_stage (re_files env) (Some (re_loader env)) i st = (x, st')"
        by (cases "ss_stage (re_files env) (Some (re_loader env)) i st") auto
      note step = Cons.prems [unfolded stage_each.simps Some option.case if_not_P [OF False] st prod.case]
      show ?thesis
      proof (cases x)
        case (Inl e)
        then show ?thesis using step by auto
      next
        case (Inr pn)
        obtain p n where pn: "pn = (p, n)" by (cases pn)
        obtain q s2 where q: "upload_streamed i p n (s\<lparr>se_streaming := Some st'\<rparr>) = (q, s2)"
          by (cases "upload_streamed i p n (s\<lparr>se_streaming := Some st'\<rparr>)") auto
        show ?thesis using step Inr pn q upload_later [OF q] Cons.IH [of s2] by (cases q) auto
      qed
    qed
  qed
qed simp

lemma write_bytes_later: "write_bytes b bs s = Some s' \<Longrightarrow> se_events s' = se_events s \<and> se_cancel s' = se_cancel s"
  by (auto simp: write_bytes_def split: option.splits if_splits)

lemma write_outputs_later: "write_outputs ws s = Some s' \<Longrightarrow> se_events s' = se_events s \<and> se_cancel s' = se_cancel s"
proof (induction ws arbitrary: s)
  case (Cons w ws)
  obtain b bs where w: "w = (b, bs)" by (cases w)
  from Cons.prems w obtain s1 where "write_bytes b (take (unat (tb_nbytes b)) bs) s = Some s1" "write_outputs ws s1 = Some s'"
    by (auto simp: bind_eq_Some_conv)
  then show ?case using Cons.IH write_bytes_later by metis
qed simp

lemma run_kernel_later: "run_kernel disp n s = Some (r, s') \<Longrightarrow> se_events s' = se_events s \<and> se_cancel s' = se_cancel s"
  by (erule run_kernel_cases) (auto dest: write_outputs_later)

lemma run_op_later:
  assumes "run_op env B d op next s = Some (r, s')"
  shows "later s s'"
proof (cases "find_node (se_graph s) (po_node_id op)")
  case None
  then show ?thesis using assms by (simp add: run_op_def)
next
  case (Some n)
  show ?thesis
  proof (cases "case d of None \<Rightarrow> False | Some d \<Rightarrow> unavailable B (sd_device d)")
    case True
    then show ?thesis using assms Some by (simp add: run_op_def)
  next
    case False
    obtain q s1 where st: "stage_streamed_inputs env n s = (q, s1)" by (cases "stage_streamed_inputs env n s")
    have s1: "later s s1" using st
      by (auto simp: stage_streamed_inputs_def Let_def split: if_splits dest!: stage_each_later intro!: later_same)
    have step: "(case q of Inl e \<Rightarrow> Some (Inl e, s1)
        | Inr _ \<Rightarrow> run_kernel (dispatch_path B d) n (tick env (prefetch_next next s1))) = Some (r, s')"
      using assms Some False st by (simp add: run_op_def)
    show ?thesis
    proof (cases q)
      case (Inl e)
      then show ?thesis using step s1 by simp
    next
      case (Inr u)
      have "later s1 (prefetch_next next s1)"
        by (rule later_same) (simp_all add: prefetch_next_def split: option.split)
      moreover have "later (tick env (prefetch_next next s1)) s'"
        using step Inr by (auto dest!: run_kernel_later intro!: later_same)
      ultimately show ?thesis using s1 later_trans tick_later by metis
    qed
  qed
qed

lemma run_ops_later: "run_ops env B ds ops s = Some (r, s') \<Longrightarrow> later s s'"
proof (induction ops arbitrary: ds s)
  case (Cons op ops)
  then obtain q s1 where q: "run_op env B (case ds of [] \<Rightarrow> None | d # _ \<Rightarrow> Some d) op
      (case ops of [] \<Rightarrow> None | op' # _ \<Rightarrow> Some op') s = Some (q, s1)" by (auto split: option.split_asm)
  show ?case
  proof (cases q)
    case (Inl e)
    then show ?thesis using Cons.prems q run_op_later [OF q] by simp
  next
    case (Inr u)
    then have "run_ops env B (tl ds) ops s1 = Some (r, s')" using Cons.prems q by simp
    from later_trans [OF run_op_later [OF q] Cons.IH [OF this]] show ?thesis .
  qed
qed simp

lemma run_later:
  assumes "run env B s = Some (r, s')"
  shows "later s s'"
proof (cases "se_ready s \<and> reject_if_paused (tick env s) = Inr ()")
  case True
  then obtain q u where q: "run_ops env B (device_schedule_plan (se_scheduler (tick env s)) (se_plan (tick env s)))
      (ep_ops (se_plan (tick env s))) (enter_run (re_zero env) (tick env s)) = Some (q, u)"
    and r: "(r, s') = (case q of Inl e \<Rightarrow> (Inl e, leave_run (re_zero env) u)
       | Inr _ \<Rightarrow> (fst (finish_run B u), leave_run (re_zero env) (snd (finish_run B u))))"
    using run_entered [OF assms] by blast
  have en: "later (tick env s) (enter_run (re_zero env) (tick env s))"
    by (rule later_same) (simp_all add: enter_run_def apply_pending_kv_drop_def)
  have fin: "later u (leave_run (re_zero env) (snd (finish_run B u)))" "later u (leave_run (re_zero env) u)"
    by (rule later_same; simp add: leave_run_def apply_pending_kv_drop_def finish_run_def commit_step_def split: prod.split sum.split)+
  have "later u s'" using r fin by (cases q) simp_all
  then show ?thesis using later_trans [OF later_trans [OF tick_later en] later_trans [OF run_ops_later [OF q]]] by blast
next
  case False
  then have "s' = s \<or> s' = tick env s" using assms
    by (cases "reject_if_paused (tick env s)") (auto simp: run_def Let_def split: if_split_asm)
  then show ?thesis by auto
qed

lemma feed_later: "feed env B i tok s = Some (r, s') \<Longrightarrow> later s s'"
proof -
  assume a: "feed env B i tok s = Some (r, s')"
  then obtain q s1 where w: "write_tokens_step i tok s = Some (q, s1)" by (auto simp: feed_def split: option.splits)
  have "later s s1" using w
    by (auto simp: write_tokens_step_def Let_def split: option.splits if_splits dest!: write_bytes_later intro!: later_same)
  moreover have "later s1 s'" using a w run_later by (cases q) (auto simp: feed_def)
  ultimately show ?thesis by (rule later_trans)
qed

section \<open>A cancelled generation\<close>

definition due :: "nat \<Rightarrow> ('b, 'f) session \<Rightarrow> bool" where
  "due j s \<longleftrightarrow> se_cancel s \<or> cancel_within j (se_events s)"

lemma due_later:
  assumes "later s s'" "due j s"
  shows "due j s'"
proof -
  obtain m where m: "se_events s' = drop m (se_events s)" "se_cancel s \<or> cancel_within m (se_events s) \<longrightarrow> se_cancel s'"
    using assms(1) by (auto simp: later_def)
  show ?thesis
  proof (cases "se_cancel s \<or> cancel_within m (se_events s)")
    case True
    then show ?thesis using m(2) by (simp add: due_def)
  next
    case False
    then have j: "cancel_within j (se_events s)" using assms(2) by (simp add: due_def)
    have "m < j"
    proof (rule ccontr)
      assume "\<not> m < j"
      then have "j + (m - j) = m" by simp
      then have "cancel_within m (se_events s)" using j cancel_within_add [of j "m - j" "se_events s"] by simp
      then show False using False by blast
    qed
    then have "m + (j - m) = j" "j - m + m = j" by simp_all
    then have "cancel_within (j - m) (se_events s')" using j False cancel_within_add [of m "j - m" "se_events s"] m(1) by simp
    then have "cancel_within j (se_events s')" using cancel_within_add [of "j - m" m "se_events s'"] \<open>j - m + m = j\<close> by simp
    then show ?thesis by (simp add: due_def)
  qed
qed

lemma due_tick: "due (Suc j) s \<Longrightarrow> due j (tick env s)"
  using cancel_within_add [of 1 j "se_events s"] by (auto simp: due_def tick_events)

lemma due_0: "due 0 s \<Longrightarrow> \<exists>e. reject_if_paused (tick env s) = Inl e"
  by (auto simp: due_def cancel_within_def reject_if_paused_def tick_events)

lemma prefill_cancelled:
  "due j s \<Longrightarrow> prefill env B ctx i toks out s = Some (r, out', s') \<Longrightarrow>
    \<exists>k \<le> j. length out' = length out + k \<and> (r = Inr () \<longrightarrow> due (j - k) s')"
proof (induction toks arbitrary: j out s)
  case (Cons tok toks)
  show ?case
  proof (cases "reject_if_paused (tick env s)")
    case (Inl e)
    then show ?thesis using Cons.prems(2) by (auto simp: Let_def)
  next
    case (Inr u)
    then obtain j' where j: "j = Suc j'" using Cons.prems(1) due_0 [of s env] by (cases j) auto
    have d: "due j' (tick env s)" using due_tick Cons.prems(1) j by blast
    consider (stop) e where "r = Inl e" "out' = out"
      | (more) s1 where "feed env B i tok (tick env s) = Some (Inr (), s1)" "prefill env B ctx i toks (out @ [tok]) s1 = Some (r, out', s')"
      using Cons.prems(2) Inr by (auto simp: Let_def split: if_splits option.splits prod.splits sum.splits)
    then show ?thesis
    proof cases
      case stop
      then show ?thesis by (intro exI [of _ 0]) simp
    next
      case more
      have "due j' s1" by (rule due_later [OF feed_later [OF more(1)] d])
      from Cons.IH [OF this more(2)] obtain k where "k \<le> j'" "length out' = length (out @ [tok]) + k" "r = Inr () \<longrightarrow> due (j' - k) s'"
        by blast
      then show ?thesis using j by (intro exI [of _ "Suc k"]) simp
    qed
  qed
qed (auto intro: exI [of _ 0])

lemma decode_cancelled:
  "due j s \<Longrightarrow> decode env B sm stops cb ctx ti si n out g s = Some (r, out', g', s') \<Longrightarrow> length out' \<le> length out + j"
proof (induction n arbitrary: j out g s)
  case (Suc n)
  show ?case
  proof (cases "reject_if_paused (tick env s)")
    case (Inl e)
    then show ?thesis using Suc.prems(2) by (simp add: Let_def)
  next
    case (Inr u)
    then obtain j' where j: "j = Suc j'" using Suc.prems(1) due_0 [of s env] by (cases j) auto
    have d: "due j' (tick env s)" using due_tick Suc.prems(1) j by blast
    consider (stop) tok where "out' = out \<or> out' = out @ [tok]"
      | (more) tok g1 s1 where "feed env B ti tok (tick env s) = Some (Inr (), s1)"
          "decode env B sm stops cb ctx ti si n (out @ [tok]) g1 s1 = Some (r, out', g', s')"
      using Suc.prems(2) Inr by (auto simp: Let_def split: if_splits option.splits prod.splits sum.splits)
    then show ?thesis
    proof cases
      case stop
      then show ?thesis using j by auto
    next
      case more
      have "due j' s1" by (rule due_later [OF feed_later [OF more(1)] d])
      from Suc.IH [OF this more(2)] show ?thesis using j by simp
    qed
  qed
qed simp

lemma set_scale_due [simp]: "due j (set_scale n s) = due j s"
  by (simp add: due_def set_scale_def)

text \<open>
  C0.cancel_ends_generation: when a cancellation arrives at the \<open>j\<close>-th point at which
  a generation observes other threads, counted from 0, then prompt and new tokens together in \<open>out_tokens\<close> are
  at most \<open>j\<close>, however many tokens were asked for, unless the call failed before
  it touched \<open>out_tokens\<close>.
\<close>

theorem cancel_ends_generation:
  assumes "generate env B sm prompt max_new stops cb g out0 s = Some (r, out, g', s')"
    and "j < length (se_events s)" "RequestCancel \<in> set (se_events s ! j)"
  shows "length out \<le> j \<or> out = out0 \<and> (\<exists>e. r = Inl e)"
proof (cases "se_ready s \<and> prompt \<noteq> [] \<and> 0 \<le> max_new")
  case False
  then show ?thesis using assms(1) by (auto simp: generate_def split: if_splits)
next
  case True
  let ?s = "tick env (s\<lparr>se_cancel := False\<rparr>)"
  have "due (Suc j) (s\<lparr>se_cancel := False\<rparr>)" using assms(2,3) by (auto simp: due_def cancel_within_def)
  then have d: "due j ?s" by (rule due_tick)
  show ?thesis
  proof (cases "reject_if_paused ?s")
    case (Inl e)
    then have "r = Inl e" "out = out0" using assms(1) True by (auto simp: generate_def Let_def)
    then show ?thesis by blast
  next
    case (Inr u)
    obtain q s1 where q: "generate_setup env prompt max_new (\<not> sm_greedy sm) ?s = Some (q, s1)"
      using assms(1) True Inr by (auto simp: generate_def Let_def split: option.splits)
    have s1: "s1 = ?s\<lparr>se_kv := se_kv s1\<rparr>" using setup_state [OF q] by blast
    have "se_events s1 = se_events ?s" "se_cancel s1 = se_cancel ?s" by (subst s1, simp)+
    then have d1: "due j s1" using d by (simp add: due_def)
    show ?thesis
    proof (cases q)
      case (Inl e)
      then show ?thesis using assms(1) True \<open>reject_if_paused ?s = Inr u\<close> q by (auto simp: generate_def Let_def)
    next
      case x: (Inr x)
      obtain limit ti si where x': "x = (limit, ti, si)" by (cases x) auto
      have g: "(case prefill env B limit ti prompt [] (set_scale (int (length prompt)) s1) of
             None \<Rightarrow> None
           | Some (Inl e, out, s) \<Rightarrow> Some (Inl e, out, g, set_scale 0 s)
           | Some (Inr _, out, s) \<Rightarrow> map_option (\<lambda>(r, out, g, s). (r, out, g, set_scale 0 s))
               (decode env B sm stops cb limit ti si (nat max_new) out g (set_scale 0 s))) = Some (r, out, g', s')"
        using assms(1) True Inr q x x' by (simp add: generate_def Let_def)
      obtain q2 out2 s2 where p: "prefill env B limit ti prompt [] (set_scale (int (length prompt)) s1) = Some (q2, out2, s2)"
        using g by (auto split: option.splits)
      obtain k where k: "k \<le> j" "length out2 = k" "q2 = Inr () \<longrightarrow> due (j - k) s2"
        using prefill_cancelled [OF _ p, of j] d1 by auto
      show ?thesis
      proof (cases q2)
        case (Inl e)
        then show ?thesis using g p k by simp
      next
        case (Inr v)
        then obtain s3 where dec: "decode env B sm stops cb limit ti si (nat max_new) out2 g (set_scale 0 s2) = Some (r, out, g', s3)"
          using g p by auto
        have "length out \<le> length out2 + (j - k)" using decode_cancelled [OF _ dec, of "j - k"] k Inr by simp
        then show ?thesis using k by simp
      qed
    qed
  qed
qed

end
