(* ===== verification/Session_Overrun.thy ===== *)
theory Session_Overrun
  imports Session_Share
begin

text \<open>
  Where sharing goes wrong: the memory plan sizes a slot by the tensor's own type (\<open>memory_plan.cpp\<close>), the session
  makes a view of four bytes an element over it (\<open>session.cpp\<close>).  For a 16-bit tensor the view is
  twice as long as its block.
\<close>

section \<open>Slots of kept tensors\<close>

definition own_slot :: "lifetime \<Rightarrow> reuse_state \<Rightarrow> bool" where
  "own_slot l s \<longleftrightarrow> (\<exists>k < length (ru_slots s). ru_to_slot s (lt_tensor_id l) = Some k \<and>
     ru_slots s ! k = \<lparr>bs_slot_id = k, bs_bytes = lt_bytes l, bs_tenants = [lt_tensor_id l]\<rparr> \<and>
     k \<notin> fr_slot_id ` set (ru_free s))"

definition free_in_range :: "reuse_state \<Rightarrow> bool" where
  "free_in_range s \<longleftrightarrow> (\<forall>f \<in> set (ru_free s). fr_slot_id f < length (ru_slots s))"

lemma own_slot_new:
  assumes "own_slot l s" "lt_tensor_id l' \<noteq> lt_tensor_id l"
  shows "own_slot l (new_slot l' s)"
  using assms by (auto simp: own_slot_def new_slot_def nth_append)

lemma own_slot_made: "free_in_range s \<Longrightarrow> own_slot l (new_slot l s)"
  by (auto simp: own_slot_def new_slot_def free_in_range_def)

lemma own_slot_activation:
  assumes "own_slot l s" "lt_tensor_id l' \<noteq> lt_tensor_id l"
  shows "own_slot l (assign_activation l' s)"
proof -
  obtain k where k: "k < length (ru_slots s)" "ru_to_slot s (lt_tensor_id l) = Some k"
    "ru_slots s ! k = \<lparr>bs_slot_id = k, bs_bytes = lt_bytes l, bs_tenants = [lt_tensor_id l]\<rparr>" "k \<notin> fr_slot_id ` set (ru_free s)"
    using assms(1) by (auto simp: own_slot_def)
  show ?thesis
  proof (cases "dropWhile (\<lambda>f. \<not> slot_free_for l' f) (ru_free s)")
    case Nil
    have eq: "assign_activation l' s = (new_slot l' s)\<lparr>ru_free := ru_free s @ [\<lparr>fr_slot_id = length (ru_slots s),
        fr_bytes = lt_bytes l', fr_free_after = lt_last_use l'\<rparr>]\<rparr>" unfolding assign_activation_def Nil by simp
    show ?thesis unfolding own_slot_def
      by (rule exI [of _ k]) (use k assms(2) in \<open>simp add: eq new_slot_def nth_append\<close>)
  next
    case (Cons f rest)
    have "set (dropWhile (\<lambda>f. \<not> slot_free_for l' f) (ru_free s)) \<subseteq> set (ru_free s)" by (auto dest: set_dropWhileD)
    then have sub: "set (takeWhile (\<lambda>f. \<not> slot_free_for l' f) (ru_free s)) \<subseteq> set (ru_free s)" "f \<in> set (ru_free s)" "set rest \<subseteq> set (ru_free s)"
      unfolding Cons by (auto dest: set_takeWhileD)
    then have "fr_slot_id f \<noteq> k" using k(4) by auto
    moreover have "k \<notin> fr_slot_id ` (set (takeWhile (\<lambda>f. \<not> slot_free_for l' f) (ru_free s)) \<union> set rest)" using sub k(4) by blast
    ultimately show ?thesis unfolding own_slot_def assign_activation_def Cons list.case Let_def
      by (intro exI [of _ k]) (use k assms(2) in auto)
  qed
qed

lemma dedicated_own_slot:
  assumes "distinct (map lt_tensor_id ls)" "l \<in> set ls" "dedicated l"
  shows "own_slot l (assign_slots ls)"
proof -
  let ?s0 = "\<lparr>ru_free = [], ru_slots = [], ru_to_slot = Map.empty\<rparr> :: reuse_state"
  have keep: "ru_free s = [] \<Longrightarrow> own_slot l s \<Longrightarrow> l \<notin> set xs \<Longrightarrow> lt_tensor_id l \<notin> lt_tensor_id ` set xs \<Longrightarrow>
      own_slot l (fold assign_dedicated xs s)" for s xs
  proof (induction xs arbitrary: s)
    case (Cons x xs)
    have "own_slot l (assign_dedicated x s)" "ru_free (assign_dedicated x s) = []"
      using own_slot_new [OF Cons.prems(2), of x] Cons.prems(1,2,4)
      by (cases "dedicated x"; force simp: assign_dedicated_def new_slot_def)+
    then show ?case using Cons by simp
  qed simp
  have "ru_free s = [] \<Longrightarrow> distinct (map lt_tensor_id xs) \<Longrightarrow> l \<in> set xs \<Longrightarrow> own_slot l (fold assign_dedicated xs s)" for s xs
  proof (induction xs arbitrary: s)
    case (Cons x xs)
    show ?case
    proof (cases "x = l")
      case True
      have "own_slot l (assign_dedicated l s)" "ru_free (assign_dedicated l s) = []"
        using own_slot_made [of s l] Cons.prems(1) assms(3) by (simp_all add: assign_dedicated_def new_slot_def free_in_range_def)
      then show ?thesis using keep [of "assign_dedicated l s" xs] Cons.prems(2) True by auto
    next
      case False
      have "ru_free (assign_dedicated x s) = []" using Cons.prems(1) by (simp add: assign_dedicated_def new_slot_def)
      then show ?thesis using Cons False by simp
    qed
  qed simp
  then have start: "own_slot l (fold assign_dedicated ls ?s0)" using assms by simp
  have "own_slot l s \<Longrightarrow> lt_tensor_id l \<notin> lt_tensor_id ` set xs \<Longrightarrow> own_slot l (fold assign_activation xs s)" for s xs
    by (induction xs arbitrary: s) (auto simp: own_slot_activation)
  moreover have "lt_tensor_id l \<notin> lt_tensor_id ` set (sorted_activations ls)"
    using assms by (auto simp: sorted_activations_def distinct_map inj_on_def)
  ultimately show ?thesis using start by (simp add: assign_slots_def)
qed

lemma kept_slot_exact:
  assumes m: "m = build_memory_reuse_plan h g p" and d: "distinct (map t_id (g_tensors g))"
    and t: "t \<in> set (g_tensors g)" "kept_tensor g (t_id t)"
  shows "\<exists>k < length (mr_slots m). mr_tensor_to_slot m (t_id t) = Some k \<and> bs_bytes (mr_slots m ! k) = estimate_tensor_bytes t"
proof -
  let ?ls = "lifetimes_of h g p"
  have "t_id t \<in> lt_tensor_id ` set ?ls" using arg_cong [OF lifetimes_of_spec(1) [of h g p], of set] t(1) by simp
  then obtain l where l: "l \<in> set ?ls" "lt_tensor_id l = t_id t" by auto
  have lv: "lives_of g p (t_id t) = Some l" using lifetimes_of_spec(2) [OF l(1)] l(2) by simp
  have ids: "distinct (map lt_tensor_id ?ls)" unfolding lifetimes_of_spec(1) by simp
  have "own_slot l (assign_slots ?ls)" by (rule dedicated_own_slot [OF ids l(1)]) (use flags_kept [OF lv d] t(2) in simp)
  moreover have "lt_bytes l = estimate_tensor_bytes t"
  proof -
    obtain u where u: "last_tensor (g_tensors g) (t_id t) = Some u" "lt_bytes l = estimate_tensor_bytes u"
      using lives_ok_lives_of [of g p] lv by (fastforce simp: lives_ok_def dest: spec [of _ "t_id t"])
    then show ?thesis using last_tensor_unique [OF d t(1)] by simp
  qed
  ultimately show ?thesis using l(2) by (auto simp: m build_memory_reuse_plan_def Let_def own_slot_def)
qed


end
