(* ===== verification/Session_Demo.thy ===== *)
theory Session_Demo
  imports Session_Share Session_Cancel Session_Overrun
begin

text \<open>
  A small session, allocated both ways, run, cancelled and made to generate: the theorems about sessions at
  concrete inputs.
\<close>

section \<open>The session\<close>

text \<open>A chain of four operations, each adding one to every byte; five tensors in four slots.\<close>

definition relay_tensor :: "u64 \<Rightarrow> tensor" where
  "relay_tensor i = tensor_default\<lparr>t_id := i, t_dtype := DT_F32, t_shape := [2]\<rparr>"

definition relay_node :: "u64 \<Rightarrow> u64 \<Rightarrow> u64 \<Rightarrow> node" where
  "relay_node i x y = \<lparr>n_id = i, n_name = [], n_op_name = ''Relu'', n_op_version = ''1'', n_inputs = [x], n_outputs = [y],
     n_attributes = []\<rparr>"

definition relay_graph :: graph where
  "relay_graph = graph_default\<lparr>g_tensors := map relay_tensor [0, 1, 2, 3, 4],
     g_nodes := [relay_node 1 0 1, relay_node 2 1 2, relay_node 3 2 3, relay_node 4 3 4], g_inputs := [0], g_outputs := [4]\<rparr>"

definition relay_plan :: execution_plan where
  "relay_plan = (case build_execution_plan (\<lambda>_ _. 0) (\<lambda>_ _. 0) relay_graph of Some (Inr p) \<Rightarrow> p | _ \<Rightarrow> plan_skeleton relay_graph)"

definition relay_memory :: memory_reuse_plan where
  "relay_memory = build_memory_reuse_plan (\<lambda>_ _. 0) relay_graph relay_plan"

definition add_one :: "(unit, int) dispatch" where
  "add_one op v ins outs as kv b = (Inr (), map (\<lambda>w. let n = unat (ov_nbytes (fst w)) in
     map (\<lambda>x. x + 1) (take n ((case ins of (_, Some bs) # _ \<Rightarrow> bs | _ \<Rightarrow> []) @ replicate n 0))) outs, kv, b)"

definition relay_backend :: "(unit, int) backend" where
  "relay_backend = \<lparr>bk_name = ''cpu'', bk_device_type = DevCpu, bk_uses_host_fallback = True, bk_host_executable = True,
     bk_dispatch = add_one, bk_dispatch_host = add_one, bk_synchronize = (\<lambda>b. (Inr (), b))\<rparr>"

definition relay_env :: "int runtime_env" where
  "relay_env = \<lparr>re_zero = 0, re_files = (\<lambda>_. OpenFailed), re_loader = (\<lambda>_ _ _. (Inr (), [])), re_rank = (\<lambda>_ _ _. [])\<rparr>"

definition relay_session :: "(unit, int) session" where
  "relay_session = \<lparr>se_ready = False, se_options = session_defaults, se_graph = relay_graph, se_plan = relay_plan,
     se_memory_plan = relay_memory, se_allocator = new_allocator StrategyPool 0 4096, se_backend = (),
     se_scheduler = \<lparr>ds_preferred = DevCpu, ds_attention_host_fallback = False\<rparr>, se_streaming = None, se_kv = None,
     se_owned = Map.empty, se_buffers = Map.empty, se_names = map_of [(''in'', 0), (''mid'', 1), (''out'', 4)], se_heap = Map.empty,
     se_cancel = False, se_background = False, se_in_run = False, se_drop_kv = False, se_events = []\<rparr>"

definition relay_malloc :: "nat \<Rightarrow> u64 option" where
  "relay_malloc k = Some (4096 * (1 + of_nat k))"

definition relay_shared :: "(unit, int) session" where
  "relay_shared = snd (allocate_all_tensors relay_malloc (\<lambda>_ _. 0) relay_session)"

definition relay_alone :: "(unit, int) session" where
  "relay_alone = snd (allocate_all_tensors relay_malloc (\<lambda>_ _. 0) (reuse_off relay_session))"

definition relay_calls :: "session_call list" where
  "relay_calls = [SetTensor ''in'' [1, 2, 3, 4, 5, 6, 7, 8], RunGraph, GetTensor ''out'' 8]"

lemma blocks_apart_list:
  assumes "\<And>k. k \<notin> set ks \<Longrightarrow> m k = None" "distinct (0 # map (\<lambda>k. tb_data (the (m k))) ks)"
  shows "blocks_apart m"
proof -
  have k: "k \<in> set ks" if "m k = Some b" for k b using assms(1) [of k] that by auto
  have inj: "inj_on (\<lambda>k. tb_data (the (m k))) (set ks)" and nz: "0 \<notin> (\<lambda>k. tb_data (the (m k))) ` set ks"
    using assms(2) by (simp_all add: distinct_map)
  have "tb_data b \<noteq> 0" if "m i = Some b" for i b using nz imageI [OF k [OF that], of "\<lambda>k. tb_data (the (m k))"] that by auto
  moreover have "i = j" if "m i = Some b" "m j = Some b'" "tb_data b = tb_data b'" for i j b b'
    by (rule inj_onD [OF inj _ k [OF that(1)] k [OF that(2)]]) (simp add: that)
  ultimately show ?thesis by (auto simp: blocks_apart_def)
qed

lemma make_views_owned: "make_views ts s = (r, s') \<Longrightarrow> se_owned s' = se_owned s"
proof (induction ts arbitrary: s)
  case (Cons t ts)
  have "se_owned (add_buffer i b s) = se_owned s" for i b by (simp add: add_buffer_def)
  then show ?case using Cons by (auto simp: Let_def split: if_splits option.splits)
qed simp

lemma slots_owned:
  assumes "allocate_all_tensors mem base s = (Inr (), s')" "sx_enable_memory_reuse (se_options s)" "mr_slots (se_memory_plan s) \<noteq> []"
    "se_streaming s = None" "distinct (map bs_slot_id (mr_slots (se_memory_plan s)))" "j \<notin> bs_slot_id ` set (mr_slots (se_memory_plan s))"
  shows "se_owned s' j = se_owned s j"
proof -
  obtain r s1 where a: "allocate_slots mem base 0 (mr_slots (se_memory_plan s)) s = (r, s1)"
    by (cases "allocate_slots mem base 0 (mr_slots (se_memory_plan s)) s")
  have b: "(case r of Inl e \<Rightarrow> (Inl e, s1) | Inr _ \<Rightarrow> make_views (g_tensors (se_graph s1)) s1) = (Inr (), s')"
    using assms(1-3) a by (simp add: allocate_all_tensors_def)
  have r: "r = Inr ()" using b by (cases r) simp_all
  have "se_owned s1 j = se_owned s j" using slots_allocated [OF a [unfolded r] assms(4,5)] assms(6) by blast
  moreover have "se_owned s' = se_owned s1" using b r by (auto intro: make_views_owned)
  ultimately show ?thesis by simp
qed

lemma relay_slots: "map bs_slot_id (mr_slots relay_memory) = [0, 1, 2, 3]"
  by code_simp

lemma relay_allocated:
  "allocate_all_tensors relay_malloc (\<lambda>_ _. 0) relay_session = (Inr (), relay_shared)"
  "allocate_all_tensors relay_malloc (\<lambda>_ _. 0) (reuse_off relay_session) = (Inr (), relay_alone)"
proof -
  have "fst (allocate_all_tensors relay_malloc (\<lambda>_ _. 0) relay_session) = Inr ()"
    "fst (allocate_all_tensors relay_malloc (\<lambda>_ _. 0) (reuse_off relay_session)) = Inr ()" by code_simp+
  then show "allocate_all_tensors relay_malloc (\<lambda>_ _. 0) relay_session = (Inr (), relay_shared)"
    "allocate_all_tensors relay_malloc (\<lambda>_ _. 0) (reuse_off relay_session) = (Inr (), relay_alone)"
    by (simp_all add: relay_shared_def relay_alone_def prod_eq_iff)
qed

lemma relay_session_fields:
  "se_graph relay_session = relay_graph" "se_plan relay_session = relay_plan" "se_memory_plan relay_session = relay_memory"
  "unallocated relay_session" "sx_enable_memory_reuse (se_options relay_session)" "se_streaming relay_session = None"
  by (simp_all add: relay_session_def unallocated_def session_defaults_def)

lemma relay_graph_ok:
  "map t_id (g_tensors relay_graph) = [0, 1, 2, 3, 4]" "g_tensors relay_graph \<noteq> []" "wired relay_graph" "word_sized relay_graph"
  "\<forall>t \<in> set (g_tensors relay_graph). \<not> stays_packed relay_session t"
  "g_inputs relay_graph = [0]" "g_outputs relay_graph = [4]"
  by code_simp+

lemma relay_apart: "blocks_apart (se_owned relay_shared)" "blocks_apart (se_buffers relay_alone)"
proof -
  have ids: "bs_slot_id ` set (mr_slots relay_memory) = set [0, 1, 2, 3]"
    using arg_cong [OF relay_slots, of set] by (simp only: set_map)
  have ne: "mr_slots relay_memory \<noteq> []" using relay_slots by auto
  show "blocks_apart (se_owned relay_shared)"
  proof (rule blocks_apart_list)
    fix k :: nat assume "k \<notin> set [0, 1, 2, 3]"
    then show "se_owned relay_shared k = None"
      using slots_owned [OF relay_allocated(1), of k] ids ne relay_slots relay_session_fields by (simp add: unallocated_def)
  qed code_simp
  have d: "distinct (map t_id (g_tensors relay_graph))" unfolding relay_graph_ok by simp
  have each: "allocate_each relay_malloc (\<lambda>_ _. 0) 0 (g_tensors relay_graph) (reuse_off relay_session) = (Inr (), relay_alone)"
    using relay_allocated(2) relay_session_fields by (simp add: allocate_all_tensors_def reuse_off_def)
  have outside: "\<forall>i. i \<notin> t_id ` set (g_tensors relay_graph) \<longrightarrow> se_buffers relay_alone i = se_buffers (reuse_off relay_session) i"
    using each_allocated [OF each _ d] relay_session_fields(4) relay_graph_ok(5)
    by (simp add: reuse_off_def unallocated_def stays_packed_def)
  show "blocks_apart (se_buffers relay_alone)"
  proof (rule blocks_apart_list)
    fix i :: u64 assume "i \<notin> set [0, 1, 2, 3, 4]"
    then have "i \<notin> t_id ` set (g_tensors relay_graph)" by (metis relay_graph_ok(1) set_map)
    then show "se_buffers relay_alone i = None" using outside relay_session_fields(4) by (simp add: reuse_off_def unallocated_def)
  qed code_simp
qed

lemma relay_built: "build_execution_plan (\<lambda>_ _. 0) (\<lambda>_ _. 0) relay_graph = Some (Inr relay_plan)"
proof -
  have "(case build_execution_plan (\<lambda>_ _. 0) (\<lambda>_ _. 0) relay_graph of Some (Inr p) \<Rightarrow> True | _ \<Rightarrow> False)" by code_simp
  then show ?thesis by (auto simp: relay_plan_def split: option.splits sum.splits)
qed

definition add_one_bytes :: "(op_view \<times> u8 list option) list \<Rightarrow> op_view \<Rightarrow> u8 list" where
  "add_one_bytes ins w = map (\<lambda>x. x + 1) (take (unat (ov_nbytes w))
     ((case ins of (_, Some bs) # _ \<Rightarrow> bs | _ \<Rightarrow> []) @ replicate (unat (ov_nbytes w)) 0))"

lemma add_one_eq: "add_one op v ins outs as kv b = (Inr (), map (add_one_bytes ins) (map fst outs), kv, b)"
  by (simp add: add_one_def add_one_bytes_def Let_def)

lemma add_one_overwrites: "overwrites add_one"
  unfolding overwrites_def
proof (intro allI impI)
  fix op v ins and outs outs' :: "(op_view \<times> u8 list) list" and as kv b r bss kv2 b2
  assume m: "map fst outs = map fst outs'" and e: "add_one op v ins outs as kv b = (r, bss, kv2, b2)"
  have bss: "bss = map (add_one_bytes ins) (map fst outs)" using e by (simp add: add_one_eq)
  have e': "add_one op v ins outs' as kv b = (r, bss, kv2, b2)" using e unfolding add_one_eq m .
  have "length (bss ! i) = unat (ov_nbytes (fst (outs ! i)))" if "i < length outs" for i
    using that by (simp add: bss add_one_bytes_def)
  then have "list_all2 (\<lambda>o_view bs. length bs = unat (ov_nbytes (fst o_view))) outs bss"
    by (simp add: bss list_all2_conv_all_nth)
  then show "\<exists>bss'. add_one op v ins outs' as kv b = (r, bss', kv2, b2) \<and> length bss = length outs \<and> length bss' = length outs \<and>
      (r = Inr () \<longrightarrow> bss' = bss \<and> list_all2 (\<lambda>o_view bs. length bs = unat (ov_nbytes (fst o_view))) outs bss)"
    using e' bss by auto
qed

lemma relay_resolves:
  "resolve_tensor ''in'' relay_shared = Inr 0" "resolve_tensor ''out'' relay_shared = Inr 4"
  "tokens_tensor relay_shared = Inr 0" "scores_tensor False relay_shared = Inr 4"
  "kept_tensor relay_graph 0" "kept_tensor relay_graph 4" "has_tensor relay_graph 0" "has_tensor relay_graph 4"
  by code_simp+

lemma relay_answers: "fst (session_calls relay_env relay_backend relay_calls (relay_shared\<lparr>se_ready := True\<rparr>)) =
  [Some (Inr []), Some (Inr []), Some (Inr [5, 6, 7, 8, 9, 10, 11, 12])]"
  by code_simp

theorem memory_reuse_transparent_witness:
  "length (mr_slots relay_memory) < length (g_tensors relay_graph) \<and>
   fst (session_calls relay_env relay_backend relay_calls (relay_alone\<lparr>se_ready := True\<rparr>)) =
     [Some (Inr []), Some (Inr []), Some (Inr [5, 6, 7, 8, 9, 10, 11, 12])]"
proof -
  let ?sm = "\<lparr>sm_greedy = True, sm_sample = (\<lambda>_ _ g. (Inr 0, g))\<rparr> :: unit sampler"
  have kc: "\<forall>c \<in> set relay_calls. kept_call relay_graph relay_shared c"
    by (simp add: relay_calls_def kept_name_def relay_resolves)
  have "fst (session_calls relay_env relay_backend relay_calls (relay_alone\<lparr>se_ready := True\<rparr>)) =
      fst (session_calls relay_env relay_backend relay_calls (relay_shared\<lparr>se_ready := True\<rparr>))"
    using memory_reuse_transparent [OF relay_built relay_session_fields(1,2) relay_session_fields(3) [unfolded relay_memory_def]
        relay_session_fields(4) _ relay_graph_ok(2-5) relay_session_fields(5) relay_allocated(1) relay_apart(1)
        relay_allocated(2) relay_apart(2) _ _ kc, where sm = ?sm]
      relay_graph_ok(1) relay_resolves by (simp add: relay_backend_def add_one_overwrites)
  moreover have "length (mr_slots relay_memory) = 4" "length (g_tensors relay_graph) = 5"
    using arg_cong [OF relay_slots, of length] arg_cong [OF relay_graph_ok(1), of length] by simp_all
  ultimately show ?thesis using relay_answers by simp
qed

text \<open>
  A tensor that is no graph output may have lost its slot by the end of the run; \<open>generate\<close> reads the tensor named
  \<open>logits\<close> all the same.
\<close>

lemma scores_slot_reused:
  "fst (session_calls relay_env relay_backend [SetTensor ''in'' [1, 1, 1, 1, 1, 1, 1, 1], RunGraph, GetTensor ''mid'' 8]
     (relay_shared\<lparr>se_ready := True\<rparr>)) = [Some (Inr []), Some (Inr []), Some (Inr [4, 4, 4, 4, 4, 4, 4, 4])]"
  "fst (session_calls relay_env relay_backend [SetTensor ''in'' [1, 1, 1, 1, 1, 1, 1, 1], RunGraph, GetTensor ''mid'' 8]
     (relay_alone\<lparr>se_ready := True\<rparr>)) = [Some (Inr []), Some (Inr []), Some (Inr [2, 2, 2, 2, 2, 2, 2, 2])]"
  by code_simp+

section \<open>A memory warning during a run\<close>

text \<open>The warning comes while the second operation is under way, with two positions in the cache.\<close>

definition warned_session :: "(unit, int) session" where
  "warned_session = relay_shared\<lparr>se_ready := True, se_kv := Some (demo_cache\<lparr>kv_past_len := 2\<rparr>),
     se_events := [[], [], [MemoryWarning]]\<rparr>"

definition in_warned_run :: "((error + unit) \<times> (unit, int) session) option" where
  "in_warned_run = (let s = tick relay_env warned_session in
     run_ops relay_env relay_backend (device_schedule_plan (se_scheduler s) (se_plan s)) (ep_ops (se_plan s)) (enter_run 0 s))"

lemma warned_run:
  "(case in_warned_run of Some (Inr _, t) \<Rightarrow> se_drop_kv t \<and> map_option kv_past_len (se_kv t) = Some 2 | _ \<Rightarrow> False)"
  "(case run relay_env relay_backend warned_session of Some (Inr _, s) \<Rightarrow> se_kv s \<noteq> None | _ \<Rightarrow> False)"
  by code_simp+


section \<open>Generation\<close>

text \<open>A graph of one tensor, which is read and scored; greedy sampling of its first byte.\<close>

definition idle_graph :: graph where
  "idle_graph = graph_default\<lparr>g_tensors := [relay_tensor 0], g_inputs := [0], g_outputs := [0]\<rparr>"

definition idle_session :: "lifecycle_event list list \<Rightarrow> (unit, int) session" where
  "idle_session es = (snd (allocate_all_tensors relay_malloc (\<lambda>_ _. 0) (relay_session\<lparr>se_graph := idle_graph,
     se_plan := plan_skeleton idle_graph\<rparr>\<lparr>se_options := session_defaults\<lparr>sx_enable_memory_reuse := False\<rparr>\<rparr>)))\<lparr>se_ready := True, se_events := es\<rparr>"

definition idle_sampler :: "unit sampler" where
  "idle_sampler = \<lparr>sm_greedy = True, sm_sample = (\<lambda>bs _ g. (Inr (int (length bs)), g))\<rparr>"

definition idle_generate :: "lifecycle_event list list \<Rightarrow> ((error + unit) \<times> int list \<times> unit \<times> (unit, int) session) option" where
  "idle_generate es = generate relay_env relay_backend idle_sampler [7] 3 [8] None () [] (idle_session es)"

lemma idle_generated:
  "map_option (\<lambda>(r, out, _). (r, out)) (idle_generate []) = Some (Inr (), [7, 8])"
  "map_option (\<lambda>(r, out, _). (r, out)) (idle_generate [[], [RequestCancel]]) = Some (Inl (se_error ''cancelled''), [])"
  by code_simp+

theorem generate_output_witness:
  "\<exists>g s. idle_generate [] = Some (Inr (), [7, 8], g, s) \<and>
     (\<exists>new. [7, 8] = [7] @ new \<and> int (length new) \<le> 3 \<and> (int (length new) = 3 \<or> new \<noteq> [] \<and> last new \<in> set [8]))"
proof -
  obtain g s where gs: "idle_generate [] = Some (Inr (), [7, 8], g, s)"
    using idle_generated(1) by (auto simp: map_option_eq_Some)
  from generate_output [OF this [unfolded idle_generate_def]] gs show ?thesis by (auto simp: accepted_def)
qed

theorem cancel_ends_generation_witness:
  "\<exists>out g s. idle_generate [[], [RequestCancel]] = Some (Inl (se_error ''cancelled''), out, g, s) \<and> length out \<le> 1"
proof -
  obtain out g s where gs: "idle_generate [[], [RequestCancel]] = Some (Inl (se_error ''cancelled''), out, g, s)"
    using idle_generated(2) by (auto simp: map_option_eq_Some)
  have es: "se_events (idle_session [[], [RequestCancel]]) = [[], [RequestCancel]]" by (simp add: idle_session_def)
  have "length out \<le> 1 \<or> out = []"
    using cancel_ends_generation [OF gs [unfolded idle_generate_def], of 1] by (auto simp: es)
  then show ?thesis using gs by auto
qed

section \<open>A 16-bit input\<close>

definition half_tensor :: tensor where
  "half_tensor = tensor_default\<lparr>t_id := 0, t_dtype := DT_F16, t_shape := [4]\<rparr>"

definition half_graph :: graph where
  "half_graph = graph_default\<lparr>g_tensors := [half_tensor], g_inputs := [0]\<rparr>"

definition half_session :: "(unit, int) session" where
  "half_session = relay_session\<lparr>se_graph := half_graph, se_plan := plan_skeleton half_graph,
     se_memory_plan := build_memory_reuse_plan (\<lambda>_ _. 0) half_graph (plan_skeleton half_graph)\<rparr>"

definition half_shared :: "(unit, int) session" where
  "half_shared = snd (allocate_all_tensors relay_malloc (\<lambda>_ _. 0) half_session)"

lemma half_ok:
  "fst (allocate_all_tensors relay_malloc (\<lambda>_ _. 0) half_session) = Inr ()"
  "map bs_slot_id (mr_slots (se_memory_plan half_session)) = [0]" "map_option tb_data (se_owned half_shared 0) = Some 4096"
  "kept_tensor half_graph 0" "resolve_tensor ''in'' half_shared = Inr 0"
  "(case set_tensor ''in'' (replicate 16 0) ((snd (allocate_all_tensors relay_malloc (\<lambda>_ _. 0) (reuse_off half_session)))\<lparr>se_ready := True\<rparr>) of
     Some (Inr _, _) \<Rightarrow> True | _ \<Rightarrow> False)"
  by code_simp+


end
