(* ===== verification/Spec2Isabelle.thy ===== *)
theory Spec2Isabelle
  imports Validator Binary_Ir Json_Ir Memory_Arena Optimize Kv_Cache Session_Demo
begin

text \<open>
  A verification development for the C++ core of Universal-AI-Inference (UAII).

  The program.  UAII loads a model into a computation graph (the \<open>IR\<close>), validates it, orders its
  nodes into an execution plan, rewrites and plans it (operator fusion, activation-buffer reuse,
  weight placement under a RAM budget, a plan cache), allocates tensor memory under a budget,
  and runs it on a backend.  The development models the part of the program that decides; the
  part that computes with floating-point numbers or talks to devices, files and terminals is left
  out.  All code is under \<open>libs/\<close> (implementation) and \<open>include/uaii/\<close> (interfaces).

  Theories, in the order of the code's layers:

  \<^item> \<open>Prelude\<close> -- machine integers, \<open>Error\<close> and the result type (\<open>core/error.hpp\<close>,
    \<open>uaii-core/src/error.cpp\<close>), the string operations the sources use, association lists
    for containers whose order matters, sums of machine words.
  \<^item> \<open>Ir_Types\<close> -- \<open>DType\<close>, \<open>StorageHint\<close>, \<open>QuantFormat\<close>, \<open>Shape\<close>, \<open>Tensor\<close>, \<open>IrVersion\<close> and the
    functions on them (\<open>interfaces/types.hpp\<close>, \<open>quant/formats.hpp\<close>, \<open>ir/tensor.hpp\<close>, \<open>ir/version.hpp\<close>,
    \<open>uaii-ir/src/dtype.cpp\<close>, \<open>version.cpp\<close>).
  \<^item> \<open>Ir_Graph\<close> -- \<open>Attribute\<close>, \<open>Node\<close>, \<open>Graph\<close> and \<open>GraphBuilder\<close> (\<open>graph.cpp\<close>); the builder's
    invariant over every sequence of builder calls.
  \<^item> \<open>Op_Registry\<close> -- \<open>OperatorRegistry\<close> (\<open>registry.cpp\<close>) and the built-in schemas (\<open>builtins.cpp\<close>);
    the locale \<open>schema_store\<close> states the contract of a store keyed by name and version.
  \<^item> \<open>Kahn\<close> -- Kahn's queue algorithm as both \<open>plan.cpp\<close> and \<open>validator.cpp\<close> run it, with the locale
    \<open>dep_graph\<close> in which termination and completeness are proved once.
  \<^item> \<open>Exec_Plan\<close> -- \<open>build_execution_plan\<close> and \<open>plan_to_text\<close> (\<open>plan.cpp\<close>).
  \<^item> \<open>Validator\<close> -- \<open>validate_graph\<close> and \<open>validate_graph_error\<close> (\<open>validator.cpp\<close>), with a declarative
    specification of a valid graph that the validator is proved to decide.
  \<^item> \<open>Binary_Ir\<close> -- the binary codec (\<open>serialize_binary.cpp\<close>); the locale \<open>codec\<close> is the contract
    of a writer and a reader that fit together, and is interpreted for every record of the format.
  \<^item> \<open>Memory_Pool\<close>, \<open>Memory_Arena\<close> -- \<open>MemoryBudget\<close>, \<open>TensorPool\<close>, \<open>ArenaAllocator\<close> and \<open>Allocator\<close>
    (\<open>uaii-memory/src\<close>), as step relations over all sequences of operations; the locale
    \<open>accountant\<close> is the contract the pool relies on from its budget.
  \<^item> \<open>Fusion\<close> -- \<open>apply_fusion_passes\<close> (\<open>fusion.cpp\<close>), proved to preserve the meaning of a graph for
    every interpretation of the operators that satisfies two laws.
  \<^item> \<open>Memory_Plan\<close> -- \<open>build_memory_reuse_plan\<close> (\<open>memory_plan.cpp\<close>).
  \<^item> \<open>Storage_Plan\<close> -- \<open>build_storage_plan\<close> (\<open>storage_plan.cpp\<close>).
  \<^item> \<open>Double_Text\<close> -- IEEE doubles as \<open>std::stod\<close>, the casts and \<open>std::ostream\<close> read, convert and
    print them, for the JSON codec; it models the C++ library, not code of the repository.
  \<^item> \<open>Json\<close>, \<open>Json_Ir\<close> -- the JSON values, parser and printer (\<open>json.hpp\<close>, \<open>json_util.cpp\<close>) and the JSON
    form of graphs and plans (\<open>serialize_json.cpp\<close>); the locale \<open>json_codec\<close> is the contract of a
    writer and a reader of one kind of value.
  \<^item> \<open>Plan_Cache\<close> -- \<open>PlanCache\<close>, its plan files and fingerprints (\<open>cache.cpp\<close>); the locale \<open>stream_codec\<close>
    is the contract of reading back from a stream what was written to it.
  \<^item> \<open>Optimize\<close> -- \<open>optimize_graph\<close> (\<open>optimize.cpp\<close>), the composition of the passes and planners, with the
    end-to-end property over them.
  \<^item> \<open>Kv_Cache\<close> -- \<open>KvCache\<close> (\<open>runtime/kv_cache.hpp\<close>): flat buffers refined to a sliding window over the
    token history.
  \<^item> \<open>File_Provider\<close>, \<open>Streaming_Store\<close> -- the weight files (\<open>file_provider.cpp\<close>, the POSIX branch) and the
    staging store that loads weights on demand into one or two buffers (\<open>streaming.cpp\<close>): prefetches that end at any
    time, the expert cache, and pointers whose content is that of the buffer at the moment it is read.
  \<^item> \<open>Session_Kv\<close>, \<open>Session_State\<close>, \<open>Session_Run\<close>, \<open>Session_Generate\<close> -- \<open>runtime::Session\<close> (\<open>session.cpp\<close>) and its schedulers:
    the KV cache it sizes from the graph, its members and memory, the allocation of tensors, \<open>run\<close> with staging, prefetch
    and dispatch, the lifecycle calls of other threads, and \<open>generate\<close>.  \<open>Session_Reuse\<close>, \<open>Session_Alloc\<close>,
    \<open>Session_Share\<close> prove that sharing buffers by the memory plan is not observable, \<open>Session_Cancel\<close> that a cancellation
    ends a generation, \<open>Session_Overrun\<close> what goes wrong with 16-bit tensors; \<open>Session_Demo\<close> holds the examples.
    Kernels and sampler are parameters; an access outside a block is \<open>None\<close>; calls from other threads are a list of
    events that the session takes in at each point where the code can observe one.

  Modelling conventions.  A C++ struct is a record, an enum a datatype, an \<open>std::uint64_t\<close> a
  64-bit word, a fallible function returns \<open>error + 'a\<close>.  Null-pointer checks on out-parameters have no
  counterpart, because a result is returned instead of written through a pointer.  The
  iteration order of a hash container is a parameter of every definition that iterates over one
  (a function from lists to lists, of which the theorems assume at most that it permutes), so that
  no theorem depends on the order.  \<open>malloc\<close> and \<open>new\<close> are parameters that return an address or fail.  A \<open>std::mutex\<close>
  that guards each whole operation is not modelled: the operations are atomic steps.
  The loops that may not terminate in HOL (Kahn's queue, the size-class search) are written with
  \<open>while_option\<close> or \<open>while\<close> and proved to end.  The tightening loop of the storage planner runs
  with the source's own bound of 64 steps.  The JSON parser has fuel, twice the length of the text
  and one, which \<open>json_parse_outcome\<close> proves enough for every text.

  Not modelled: the numeric kernels and backends, the model-file loaders, tokenizers, of the session \<open>create\<close>, the loading of weights and the
  asynchronous device copies, the command line, the C API and bindings, logging and profiling.
\<close>

end
